(* ===== verification/Py_Base.thy ===== *)
theory Py_Base
  imports Main "HOL-Library.AList" "HOL-Library.Char_ord" "HOL-Library.List_Lexorder"
begin

text \<open>
  Prelude of the development: the Python constructs that every component uses.

  \<^item> Exceptions are values of \<open>exc\<close>; a function that can raise returns \<open>exc + 'a\<close>
    (\<open>Inl\<close> is the exception). \<open>catchable\<close> tells which exceptions an
    \<open>except Exception\<close> clause catches.
  \<^item> Code with effects on a world \<open>'w\<close> (a Redis server, a database, a language model, \<dots>)
    has the type \<open>('w, 'a) eff\<close>: the world is threaded through, also when an exception
    leaves the code, because the effects done before the exception stay.
    \<open>bindE\<close> sequences, \<open>forE\<close> is a \<open>for\<close> loop over a list, \<open>tryE\<close> is
    \<open>try ... except Exception\<close> and \<open>finallyE\<close> is \<open>try ... finally\<close>.
  \<^item> A \<open>dict\<close> is an association list in insertion order. The locale \<open>dict_like\<close>
    states what the components rely on; it is interpreted on the association lists.

  The collections \<open>eff_simps\<close> and \<open>dict_simps\<close> hold the rewrite rules the component
  proofs share.
\<close>

named_theorems eff_simps \<open>evaluation of effectful code\<close>
named_theorems dict_simps \<open>lookup laws of dictionaries\<close>

section \<open>Exceptions\<close>

datatype exc =
    KeyError
  | IndexError
  | TypeError
  | AttributeError
  | ValueError string
  | JSONDecodeError
  | ValidationError
  | NoWorkersAvailable string
  | AgentLoopError string
  | SystemExit string
  | CancelledError
  | LibError string

text \<open>
  \<open>asyncio.CancelledError\<close> and \<open>SystemExit\<close> derive from \<open>BaseException\<close> and pass
  through \<open>except Exception\<close>. \<open>LibError\<close> stands for every exception a third-party
  library raises (a Redis connection error, an HTTP error, a database error).
\<close>

fun catchable :: "exc \<Rightarrow> bool" where
  "catchable CancelledError = False"
| "catchable (SystemExit _) = False"
| "catchable _ = True"

section \<open>Effects\<close>

type_synonym ('w, 'a) eff = "'w \<Rightarrow> (exc + 'a) \<times> 'w"

definition retE :: "'a \<Rightarrow> ('w, 'a) eff" where
  "retE a w = (Inr a, w)"

definition raiseE :: "exc \<Rightarrow> ('w, 'a) eff" where
  "raiseE e w = (Inl e, w)"

definition bindE :: "('w, 'a) eff \<Rightarrow> ('a \<Rightarrow> ('w, 'b) eff) \<Rightarrow> ('w, 'b) eff" where
  "bindE f g w = (case f w of (Inl e, w') \<Rightarrow> (Inl e, w') | (Inr a, w') \<Rightarrow> g a w')"

definition liftE :: "exc + 'a \<Rightarrow> ('w, 'a) eff" where
  "liftE r w = (r, w)"

definition readE :: "('w \<Rightarrow> 'a) \<Rightarrow> ('w, 'a) eff" where
  "readE f w = (Inr (f w), w)"

definition tryE :: "('w, 'a) eff \<Rightarrow> (exc \<Rightarrow> ('w, 'a) eff) \<Rightarrow> ('w, 'a) eff" where
  "tryE f h w = (case f w of
      (Inl e, w') \<Rightarrow> if catchable e then h e w' else (Inl e, w')
    | (Inr a, w') \<Rightarrow> (Inr a, w'))"

text \<open>An exception of the \<open>finally\<close> block replaces the one of the body, as in Python.\<close>

definition finallyE :: "('w, 'a) eff \<Rightarrow> ('w, unit) eff \<Rightarrow> ('w, 'a) eff" where
  "finallyE f g w = (case f w of
      (r, w') \<Rightarrow> (case g w' of (Inl e, w'') \<Rightarrow> (Inl e, w'') | (Inr _, w'') \<Rightarrow> (r, w'')))"

fun forE :: "'a list \<Rightarrow> ('a \<Rightarrow> ('w, unit) eff) \<Rightarrow> ('w, unit) eff" where
  "forE [] body w = (Inr (), w)"
| "forE (x # xs) body w = (case body x w of
      (Inl e, w') \<Rightarrow> (Inl e, w') | (Inr _, w') \<Rightarrow> forE xs body w')"

text \<open>The same with a local variable that the loop updates.\<close>

fun loopE :: "('a \<Rightarrow> 'b \<Rightarrow> ('w, 'b) eff) \<Rightarrow> 'a list \<Rightarrow> 'b \<Rightarrow> ('w, 'b) eff" where
  "loopE body [] acc w = (Inr acc, w)"
| "loopE body (x # xs) acc w = (case body x acc w of
      (Inl e, w') \<Rightarrow> (Inl e, w') | (Inr acc', w') \<Rightarrow> loopE body xs acc' w')"

lemma loopE_map: "loopE body (map g xs) acc w = loopE (\<lambda>x. body (g x)) xs acc w"
  by (induction xs arbitrary: acc w) (auto split: prod.splits sum.splits)

lemma retE_apply [eff_simps]: "retE a w = (Inr a, w)"
  by (simp add: retE_def)

lemma raiseE_apply [eff_simps]: "raiseE e w = (Inl e, w)"
  by (simp add: raiseE_def)

lemma liftE_apply [eff_simps]: "liftE r w = (r, w)"
  by (simp add: liftE_def)

lemma readE_apply [eff_simps]: "readE f w = (Inr (f w), w)"
  by (simp add: readE_def)

lemma bindE_Inr [eff_simps]: "f w = (Inr a, w') \<Longrightarrow> bindE f g w = g a w'"
  by (simp add: bindE_def)

lemma bindE_Inl [eff_simps]: "f w = (Inl e, w') \<Longrightarrow> bindE f g w = (Inl e, w')"
  by (simp add: bindE_def)

lemma tryE_Inr [eff_simps]: "f w = (Inr a, w') \<Longrightarrow> tryE f h w = (Inr a, w')"
  by (simp add: tryE_def)

lemma tryE_Inl [eff_simps]:
  "f w = (Inl e, w') \<Longrightarrow> tryE f h w = (if catchable e then h e w' else (Inl e, w'))"
  by (simp add: tryE_def)

lemma bindE_Inr_iff:
  "bindE f g w = (Inr b, w'') \<longleftrightarrow> (\<exists>a w'. f w = (Inr a, w') \<and> g a w' = (Inr b, w''))"
  by (auto simp: bindE_def split: prod.splits sum.splits)

lemma bindE_Inl_iff:
  "bindE f g w = (Inl e, w'') \<longleftrightarrow>
     f w = (Inl e, w'') \<or> (\<exists>a w'. f w = (Inr a, w') \<and> g a w' = (Inl e, w''))"
  by (auto simp: bindE_def split: prod.splits sum.splits)

lemma forE_Cons_Inr:
  "forE (x # xs) body w = (Inr (), w') \<longleftrightarrow>
     (\<exists>v. body x w = (Inr (), v) \<and> forE xs body v = (Inr (), w'))"
  by (auto split: prod.splits sum.splits)

text \<open>A \<open>for\<close> loop whose body keeps an invariant of the world keeps it to the end.\<close>

lemma forE_invariant:
  assumes "forE xs body w = (r, w')" and "I w"
    and "\<And>x v s v'. x \<in> set xs \<Longrightarrow> I v \<Longrightarrow> body x v = (s, v') \<Longrightarrow> I v'"
  shows "I w'"
  using assms
proof (induction xs arbitrary: w)
  case Nil
  then show ?case by simp
next
  case (Cons x xs)
  obtain s v where b: "body x w = (s, v)" by (cases "body x w")
  have v: "I v" using Cons.prems(2) Cons.prems(3)[OF _ _ b] by simp
  show ?case
  proof (cases s)
    case (Inl e)
    with b v Cons.prems(1) show ?thesis by simp
  next
    case (Inr u)
    with b Cons.prems(1) have "forE xs body v = (r, w')" by simp
    then show ?thesis using v Cons.prems(3) Cons.IH by (meson list.set_intros(2))
  qed
qed

section \<open>Code that keeps an invariant, also when it raises\<close>

definition keepsE :: "('w \<Rightarrow> bool) \<Rightarrow> ('w, 'a) eff \<Rightarrow> bool" where
  "keepsE I f \<longleftrightarrow> (\<forall>w r w'. I w \<longrightarrow> f w = (r, w') \<longrightarrow> I w')"

lemma keepsE_D: "keepsE I f \<Longrightarrow> I w \<Longrightarrow> f w = (r, w') \<Longrightarrow> I w'"
  unfolding keepsE_def by blast

lemma keepsE_I: "(\<And>w r w'. I w \<Longrightarrow> f w = (r, w') \<Longrightarrow> I w') \<Longrightarrow> keepsE I f"
  unfolding keepsE_def by blast

lemma keepsE_bindE:
  assumes "keepsE I f" "\<And>a. keepsE I (g a)"
  shows "keepsE I (bindE f g)"
proof (rule keepsE_I)
  fix w r w' assume "I w" and run: "bindE f g w = (r, w')"
  obtain x v where x: "f w = (x, v)" by (cases "f w")
  have "I v" by (rule keepsE_D[OF assms(1) \<open>I w\<close> x])
  with run x keepsE_D[OF assms(2)] show "I w'" by (cases x) (auto simp: bindE_def)
qed

lemma keepsE_tryE:
  assumes "keepsE I f" "\<And>e. keepsE I (h e)"
  shows "keepsE I (tryE f h)"
proof (rule keepsE_I)
  fix w r w' assume "I w" and run: "tryE f h w = (r, w')"
  obtain x v where x: "f w = (x, v)" by (cases "f w")
  have "I v" by (rule keepsE_D[OF assms(1) \<open>I w\<close> x])
  with run x keepsE_D[OF assms(2)] show "I w'" by (cases x) (auto simp: tryE_def split: if_splits)
qed

lemma keepsE_pure: "keepsE I (retE a)" "keepsE I (raiseE e)" "keepsE I (liftE r)"
  unfolding keepsE_def by (simp_all add: eff_simps)

lemma keepsE_loopE: "(\<And>x acc. keepsE I (body x acc)) \<Longrightarrow> keepsE I (loopE body xs acc)"
proof (induction xs arbitrary: acc)
  case (Cons x xs)
  have "loopE body (x # xs) acc = bindE (body x acc) (\<lambda>a. loopE body xs a)"
    by (simp add: bindE_def fun_eq_iff)
  with Cons show ?case by (simp add: keepsE_bindE del: loopE.simps)
qed (simp add: keepsE_def)

lemmas keepsE_intros = keepsE_bindE keepsE_tryE keepsE_pure keepsE_loopE

section \<open>Code that can raise but has no effect\<close>

definition bindX :: "exc + 'a \<Rightarrow> ('a \<Rightarrow> exc + 'b) \<Rightarrow> exc + 'b" where
  "bindX r f = (case r of Inl e \<Rightarrow> Inl e | Inr a \<Rightarrow> f a)"

text \<open>A \<open>for\<close> loop that updates a local variable and may raise.\<close>

fun loopX :: "('a \<Rightarrow> 'b \<Rightarrow> exc + 'b) \<Rightarrow> 'a list \<Rightarrow> 'b \<Rightarrow> exc + 'b" where
  "loopX f [] acc = Inr acc"
| "loopX f (x # xs) acc = (case f x acc of Inl e \<Rightarrow> Inl e | Inr acc' \<Rightarrow> loopX f xs acc')"

lemma bindX_simps [simp]: "bindX (Inr a) f = f a" "bindX (Inl e) f = Inl e"
  by (simp_all add: bindX_def)

lemma bindX_Inr_iff: "bindX r f = Inr b \<longleftrightarrow> (\<exists>a. r = Inr a \<and> f a = Inr b)"
  by (cases r) auto

lemma loopX_invariant:
  assumes "loopX f xs acc = Inr acc'" and "I acc"
    and "\<And>x a b. x \<in> set xs \<Longrightarrow> I a \<Longrightarrow> f x a = Inr b \<Longrightarrow> I b"
  shows "I acc'"
  using assms
proof (induction xs arbitrary: acc)
  case (Cons x xs)
  then obtain b where "f x acc = Inr b" "loopX f xs b = Inr acc'" by (auto split: sum.splits)
  then show ?case using Cons by (meson list.set_intros)
qed simp

text \<open>A loop whose body appends a list to the variable concatenates these lists.\<close>

lemma loopX_append:
  assumes "\<And>x acc. x \<in> set xs \<Longrightarrow> f x acc = Inr (acc @ g x)"
  shows "loopX f xs acc = Inr (acc @ concat (map g xs))"
  using assms by (induction xs arbitrary: acc) auto

section \<open>Dictionaries\<close>

type_synonym ('k, 'v) pydict = "('k \<times> 'v) list"

definition dict_get :: "('k, 'v) pydict \<Rightarrow> 'k \<Rightarrow> 'v option" where
  "dict_get d = map_of d"

text \<open>\<open>d[k] = v\<close> keeps the position of an existing key and appends a new one.\<close>

definition dict_set :: "('k, 'v) pydict \<Rightarrow> 'k \<Rightarrow> 'v \<Rightarrow> ('k, 'v) pydict" where
  "dict_set d k v = AList.update k v d"

definition dict_pop :: "('k, 'v) pydict \<Rightarrow> 'k \<Rightarrow> ('k, 'v) pydict" where
  "dict_pop d k = AList.delete k d"

definition dict_keys :: "('k, 'v) pydict \<Rightarrow> 'k list" where
  "dict_keys d = map fst d"

definition dict_values :: "('k, 'v) pydict \<Rightarrow> 'v list" where
  "dict_values d = map snd d"

definition dict_ok :: "('k, 'v) pydict \<Rightarrow> bool" where
  "dict_ok d \<longleftrightarrow> distinct (map fst d)"

text \<open>The contract of a dictionary, and what follows for loops that fill or empty one.\<close>

locale dict_like =
  fixes empty :: 'd
    and get :: "'d \<Rightarrow> 'k \<Rightarrow> 'v option"
    and put :: "'d \<Rightarrow> 'k \<Rightarrow> 'v \<Rightarrow> 'd"
    and pop :: "'d \<Rightarrow> 'k \<Rightarrow> 'd"
    and keys :: "'d \<Rightarrow> 'k list"
    and ok :: "'d \<Rightarrow> bool"
  assumes ok_empty: "ok empty"
    and ok_put: "ok d \<Longrightarrow> ok (put d k v)"
    and ok_pop: "ok d \<Longrightarrow> ok (pop d k)"
    and get_empty: "get empty k = None"
    and get_put: "get (put d k v) = (get d)(k \<mapsto> v)"
    and get_pop: "get (pop d k) = (get d)(k := None)"
    and set_keys: "set (keys d) = dom (get d)"
    and distinct_keys: "ok d \<Longrightarrow> distinct (keys d)"
begin

lemma ok_put_fold: "ok d \<Longrightarrow> ok (fold (\<lambda>i d. put d (f i) (v i)) is d)"
  by (induction "is" arbitrary: d) (auto intro: ok_put)

lemma ok_pop_fold: "ok d \<Longrightarrow> ok (fold (\<lambda>i d. pop d (f i)) is d)"
  by (induction "is" arbitrary: d) (auto intro: ok_pop)

lemma get_put_fold_same:
  "get (fold (\<lambda>i d. put d (f i) v) is d) k = (if k \<in> f ` set is then Some v else get d k)"
  by (induction "is" arbitrary: d) (auto simp: get_put)

lemma get_pop_fold:
  "get (fold (\<lambda>i d. pop d (f i)) is d) k = (if k \<in> f ` set is then None else get d k)"
  by (induction "is" arbitrary: d) (auto simp: get_pop)

lemma finite_dom_get: "finite (dom (get d))"
  using set_keys[of d] by (metis List.finite_set)

end

lemma dict_ok_Nil [simp]: "dict_ok []"
  by (simp add: dict_ok_def)

lemma dict_ok_set [simp]: "dict_ok d \<Longrightarrow> dict_ok (dict_set d k v)"
  by (simp add: dict_ok_def dict_set_def distinct_update)

lemma dict_ok_pop [simp]: "dict_ok d \<Longrightarrow> dict_ok (dict_pop d k)"
  by (simp add: dict_ok_def dict_pop_def distinct_delete)

lemma dict_get_Nil [dict_simps]: "dict_get [] k = None"
  by (simp add: dict_get_def)

lemma dict_get_set [dict_simps]: "dict_get (dict_set d k v) = (dict_get d)(k \<mapsto> v)"
  by (simp add: dict_get_def dict_set_def update_conv')

lemma dict_get_pop [dict_simps]: "dict_get (dict_pop d k) = (dict_get d)(k := None)"
  by (simp add: dict_get_def dict_pop_def delete_conv')

lemma set_dict_keys [dict_simps]: "set (dict_keys d) = dom (dict_get d)"
  by (simp add: dict_keys_def dict_get_def dom_map_of_conv_image_fst)

lemma set_dict_values: "dict_ok d \<Longrightarrow> set (dict_values d) = ran (dict_get d)"
  by (simp add: dict_ok_def dict_values_def dict_get_def ran_distinct image_def)

interpretation pd: dict_like "[]" dict_get dict_set dict_pop dict_keys dict_ok
  by unfold_locales (simp_all add: dict_simps, simp add: dict_ok_def dict_keys_def)

lemma dict_set_new: "k \<notin> fst ` set d \<Longrightarrow> dict_set d k v = d @ [(k, v)]"
  unfolding dict_set_def by (induction d) auto

text \<open>Two dictionaries with the same content have the same sorted key list.\<close>

lemma sorted_keys_eq:
  "dict_ok d \<Longrightarrow> dict_ok d' \<Longrightarrow> dict_get d = dict_get d' \<Longrightarrow>
     sort (dict_keys d) = sort (dict_keys (d' :: ('k :: linorder, 'v) pydict))"
  by (rule sorted_distinct_set_unique) (simp_all add: pd.distinct_keys dict_simps)

end
