(* ===== verification/Py_Str.thy ===== *)
theory Py_Str
  imports Py_Base
begin

text \<open>
  Python strings. A \<open>str\<close> is a sequence of code points; the model covers the code points
  U+0000 to U+00FF (Latin-1), one \<open>char\<close> for each, so lengths, slices and \<open>lower()\<close>
  count and map what Python counts and maps. Strings are ordered lexicographically by code
  point, as Python orders them (theory \<open>List_Lexorder\<close>).

  The operations are those the source applies: \<open>str(n)\<close> of a natural number, \<open>lower\<close>,
  \<open>strip\<close> (white space, or one given character), \<open>startswith\<close>, \<open>in\<close>, \<open>join\<close> and
  \<open>split\<close> on one character.
\<close>

definition code :: "char \<Rightarrow> nat" where
  "code c = of_char c"

section \<open>Decimal numerals\<close>

definition digit :: "nat \<Rightarrow> char" where
  "digit d = char_of (48 + d)"

fun str_nat :: "nat \<Rightarrow> string" where
  "str_nat n = (if n < 10 then [digit n] else str_nat (n div 10) @ [digit (n mod 10)])"

declare str_nat.simps [simp del]

definition is_digit :: "char \<Rightarrow> bool" where
  "is_digit c \<longleftrightarrow> 48 \<le> code c \<and> code c \<le> 57"

definition digits_val :: "string \<Rightarrow> nat" where
  "digits_val s = foldl (\<lambda>v c. 10 * v + (code c - 48)) 0 s"

lemma code_digit: "d < 10 \<Longrightarrow> code (digit d) = 48 + d"
  by (simp add: code_def digit_def)

lemma str_nat_digits: "\<forall>c \<in> set (str_nat n). is_digit c"
proof (induction n rule: str_nat.induct)
  case (1 n)
  then show ?case
    by (subst str_nat.simps) (auto simp: is_digit_def code_digit)
qed

lemma digits_val_str_nat [simp]: "digits_val (str_nat n) = n"
proof (induction n rule: str_nat.induct)
  case (1 n)
  then show ?case
    by (subst str_nat.simps) (auto simp: digits_val_def code_digit)
qed

lemma str_nat_inj: "str_nat m = str_nat n \<longleftrightarrow> m = n"
  by (metis digits_val_str_nat)

lemma str_nat_nonempty: "str_nat n \<noteq> []"
  by (subst str_nat.simps) simp

section \<open>Case, white space, prefixes\<close>

definition lower_char :: "char \<Rightarrow> char" where
  "lower_char c = (let n = code c in
     if 65 \<le> n \<and> n \<le> 90 \<or> 192 \<le> n \<and> n \<le> 222 \<and> n \<noteq> 215 then char_of (n + 32) else c)"

definition lower :: "string \<Rightarrow> string" where
  "lower s = map lower_char s"

definition is_space :: "char \<Rightarrow> bool" where
  "is_space c \<longleftrightarrow> (let n = code c in
     9 \<le> n \<and> n \<le> 13 \<or> 28 \<le> n \<and> n \<le> 32 \<or> n = 133 \<or> n = 160)"

definition strip_by :: "(char \<Rightarrow> bool) \<Rightarrow> string \<Rightarrow> string" where
  "strip_by p s = rev (dropWhile p (rev (dropWhile p s)))"

definition strip :: "string \<Rightarrow> string" where
  "strip s = strip_by is_space s"

fun startswith :: "string \<Rightarrow> string \<Rightarrow> bool" where
  "startswith s [] = True"
| "startswith [] (p # ps) = False"
| "startswith (c # cs) (p # ps) = (c = p \<and> startswith cs ps)"

fun contains :: "string \<Rightarrow> string \<Rightarrow> bool" where
  "contains [] p = (p = [])"
| "contains (c # cs) p = (startswith (c # cs) p \<or> contains cs p)"

fun join :: "string \<Rightarrow> string list \<Rightarrow> string" where
  "join sep [] = []"
| "join sep [x] = x"
| "join sep (x # y # ys) = x @ sep @ join sep (y # ys)"

fun split_on :: "char \<Rightarrow> string \<Rightarrow> string list" where
  "split_on d [] = [[]]"
| "split_on d (c # cs) =
     (if c = d then [] # split_on d cs
      else (case split_on d cs of [] \<Rightarrow> [[c]] | p # ps \<Rightarrow> (c # p) # ps))"

lemma startswith_iff: "startswith s p \<longleftrightarrow> (\<exists>t. s = p @ t)"
  by (induction s p rule: startswith.induct) auto

lemma contains_iff: "contains s p \<longleftrightarrow> (\<exists>u t. s = u @ p @ t)"
proof (induction s)
  case Nil
  then show ?case by auto
next
  case (Cons c cs)
  show ?case
  proof
    assume "contains (c # cs) p"
    then show "\<exists>u t. c # cs = u @ p @ t"
      using Cons.IH by (metis append_Cons append_Nil contains.simps(2) startswith_iff)
  next
    assume "\<exists>u t. c # cs = u @ p @ t"
    then obtain u t where eq: "c # cs = u @ p @ t" by blast
    show "contains (c # cs) p"
    proof (cases u)
      case Nil
      with eq have "startswith (c # cs) p" by (simp add: startswith_iff)
      then show ?thesis by simp
    next
      case (Cons d u')
      with eq have "contains cs p" using Cons.IH by auto
      then show ?thesis by simp
    qed
  qed
qed

lemma split_on_nonempty: "split_on d s \<noteq> []"
  by (induction s) (auto split: list.splits)

lemma join_split_on: "join [d] (split_on d s) = s"
proof (induction s)
  case Nil
  then show ?case by simp
next
  case (Cons c cs)
  obtain p ps where "split_on d cs = p # ps"
    using split_on_nonempty[of d cs] by (cases "split_on d cs") auto
  with Cons show ?case by (cases ps) auto
qed

lemma split_on_no_sep: "x \<in> set (split_on d s) \<Longrightarrow> d \<notin> set x"
proof (induction s arbitrary: x)
  case Nil
  then show ?case by simp
next
  case (Cons c cs)
  then show ?case by (auto split: if_splits list.splits)
qed

lemma strip_by_ends:
  "strip_by p s = [] \<or> (\<not> p (hd (strip_by p s)) \<and> \<not> p (last (strip_by p s)))"
proof (cases "dropWhile p s")
  case Nil
  show ?thesis unfolding strip_by_def Nil by simp
next
  case (Cons c cs)
  then have c: "\<not> p c" by (metis hd_dropWhile list.distinct(1) list.sel(1))
  let ?r = "dropWhile p (rev (c # cs))"
  have ne: "?r \<noteq> []" using c by (auto simp: dropWhile_eq_Nil_conv)
  then have "\<not> p (hd ?r)" by (rule hd_dropWhile)
  moreover have "last ?r = c"
    using ne by (metis dropWhile_eq_Nil_conv last_appendR last_rev list.sel(1) takeWhile_dropWhile_id rev_is_Nil_conv)
  ultimately show ?thesis using Cons c ne by (simp add: strip_by_def hd_rev last_rev)
qed

lemma strip_by_Nil_iff: "strip_by p s = [] \<longleftrightarrow> (\<forall>c \<in> set s. p c)"
proof
  assume "strip_by p s = []"
  then have "\<forall>c \<in> set (dropWhile p s). p c" by (simp add: strip_by_def dropWhile_eq_Nil_conv)
  then have "dropWhile p s = []" by (metis hd_dropWhile hd_in_set)
  then show "\<forall>c \<in> set s. p c" by (simp add: dropWhile_eq_Nil_conv)
next
  assume "\<forall>c \<in> set s. p c"
  then have "dropWhile p s = []" by (simp add: dropWhile_eq_Nil_conv)
  then show "strip_by p s = []" unfolding strip_by_def by (simp only: rev.simps dropWhile.simps)
qed

lemma set_strip_by: "set (strip_by p s) \<subseteq> set s"
  by (auto simp: strip_by_def dest!: set_dropWhileD)

lemma strip_by_id:
  "s = [] \<or> (\<not> p (hd s) \<and> \<not> p (last s)) \<Longrightarrow> strip_by p s = s"
proof (cases s)
  case (Cons c cs)
  assume "s = [] \<or> (\<not> p (hd s) \<and> \<not> p (last s))"
  with Cons have h: "\<not> p c" and l: "\<not> p (hd (rev s))"
    by (simp_all only: hd_rev list.sel list.distinct simp_thms)
  have "dropWhile p s = s" using Cons h by simp
  moreover have "dropWhile p (rev s) = rev s"
    using l Cons by (cases "rev s") auto
  ultimately show ?thesis by (simp add: strip_by_def)
qed (simp add: strip_by_def)

end
