(* ===== verification/Sentinel_Client.thy ===== *)
theory Sentinel_Client
  imports Py_Str
begin

text \<open>
  Model of \<open>coordination/sentinel_client.py\<close> and of the client library behind it.

  redis-py and the Redis server are not part of the repository: the record \<open>redis\<close> holds
  the commands the program issues as parameters, each an effect on a world \<open>'w\<close> that may
  raise. \<open>redis_queues\<close> states the documented behaviour of the list commands that the task
  queues rely on, for a view \<open>q\<close> of the lists a world holds. \<open>redis_keys\<close> does the same
  for the plain keys that the heartbeats use.

  \<open>from_settings\<close> is the parser of the \<open>host:port\<close> list.
\<close>

record 'w redis =
  rd_ping :: "('w, bool) eff"
  rd_set_ex :: "string \<Rightarrow> string \<Rightarrow> int \<Rightarrow> ('w, unit) eff"
  rd_delete :: "string \<Rightarrow> ('w, unit) eff"
  rd_scan :: "string \<Rightarrow> ('w, string list) eff"
  rd_publish :: "string \<Rightarrow> string \<Rightarrow> ('w, unit) eff"
  rd_rpush :: "string \<Rightarrow> string \<Rightarrow> ('w, unit) eff"
  rd_rpush_pipeline :: "(string \<times> string) list \<Rightarrow> ('w, unit) eff"
  rd_blpop :: "string \<Rightarrow> ('w, (string \<times> string) option) eff"
  rd_llen :: "string \<Rightarrow> ('w, nat) eff"

text \<open>
  RPUSH appends to one list. BLPOP removes the head of a non-empty list and answers with the
  key and the value; on a time-out it answers nil and has no effect. A pipeline is executed
  as one transaction: its commands take effect in order.
\<close>

definition push_list :: "(string \<Rightarrow> string list) \<Rightarrow> (string \<times> string) list \<Rightarrow> string \<Rightarrow> string list" where
  "push_list m ops k = m k @ map snd (filter (\<lambda>p. fst p = k) ops)"

definition redis_queues :: "'w redis \<Rightarrow> ('w \<Rightarrow> string \<Rightarrow> string list) \<Rightarrow> bool" where
  "redis_queues api q \<longleftrightarrow>
     (\<forall>k v w w'. rd_rpush api k v w = (Inr (), w') \<longrightarrow> q w' = push_list (q w) [(k, v)])
   \<and> (\<forall>ops w w'. rd_rpush_pipeline api ops w = (Inr (), w') \<longrightarrow> q w' = push_list (q w) ops)
   \<and> (\<forall>k kv w w'. rd_blpop api k w = (Inr (Some kv), w') \<longrightarrow>
        fst kv = k \<and> q w k = snd kv # q w' k \<and> (\<forall>j. j \<noteq> k \<longrightarrow> q w' j = q w j))
   \<and> (\<forall>k w w'. rd_blpop api k w = (Inr None, w') \<longrightarrow> q w k = [] \<and> q w' = q w)"

text \<open>
  SET with EX stores the key, DEL removes it, SCAN with a \<open>MATCH\<close> pattern lists the stored
  keys with the prefix before the star (an element may be returned more than once).
\<close>

definition redis_keys :: "'w redis \<Rightarrow> ('w \<Rightarrow> string set) \<Rightarrow> bool" where
  "redis_keys api keys \<longleftrightarrow>
     (\<forall>k v t w w'. rd_set_ex api k v t w = (Inr (), w') \<longrightarrow> keys w' = insert k (keys w))
   \<and> (\<forall>k w w'. rd_delete api k w = (Inr (), w') \<longrightarrow> keys w' = keys w - {k})
   \<and> (\<forall>c m w r w'. rd_publish api c m w = (r, w') \<longrightarrow> keys w' = keys w)
   \<and> (\<forall>p w ks w'. rd_scan api p w = (Inr ks, w') \<longrightarrow>
        set ks = {k \<in> keys w. startswith k p} \<and> keys w' = keys w)"

lemma redis_queues_rpush:
  "redis_queues api q \<Longrightarrow> rd_rpush api k v w = (Inr (), w') \<Longrightarrow> q w' = push_list (q w) [(k, v)]"
  by (simp add: redis_queues_def)

lemma redis_queues_pipeline:
  "redis_queues api q \<Longrightarrow> rd_rpush_pipeline api ops w = (Inr (), w') \<Longrightarrow> q w' = push_list (q w) ops"
  by (simp add: redis_queues_def)

lemma redis_queues_blpop_Some:
  assumes "redis_queues api q" "rd_blpop api k w = (Inr (Some kv), w')"
  shows "fst kv = k" "q w k = snd kv # q w' k" "j \<noteq> k \<Longrightarrow> q w' j = q w j"
  using assms unfolding redis_queues_def by blast+

lemma redis_queues_blpop_None:
  "redis_queues api q \<Longrightarrow> rd_blpop api k w = (Inr None, w') \<Longrightarrow> q w k = [] \<and> q w' = q w"
  unfolding redis_queues_def by blast

lemma push_list_append: "push_list (push_list m xs) ys = push_list m (xs @ ys)"
  by (simp add: push_list_def fun_eq_iff)

section \<open>The sentinel list\<close>

text \<open>
  \<open>int(p)\<close>: white space around, an optional sign, decimal digits, single underscores
  between digits.
\<close>

fun digit_groups :: "string \<Rightarrow> bool" where
  "digit_groups [] = False"
| "digit_groups [c] = is_digit c"
| "digit_groups (c # d # cs) =
     (is_digit c \<and> (if d = CHR ''_'' then digit_groups cs else digit_groups (d # cs)))"

definition py_int :: "string \<Rightarrow> exc + int" where
  "py_int s =
     (let t = strip s;
          neg = (t \<noteq> [] \<and> hd t = CHR ''-'');
          u = (if t \<noteq> [] \<and> (hd t = CHR ''-'' \<or> hd t = CHR ''+'') then tl t else t);
          v = int (digits_val (filter is_digit u))
      in if digit_groups u then Inr (if neg then - v else v)
         else Inl (ValueError ''invalid literal for int() with base 10''))"

definition default_sentinel_port :: int where
  "default_sentinel_port = 26379"

text \<open>
  The second comprehension unpacks each tuple into two names, which raises for a tuple of
  another length.
\<close>

fun parse_sentinel :: "string list \<Rightarrow> exc + (string \<times> int)" where
  "parse_sentinel [h, p] =
     (if p = [] then Inr (h, default_sentinel_port)
      else (case py_int p of Inl e \<Rightarrow> Inl e | Inr n \<Rightarrow> Inr (h, n)))"
| "parse_sentinel _ = Inl (ValueError ''values to unpack (expected 2)'')"

fun collect :: "('a \<Rightarrow> exc + 'b) \<Rightarrow> 'a list \<Rightarrow> exc + 'b list" where
  "collect f [] = Inr []"
| "collect f (x # xs) = (case f x of
      Inl e \<Rightarrow> Inl e
    | Inr y \<Rightarrow> (case collect f xs of Inl e \<Rightarrow> Inl e | Inr ys \<Rightarrow> Inr (y # ys)))"

definition sentinel_hosts :: "string \<Rightarrow> exc + (string \<times> int) list" where
  "sentinel_hosts s =
     collect parse_sentinel
       (map (split_on (CHR '':'')) (filter (\<lambda>h. strip h \<noteq> []) (split_on (CHR '','') s)))"

text \<open>
  The client object. \<open>connect\<close> stands for redis-py's discovery of a master or a replica by the
  name of the master.
\<close>

record sentinel_client =
  sc_sentinels :: "(string \<times> int) list"
  sc_socket_timeout_ms :: int
  sc_master_name :: string

definition sentinel_init :: "(string \<times> int) list \<Rightarrow> string \<Rightarrow> sentinel_client" where
  "sentinel_init sentinels name =
     \<lparr>sc_sentinels = sentinels, sc_socket_timeout_ms = 500, sc_master_name = name\<rparr>"

datatype redis_role = Master | Replica

definition master :: "(redis_role \<Rightarrow> (string \<times> int) list \<Rightarrow> string \<Rightarrow> 'w redis) \<Rightarrow> sentinel_client \<Rightarrow> 'w redis" where
  "master connect c = connect Master (sc_sentinels c) (sc_master_name c)"

definition replica :: "(redis_role \<Rightarrow> (string \<times> int) list \<Rightarrow> string \<Rightarrow> 'w redis) \<Rightarrow> sentinel_client \<Rightarrow> 'w redis" where
  "replica connect c = connect Replica (sc_sentinels c) (sc_master_name c)"

text \<open>\<open>ping\<close> turns every exception into \<open>False\<close>.\<close>

definition sentinel_ping :: "'w redis \<Rightarrow> ('w, bool) eff" where
  "sentinel_ping api = tryE (rd_ping api) (\<lambda>e. retE False)"

lemma collect_Inr_length: "collect f xs = Inr ys \<Longrightarrow> length ys = length xs"
  by (induction xs arbitrary: ys) (auto split: sum.splits)

lemma collect_map_Inr: "(\<And>x. x \<in> set xs \<Longrightarrow> f x = Inr (g x)) \<Longrightarrow> collect f xs = Inr (map g xs)"
  by (induction xs) auto

section \<open>A server that satisfies the hypotheses\<close>

text \<open>
  A concrete store with the keys, the lists and the published messages: it shows that the
  hypotheses on Redis can hold, and the witnesses of the properties run on it.
\<close>

record mem =
  mem_keys :: "string list"
  mem_lists :: "(string, string list) pydict"
  mem_published :: "(string \<times> string) list"

definition mem_list :: "mem \<Rightarrow> string \<Rightarrow> string list" where
  "mem_list m k = (case dict_get (mem_lists m) k of None \<Rightarrow> [] | Some xs \<Rightarrow> xs)"

definition mem_push :: "string \<Rightarrow> string \<Rightarrow> mem \<Rightarrow> mem" where
  "mem_push k v m = m\<lparr>mem_lists := dict_set (mem_lists m) k (mem_list m k @ [v])\<rparr>"

definition mem_redis :: "mem redis" where
  "mem_redis =
    \<lparr>rd_ping = (\<lambda>m. (Inr True, m)),
     rd_set_ex = (\<lambda>k v t m. (Inr (), m\<lparr>mem_keys := List.insert k (mem_keys m)\<rparr>)),
     rd_delete = (\<lambda>k m. (Inr (), m\<lparr>mem_keys := removeAll k (mem_keys m)\<rparr>)),
     rd_scan = (\<lambda>p m. (Inr (filter (\<lambda>k. startswith k p) (mem_keys m)), m)),
     rd_publish = (\<lambda>c d m. (Inr (), m\<lparr>mem_published := mem_published m @ [(c, d)]\<rparr>)),
     rd_rpush = (\<lambda>k v m. (Inr (), mem_push k v m)),
     rd_rpush_pipeline = (\<lambda>ops m. (Inr (), fold (\<lambda>(k, v). mem_push k v) ops m)),
     rd_blpop = (\<lambda>k m. (case mem_list m k of
          [] \<Rightarrow> (Inr None, m)
        | v # vs \<Rightarrow> (Inr (Some (k, v)), m\<lparr>mem_lists := dict_set (mem_lists m) k vs\<rparr>))),
     rd_llen = (\<lambda>k m. (Inr (length (mem_list m k)), m))\<rparr>"

definition mem_empty :: mem where
  "mem_empty = \<lparr>mem_keys = [], mem_lists = [], mem_published = []\<rparr>"

lemma mem_redis_simps [simp]:
  "rd_set_ex mem_redis k v t m = (Inr (), m\<lparr>mem_keys := List.insert k (mem_keys m)\<rparr>)"
  "rd_delete mem_redis k m = (Inr (), m\<lparr>mem_keys := removeAll k (mem_keys m)\<rparr>)"
  "rd_publish mem_redis c d m = (Inr (), m\<lparr>mem_published := mem_published m @ [(c, d)]\<rparr>)"
  "rd_rpush mem_redis k v m = (Inr (), mem_push k v m)"
  "rd_rpush_pipeline mem_redis ops m = (Inr (), fold (\<lambda>(k, v). mem_push k v) ops m)"
  "rd_blpop mem_redis k m = (case mem_list m k of
      [] \<Rightarrow> (Inr None, m)
    | v # vs \<Rightarrow> (Inr (Some (k, v)), m\<lparr>mem_lists := dict_set (mem_lists m) k vs\<rparr>))"
  by (simp_all add: mem_redis_def)

lemma mem_list_push: "mem_list (mem_push k v m) = push_list (mem_list m) [(k, v)]"
  by (auto simp: mem_push_def mem_list_def push_list_def dict_simps fun_eq_iff)

lemma mem_list_pushes:
  "mem_list (fold (\<lambda>(k, v). mem_push k v) ops m) = push_list (mem_list m) ops"
proof (induction ops arbitrary: m)
  case Nil
  then show ?case by (simp add: push_list_def)
next
  case (Cons kv ops)
  then show ?case by (cases kv) (simp add: mem_list_push push_list_append)
qed

lemma mem_redis_queues: "redis_queues mem_redis mem_list"
  unfolding redis_queues_def
  by (auto simp: mem_redis_def mem_list_push mem_list_pushes split: list.splits)
    (auto simp: mem_list_def dict_simps)

lemma mem_redis_keys: "redis_keys mem_redis (\<lambda>m. set (mem_keys m))"
  unfolding redis_keys_def by (auto simp: mem_redis_def)

section \<open>Well-formed lists\<close>

text \<open>The text of one entry, for lists that are well formed.\<close>

definition show_sentinel :: "string \<times> nat \<Rightarrow> string" where
  "show_sentinel hp = fst hp @ '':'' @ str_nat (snd hp)"

lemma split_on_free: "d \<notin> set x \<Longrightarrow> split_on d x = [x]"
  by (induction x) auto

lemma split_on_append: "d \<notin> set x \<Longrightarrow> split_on d (x @ d # ys) = x # split_on d ys"
  by (induction x) auto

lemma split_on_join:
  "xs \<noteq> [] \<Longrightarrow> (\<And>x. x \<in> set xs \<Longrightarrow> d \<notin> set x) \<Longrightarrow> split_on d (join [d] xs) = xs"
  by (induction "[d]" xs rule: join.induct) (simp_all add: split_on_free split_on_append)

lemma digit_groups_digits: "s \<noteq> [] \<Longrightarrow> \<forall>c \<in> set s. is_digit c \<Longrightarrow> digit_groups s"
proof (induction s rule: digit_groups.induct)
  case (3 c d cs)
  then have "d \<noteq> CHR ''_''" by (auto simp: is_digit_def code_def)
  with 3 show ?case by simp
qed simp_all

lemma py_int_str_nat: "py_int (str_nat n) = Inr (int n)"
proof -
  have d: "\<forall>c \<in> set (str_nat n). is_digit c" by (rule str_nat_digits)
  have "\<not> is_space c" "c \<noteq> CHR ''-''" "c \<noteq> CHR ''+''" if "is_digit c" for c
    using that by (auto simp: is_digit_def is_space_def code_def)
  moreover have "is_digit (hd (str_nat n))" "is_digit (last (str_nat n))"
    using d str_nat_nonempty[of n] by (simp_all add: hd_in_set last_in_set)
  ultimately have "strip (str_nat n) = str_nat n" "hd (str_nat n) \<noteq> CHR ''-''"
    "hd (str_nat n) \<noteq> CHR ''+''"
    unfolding strip_def by (blast intro: strip_by_id)+
  with d show ?thesis
    using digit_groups_digits[OF str_nat_nonempty d] str_nat_nonempty[of n]
    by (simp add: py_int_def filter_id_conv)
qed

lemma sentinel_hosts_show:
  assumes "hps \<noteq> []"
    and "\<forall>hp \<in> set hps. CHR '':'' \<notin> set (fst hp) \<and> CHR '','' \<notin> set (fst hp)"
  shows "sentinel_hosts (join '','' (map show_sentinel hps)) = Inr (map (\<lambda>(h, p). (h, int p)) hps)"
proof -
  have digit: "CHR '':'' \<notin> set (str_nat p)" "CHR '','' \<notin> set (str_nat p)" for p
    using str_nat_digits[of p] by (auto simp: is_digit_def code_def)
  have blank: "strip (show_sentinel hp) \<noteq> []" for hp
    by (simp add: strip_def strip_by_Nil_iff show_sentinel_def is_space_def code_def)
  have split: "split_on (CHR '','') (join '','' (map show_sentinel hps)) = map show_sentinel hps"
    using assms digit by (intro split_on_join) (auto simp: show_sentinel_def)
  have "parse_sentinel (split_on (CHR '':'') (show_sentinel hp)) = Inr (fst hp, int (snd hp))"
    if "hp \<in> set hps" for hp
    using that assms(2) digit str_nat_nonempty
    by (simp add: show_sentinel_def split_on_append split_on_free py_int_str_nat)
  then have "collect parse_sentinel (map (split_on (CHR '':'')) (map show_sentinel hps)) =
      Inr (map (\<lambda>hp. (fst hp, int (snd hp))) hps)"
    by (induction hps) auto
  then show ?thesis
    by (simp add: sentinel_hosts_def split blank case_prod_unfold comp_def filter_True)
qed

section \<open>Properties\<close>

text \<open>
  A well-formed sentinel list \<open>host:port,host:port,...\<close> (hosts without colon or comma,
  ports as decimal numbers) is parsed to exactly these pairs, in order.
\<close>

lemma sentinel_hosts_parses:
  assumes "hps \<noteq> []"
    and "\<forall>hp \<in> set hps. CHR '':'' \<notin> set (fst hp) \<and> CHR '','' \<notin> set (fst hp)"
  shows "sentinel_hosts (join '','' (map show_sentinel hps)) = Inr (map (\<lambda>(h, p). (h, int p)) hps)"
  using assms by (rule sentinel_hosts_show)

lemma sentinel_hosts_parses_example:
  "sentinel_hosts (join '','' (map show_sentinel [(''localhost'', 26379), (''localhost'', 26380)]))
     = Inr [(''localhost'', 26379), (''localhost'', 26380)]"
  using sentinel_hosts_parses[of "[(''localhost'', 26379), (''localhost'', 26380)]"] by simp

text \<open>
  A sentinel entry without a colon is not given the default port: \<open>from_settings\<close> raises
  \<open>ValueError\<close> for it. Only an entry that ends in a colon gets port 26379.
\<close>

lemma sentinel_default_port:
  assumes "CHR '':'' \<notin> set h" and "CHR '','' \<notin> set h" and "strip h \<noteq> []"
  shows "sentinel_hosts h = Inl (ValueError ''values to unpack (expected 2)'')
    \<and> sentinel_hosts (h @ '':'') = Inr [(h, default_sentinel_port)]"
proof -
  have "split_on (CHR '','') (h @ '':'') = [h @ '':'']"
    using assms(2) by (intro split_on_free) simp
  moreover have "split_on (CHR '':'') (h @ '':'') = [h, []]"
    using split_on_append[of "CHR '':''" h "[]"] assms(1) by simp
  moreover have "strip (h @ '':'') \<noteq> []"
    by (simp add: strip_def strip_by_Nil_iff is_space_def code_def)
  ultimately show ?thesis using assms by (simp add: sentinel_hosts_def split_on_free)
qed

lemma sentinel_default_port_example:
  "sentinel_hosts ''localhost'' = Inl (ValueError ''values to unpack (expected 2)'')
   \<and> sentinel_hosts ''localhost:'' = Inr [(''localhost'', default_sentinel_port)]"
proof -
  have "strip ''localhost'' \<noteq> []" by code_simp
  then show ?thesis using sentinel_default_port[of "''localhost''"] by simp
qed

end
