(* ===== verification/Hashlib.thy ===== *)
theory Hashlib
  imports Py_Str
begin

text \<open>
  The part of Python's \<open>hashlib\<close> the program calls: \<open>md5\<close> (RFC 1321) for the hash ring
  and \<open>sha1\<close> (RFC 3174) for contract and clause ids, \<open>hexdigest\<close>, \<open>encode("utf-8")\<close> and
  \<open>int(s, 16)\<close>. Bytes and 32-bit words are integers, with the wrap-around of
  addition, rotation and complement written out (\<open>w32\<close> reduces modulo 2 to the 32).

  The general lemmas give the shape of a digest (length, hexadecimal digits, numeric bound).
  The test vectors at the end are evaluated by the kernel and agree with the RFCs.
\<close>

unbundle bit_operations_syntax

type_synonym byte = int
type_synonym word32 = int

section \<open>Bytes and blocks\<close>

text \<open>UTF-8 of the code points U+0000 to U+00FF: one byte up to U+007F, two above.\<close>

definition utf8_char :: "char \<Rightarrow> byte list" where
  "utf8_char c = (let n = (of_char c :: int) in
     if n < 128 then [n] else [192 + n div 64, 128 + n mod 64])"

definition utf8 :: "string \<Rightarrow> byte list" where
  "utf8 s = concat (map utf8_char s)"

fun groups :: "nat \<Rightarrow> 'a list \<Rightarrow> 'a list list" where
  "groups n xs = (if xs = [] \<or> n = 0 then [] else take n xs # groups n (drop n xs))"

declare groups.simps [simp del]

definition w32 :: "int \<Rightarrow> word32" where
  "w32 n = n mod 4294967296"

definition not32 :: "word32 \<Rightarrow> word32" where
  "not32 n = 4294967295 - n"

definition rotl32 :: "nat \<Rightarrow> word32 \<Rightarrow> word32" where
  "rotl32 k n = w32 (n * 2 ^ k) + n div 2 ^ (32 - k)"

definition bytes_be32 :: "word32 \<Rightarrow> byte list" where
  "bytes_be32 n = [n div 16777216 mod 256, n div 65536 mod 256, n div 256 mod 256, n mod 256]"

definition word_be32 :: "byte list \<Rightarrow> word32" where
  "word_be32 bs = foldl (\<lambda>v b. 256 * v + b) 0 bs"

text \<open>
  Both functions pad with a byte 128, zeros, and the length in bits as a 64-bit number
  (little-endian for MD5, big-endian for SHA-1).
\<close>

definition pad_zeros :: "nat \<Rightarrow> byte list" where
  "pad_zeros n = replicate ((119 - n mod 64) mod 64) 0"

definition length_be64 :: "nat \<Rightarrow> byte list" where
  "length_be64 n = (let b = 8 * int n in bytes_be32 (b div 4294967296) @ bytes_be32 b)"

section \<open>MD5\<close>

type_synonym md5_state = "word32 \<times> word32 \<times> word32 \<times> word32"

definition md5_shifts :: "nat list list" where
  "md5_shifts = [[7, 12, 17, 22], [5, 9, 14, 20], [4, 11, 16, 23], [6, 10, 15, 21]]"

definition md5_consts :: "word32 list list" where
  "md5_consts =
    [[0xd76aa478, 0xe8c7b756, 0x242070db, 0xc1bdceee, 0xf57c0faf, 0x4787c62a, 0xa8304613, 0xfd469501,
      0x698098d8, 0x8b44f7af, 0xffff5bb1, 0x895cd7be, 0x6b901122, 0xfd987193, 0xa679438e, 0x49b40821],
     [0xf61e2562, 0xc040b340, 0x265e5a51, 0xe9b6c7aa, 0xd62f105d, 0x02441453, 0xd8a1e681, 0xe7d3fbc8,
      0x21e1cde6, 0xc33707d6, 0xf4d50d87, 0x455a14ed, 0xa9e3e905, 0xfcefa3f8, 0x676f02d9, 0x8d2a4c8a],
     [0xfffa3942, 0x8771f681, 0x6d9d6122, 0xfde5380c, 0xa4beea44, 0x4bdecfa9, 0xf6bb4b60, 0xbebfbc70,
      0x289b7ec6, 0xeaa127fa, 0xd4ef3085, 0x04881d05, 0xd9d4d039, 0xe6db99e5, 0x1fa27cf8, 0xc4ac5665],
     [0xf4292244, 0x432aff97, 0xab9423a7, 0xfc93a039, 0x655b59c3, 0x8f0ccc92, 0xffeff47d, 0x85845dd1,
      0x6fa87e4f, 0xfe2ce6e0, 0xa3014314, 0x4e0811a1, 0xf7537e82, 0xbd3af235, 0x2ad7d2bb, 0xeb86d391]]"

text \<open>The message word that step \<open>j\<close> of round \<open>r\<close> reads.\<close>

definition md5_order :: "nat list list" where
  "md5_order =
    [[0, 1, 2, 3, 4, 5, 6, 7, 8, 9, 10, 11, 12, 13, 14, 15],
     [1, 6, 11, 0, 5, 10, 15, 4, 9, 14, 3, 8, 13, 2, 7, 12],
     [5, 8, 11, 14, 1, 4, 7, 10, 13, 0, 3, 6, 9, 12, 15, 2],
     [0, 7, 14, 5, 12, 3, 10, 1, 8, 15, 6, 13, 4, 11, 2, 9]]"

fun md5_mix :: "nat \<Rightarrow> word32 \<Rightarrow> word32 \<Rightarrow> word32 \<Rightarrow> word32" where
  "md5_mix r b c d =
     (if r = 0 then (b AND c) OR (not32 b AND d)
      else if r = 1 then (d AND b) OR (not32 d AND c)
      else if r = 2 then b XOR c XOR d
      else c XOR (b OR not32 d))"

fun md5_step :: "nat \<Rightarrow> nat \<times> word32 \<times> word32 \<Rightarrow> md5_state \<Rightarrow> md5_state" where
  "md5_step r (s, k, m) (a, b, c, d) = (d, w32 (b + rotl32 s (w32 (a + md5_mix r b c d + k + m))), b, c)"

definition md5_round :: "word32 list \<Rightarrow> nat \<Rightarrow> md5_state \<Rightarrow> md5_state" where
  "md5_round ws r st =
     fold (md5_step r)
       (zip (concat (replicate 4 (md5_shifts ! r)))
         (zip (md5_consts ! r) (map (\<lambda>j. ws ! j) (md5_order ! r)))) st"

fun add4 :: "md5_state \<Rightarrow> md5_state \<Rightarrow> md5_state" where
  "add4 (a, b, c, d) (a', b', c', d') = (w32 (a + a'), w32 (b + b'), w32 (c + c'), w32 (d + d'))"

definition md5_block :: "byte list \<Rightarrow> md5_state \<Rightarrow> md5_state" where
  "md5_block bs st =
     (let ws = map (\<lambda>g. word_be32 (rev g)) (groups 4 bs)
      in add4 st (fold (md5_round ws) [0, 1, 2, 3] st))"

fun md5_output :: "md5_state \<Rightarrow> byte list" where
  "md5_output (a, b, c, d) =
     rev (bytes_be32 a) @ rev (bytes_be32 b) @ rev (bytes_be32 c) @ rev (bytes_be32 d)"

definition md5 :: "byte list \<Rightarrow> byte list" where
  "md5 bs = md5_output
     (fold md5_block (groups 64 (bs @ [128] @ pad_zeros (length bs) @ rev (length_be64 (length bs))))
       (0x67452301, 0xefcdab89, 0x98badcfe, 0x10325476))"

section \<open>SHA-1\<close>

type_synonym sha1_state = "word32 \<times> word32 \<times> word32 \<times> word32 \<times> word32"

text \<open>The message schedule, newest word first: 16 words of the block, then 64 derived ones.\<close>

fun sha1_extend :: "nat \<Rightarrow> word32 list \<Rightarrow> word32 list" where
  "sha1_extend 0 ws = ws"
| "sha1_extend (Suc n) ws =
     sha1_extend n (rotl32 1 (ws ! 2 XOR ws ! 7 XOR ws ! 13 XOR ws ! 15) # ws)"

fun sha1_mix :: "nat \<Rightarrow> word32 \<Rightarrow> word32 \<Rightarrow> word32 \<Rightarrow> word32" where
  "sha1_mix r b c d =
     (if r = 0 then ((b AND c) OR (not32 b AND d)) + 0x5a827999
      else if r = 1 then (b XOR c XOR d) + 0x6ed9eba1
      else if r = 2 then ((b AND c) OR (b AND d) OR (c AND d)) + 0x8f1bbcdc
      else (b XOR c XOR d) + 0xca62c1d6)"

fun sha1_step :: "nat \<Rightarrow> word32 \<Rightarrow> sha1_state \<Rightarrow> sha1_state" where
  "sha1_step r w (a, b, c, d, e) =
     (w32 (rotl32 5 a + sha1_mix r b c d + e + w), a, rotl32 30 b, c, d)"

fun add5 :: "sha1_state \<Rightarrow> sha1_state \<Rightarrow> sha1_state" where
  "add5 (a, b, c, d, e) (a', b', c', d', e') = (w32 (a + a'), w32 (b + b'), w32 (c + c'), w32 (d + d'), w32 (e + e'))"

definition sha1_block :: "byte list \<Rightarrow> sha1_state \<Rightarrow> sha1_state" where
  "sha1_block bs st =
     (let ws = rev (sha1_extend 64 (rev (map word_be32 (groups 4 bs))))
      in add5 st (fold (\<lambda>(r, qs) s. fold (sha1_step r) qs s) (zip [0, 1, 2, 3] (groups 20 ws)) st))"

fun sha1_output :: "sha1_state \<Rightarrow> byte list" where
  "sha1_output (a, b, c, d, e) =
     bytes_be32 a @ bytes_be32 b @ bytes_be32 c @ bytes_be32 d @ bytes_be32 e"

definition sha1 :: "byte list \<Rightarrow> byte list" where
  "sha1 bs = sha1_output
     (fold sha1_block (groups 64 (bs @ [128] @ pad_zeros (length bs) @ length_be64 (length bs)))
       (0x67452301, 0xefcdab89, 0x98badcfe, 0x10325476, 0xc3d2e1f0))"

section \<open>Hexadecimal digests\<close>

definition hex_chars :: string where
  "hex_chars = ''0123456789abcdef''"

definition hex_byte :: "byte \<Rightarrow> string" where
  "hex_byte b = [hex_chars ! nat (b div 16 mod 16), hex_chars ! nat (b mod 16)]"

definition hexdigest :: "byte list \<Rightarrow> string" where
  "hexdigest bs = concat (map hex_byte bs)"

text \<open>\<open>int(s, 16)\<close> of a string of lower-case hexadecimal digits.\<close>

definition hex_val :: "char \<Rightarrow> int" where
  "hex_val c = (let n = int (code c) in if n < 58 then n - 48 else n - 87)"

definition int_of_hex :: "string \<Rightarrow> int" where
  "int_of_hex s = foldl (\<lambda>v c. 16 * v + hex_val c) 0 s"

section \<open>The shape of digests\<close>

definition is_bytes :: "byte list \<Rightarrow> bool" where
  "is_bytes bs \<longleftrightarrow> (\<forall>b \<in> set bs. 0 \<le> b \<and> b < 256)"

lemma is_bytes_be32 [simp]: "is_bytes (bytes_be32 n)"
  by (simp add: is_bytes_def bytes_be32_def)

lemma length_bytes_be32 [simp]: "length (bytes_be32 n) = 4"
  by (simp add: bytes_be32_def)

lemma is_bytes_append [simp]: "is_bytes (xs @ ys) \<longleftrightarrow> is_bytes xs \<and> is_bytes ys"
  by (auto simp: is_bytes_def)

lemma is_bytes_rev [simp]: "is_bytes (rev xs) = is_bytes xs"
  by (simp add: is_bytes_def)

lemma md5_output_shape [simp]: "length (md5_output st) = 16 \<and> is_bytes (md5_output st)"
  by (cases st rule: md5_output.cases) simp

lemma sha1_output_shape [simp]: "length (sha1_output st) = 20 \<and> is_bytes (sha1_output st)"
  by (cases st rule: sha1_output.cases) simp

lemma length_md5 [simp]: "length (md5 bs) = 16"
  and is_bytes_md5 [simp]: "is_bytes (md5 bs)"
  by (simp_all add: md5_def)

lemma length_sha1 [simp]: "length (sha1 bs) = 20"
  and is_bytes_sha1 [simp]: "is_bytes (sha1 bs)"
  by (simp_all add: sha1_def)

lemma length_hexdigest [simp]: "length (hexdigest bs) = 2 * length bs"
  by (induction bs) (simp_all add: hexdigest_def hex_byte_def)

definition is_hex :: "string \<Rightarrow> bool" where
  "is_hex s \<longleftrightarrow> set s \<subseteq> set hex_chars"

lemma hex_chars_nth: "0 \<le> n \<Longrightarrow> n < 16 \<Longrightarrow> hex_chars ! nat n \<in> set hex_chars"
  by (rule nth_mem) (simp add: hex_chars_def)

lemma is_hex_hexdigest [simp]: "is_hex (hexdigest bs)"
  by (induction bs) (auto simp: is_hex_def hexdigest_def hex_byte_def hex_chars_nth)

lemma is_hex_take: "is_hex s \<Longrightarrow> is_hex (take n s)"
  using set_take_subset[of n s] by (auto simp: is_hex_def)

lemma hex_val_nth: "n < 16 \<Longrightarrow> hex_val (hex_chars ! n) = int n"
proof -
  assume "n < 16"
  then have "n \<in> set [0..<16]" by simp
  moreover have "\<forall>n \<in> set [0..<16]. hex_val (hex_chars ! n) = int n"
    by (simp add: upt_rec hex_val_def hex_chars_def code_def)
  ultimately show ?thesis by blast
qed

text \<open>\<open>int(hexdigest, 16)\<close> is the digest read as a big-endian number.\<close>

definition int_of_bytes :: "byte list \<Rightarrow> int" where
  "int_of_bytes bs = foldl (\<lambda>v b. 256 * v + b) 0 bs"

lemma int_of_hex_byte:
  assumes "0 \<le> b" "b < 256"
  shows "foldl (\<lambda>v c. 16 * v + hex_val c) v (hex_byte b) = 256 * v + b"
proof -
  have "hex_val (hex_chars ! nat (b div 16 mod 16)) = b div 16"
    and "hex_val (hex_chars ! nat (b mod 16)) = b mod 16"
    using assms by (simp_all add: hex_val_nth nat_less_iff)
  then show ?thesis by (simp add: hex_byte_def)
qed

lemma int_of_hex_hexdigest: "is_bytes bs \<Longrightarrow> int_of_hex (hexdigest bs) = int_of_bytes bs"
proof -
  have "is_bytes bs \<Longrightarrow>
      foldl (\<lambda>v c. 16 * v + hex_val c) v (hexdigest bs) = foldl (\<lambda>v b. 256 * v + b) v bs" for v
  proof (induction bs arbitrary: v)
    case Nil
    then show ?case by (simp add: hexdigest_def)
  next
    case (Cons b bs)
    then have "0 \<le> b" "b < 256" "is_bytes bs" by (auto simp: is_bytes_def)
    with Cons.IH show ?case by (simp add: hexdigest_def int_of_hex_byte)
  qed
  then show "is_bytes bs \<Longrightarrow> int_of_hex (hexdigest bs) = int_of_bytes bs"
    by (simp add: int_of_hex_def int_of_bytes_def)
qed

lemma int_of_bytes_bounds:
  "is_bytes bs \<Longrightarrow> 0 \<le> int_of_bytes bs \<and> int_of_bytes bs < 256 ^ length bs"
proof (induction bs rule: rev_induct)
  case Nil
  then show ?case by (simp add: int_of_bytes_def)
next
  case (snoc b bs)
  then show ?case by (auto simp: int_of_bytes_def is_bytes_def)
qed

section \<open>Test vectors\<close>

lemma md5_empty: "hexdigest (md5 (utf8 [])) = ''d41d8cd98f00b204e9800998ecf8427e''"
  by code_simp

lemma md5_abc: "hexdigest (md5 (utf8 ''abc'')) = ''900150983cd24fb0d6963f7d28e17f72''"
  by code_simp

lemma sha1_abc: "hexdigest (sha1 (utf8 ''abc'')) = ''a9993e364706816aba3e25717850c26c9cd0d89d''"
  by code_simp

lemma sha1_two_blocks:
  "hexdigest (sha1 (utf8 ''abcdbcdecdefdefgefghfghighijhijkijkljklmklmnlmnomnopnopq''))
     = ''84983e441c3bd26ebaae4aa1f95129e5e54670f1''"
  by code_simp

end
