(* ===== verification/Bisect.thy ===== *)
theory Bisect
  imports Py_Base
begin

text \<open>
  Python's \<open>bisect.bisect_right\<close>, as the library's own loop, and its specification on
  sorted lists: the index it returns splits the list into the elements not above \<open>x\<close> and
  the elements above \<open>x\<close>. \<open>successor\<close> is the abstract view of a ring position: the
  least member above \<open>x\<close>, wrapping around to the least member.
\<close>

function bisect_loop :: "'a::linorder list \<Rightarrow> 'a \<Rightarrow> nat \<Rightarrow> nat \<Rightarrow> nat" where
  "bisect_loop a x lo hi =
     (if lo < hi then
        let mid = (lo + hi) div 2 in
        if x < a ! mid then bisect_loop a x lo mid else bisect_loop a x (mid + 1) hi
      else lo)"
  by pat_completeness auto
termination
  by (relation "measure (\<lambda>(a, x, lo, hi). hi - lo)") auto

declare bisect_loop.simps [simp del]

definition bisect_right :: "'a::linorder list \<Rightarrow> 'a \<Rightarrow> nat" where
  "bisect_right a x = bisect_loop a x 0 (length a)"

lemma bisect_loop_splits:
  assumes "sorted a" "lo \<le> hi" "hi \<le> length a"
    and "\<forall>i < lo. a ! i \<le> x" and "\<forall>i. hi \<le> i \<and> i < length a \<longrightarrow> x < a ! i"
  shows "bisect_loop a x lo hi \<le> length a
    \<and> (\<forall>i < bisect_loop a x lo hi. a ! i \<le> x)
    \<and> (\<forall>i. bisect_loop a x lo hi \<le> i \<and> i < length a \<longrightarrow> x < a ! i)"
  using assms
proof (induction a x lo hi rule: bisect_loop.induct)
  case (1 a x lo hi)
  let ?mid = "(lo + hi) div 2"
  show ?case
  proof (cases "lo < hi")
    case False
    then have "bisect_loop a x lo hi = lo" by (simp add: bisect_loop.simps[of a x lo hi])
    moreover have "lo = hi" using False "1.prems"(2) by simp
    ultimately show ?thesis using "1.prems"(3-5) by simp
  next
    case True
    then have mid: "?mid < hi" "lo \<le> ?mid" "?mid < length a" using "1.prems" by auto
    show ?thesis
    proof (cases "x < a ! ?mid")
      case above: True
      have "x < a ! i" if "?mid \<le> i" "i < length a" for i
        using above that "1.prems"(1) by (meson less_le_trans sorted_nth_mono)
      with "1.IH"(1)[OF True refl above] "1.prems" mid above True show ?thesis
        by (simp add: bisect_loop.simps[of a x lo hi] Let_def)
    next
      case below: False
      have "a ! i \<le> x" if "i < ?mid + 1" for i
      proof -
        have "a ! i \<le> a ! ?mid" using that mid "1.prems"(1) by (simp add: sorted_nth_mono)
        with below show ?thesis by simp
      qed
      with "1.IH"(2)[OF True refl below] "1.prems" mid below True show ?thesis
        by (simp add: bisect_loop.simps[of a x lo hi] Let_def)
    qed
  qed
qed

lemma bisect_right_splits:
  assumes "sorted a"
  shows "bisect_right a x \<le> length a"
    and "i < bisect_right a x \<Longrightarrow> a ! i \<le> x"
    and "bisect_right a x \<le> i \<Longrightarrow> i < length a \<Longrightarrow> x < a ! i"
proof -
  have "bisect_right a x \<le> length a \<and> (\<forall>i < bisect_right a x. a ! i \<le> x)
      \<and> (\<forall>i. bisect_right a x \<le> i \<and> i < length a \<longrightarrow> x < a ! i)"
    unfolding bisect_right_def by (rule bisect_loop_splits[OF assms]) auto
  then show "bisect_right a x \<le> length a"
    and "i < bisect_right a x \<Longrightarrow> a ! i \<le> x"
    and "bisect_right a x \<le> i \<Longrightarrow> i < length a \<Longrightarrow> x < a ! i"
    by blast+
qed

lemma bisect_right_count:
  assumes "sorted a"
  shows "bisect_right a x = length (filter (\<lambda>y. y \<le> x) a)"
proof -
  let ?n = "bisect_right a x"
  have n: "?n \<le> length a" by (rule bisect_right_splits(1)[OF assms])
  have lo: "filter (\<lambda>y. y \<le> x) (take ?n a) = take ?n a"
    using bisect_right_splits(2)[OF assms] n by (auto simp: filter_id_conv in_set_conv_nth)
  have hi: "filter (\<lambda>y. y \<le> x) (drop ?n a) = []"
    using bisect_right_splits(3)[OF assms, of x] by (auto simp: filter_empty_conv in_set_conv_nth not_le)
  have "filter (\<lambda>y. y \<le> x) (take ?n a @ drop ?n a) = take ?n a"
    using lo hi by (simp only: filter_append append_Nil2)
  then show ?thesis using n by simp
qed

section \<open>The successor on a ring\<close>

definition successor :: "'a::linorder set \<Rightarrow> 'a \<Rightarrow> 'a option" where
  "successor K x =
     (if K = {} then None
      else if \<exists>k \<in> K. x < k then Some (Min {k \<in> K. x < k})
      else Some (Min K))"

lemma successor_mem: "finite K \<Longrightarrow> successor K x = Some k \<Longrightarrow> k \<in> K"
proof (cases "\<exists>k \<in> K. x < k")
  case True
  moreover assume "finite K" "successor K x = Some k"
  ultimately show ?thesis
    using Min_in[of "{k \<in> K. x < k}"] by (auto simp: successor_def split: if_splits)
next
  case False
  moreover assume "finite K" "successor K x = Some k"
  ultimately have "k = Min K" "K \<noteq> {}" by (auto simp: successor_def split: if_splits)
  with \<open>finite K\<close> show ?thesis by simp
qed

lemma successor_None_iff: "successor K x = None \<longleftrightarrow> K = {}"
  by (simp add: successor_def)

text \<open>
  The successor among a superset is either one of the new members or the old successor: the
  reason why a ring moves few keys.
\<close>

lemma successor_superset:
  assumes "finite K'" "K \<subseteq> K'" "successor K' x = Some k" "k \<in> K"
  shows "successor K x = Some k"
proof (cases "\<exists>j \<in> K'. x < j")
  case True
  then have k: "k = Min {j \<in> K'. x < j}" using assms(3) by (auto simp: successor_def split: if_splits)
  moreover have "finite {j \<in> K'. x < j}" "{j \<in> K'. x < j} \<noteq> {}" using True assms(1) by auto
  ultimately have "k \<in> {j \<in> K'. x < j}" using Min_in by metis
  moreover have "\<forall>j \<in> {j \<in> K. x < j}. k \<le> j" using k assms(1,2) by auto
  ultimately have "Min {j \<in> K. x < j} = k"
    using assms by (intro Min_eqI) (auto intro: finite_subset)
  with \<open>k \<in> {j \<in> K'. x < j}\<close> assms(4) show ?thesis by (auto simp: successor_def)
next
  case False
  then have "k = Min K'" using assms(3) by (auto simp: successor_def split: if_splits)
  then have "Min K = k" using assms by (intro Min_eqI) (auto intro: finite_subset)
  with False assms(2,4) show ?thesis by (auto simp: successor_def)
qed

lemma successor_sorted:
  assumes "sorted a" "a \<noteq> []"
  shows "successor (set a) x =
    Some (a ! (if bisect_right a x = length a then 0 else bisect_right a x))"
proof (cases "bisect_right a x = length a")
  case True
  then have "\<not> (\<exists>k \<in> set a. x < k)"
    using bisect_right_splits(2)[OF assms(1), of _ x] by (auto simp: in_set_conv_nth not_less)
  moreover have "Min (set a) = a ! 0"
    using assms sorted_nth_mono[OF assms(1)] by (intro Min_eqI) (auto simp: in_set_conv_nth)
  ultimately show ?thesis using True assms(2) by (simp add: successor_def)
next
  case False
  let ?n = "bisect_right a x"
  have n: "?n < length a" using False bisect_right_splits(1)[OF assms(1), of x] by simp
  have x: "x < a ! ?n" by (rule bisect_right_splits(3)[OF assms(1) le_refl n])
  have "a ! ?n \<le> k" if k: "k \<in> set a" "x < k" for k
  proof -
    obtain i where i: "i < length a" "a ! i = k" using k(1) by (auto simp: in_set_conv_nth)
    moreover have "\<not> i < ?n" using k(2) bisect_right_splits(2)[OF assms(1), of i x] i by auto
    ultimately show ?thesis using sorted_nth_mono[OF assms(1), of ?n i] by simp
  qed
  moreover have mem: "a ! ?n \<in> {k \<in> set a. x < k}" using n x by simp
  ultimately have "Min {k \<in> set a. x < k} = a ! ?n" by (intro Min_eqI) simp_all
  moreover have "\<exists>k \<in> set a. x < k" using mem by blast
  ultimately show ?thesis using False assms(2) by (simp add: successor_def)
qed

end
