(* ===== verification/Routing.thy ===== *)
theory Routing
  imports Py_Base
begin

text \<open>
  The interface between the hash ring and its clients (dispatcher, registry). A
  \<open>key_router\<close> answers which member owns a key: it never raises on a well-formed state,
  answers with a member, and answers \<open>None\<close> only when it has no member. An
  \<open>elastic_router\<close> also lets members join and leave, and a join moves keys to the joining
  member only. The lemmas about sequences of joins are proved here once.
\<close>

locale key_router =
  fixes route :: "'r \<Rightarrow> string \<Rightarrow> exc + string option"
    and members :: "'r \<Rightarrow> string set"
    and ok :: "'r \<Rightarrow> bool"
  assumes route_total: "ok r \<Longrightarrow> \<exists>ow. route r k = Inr ow"
    and route_member: "ok r \<Longrightarrow> route r k = Inr (Some w) \<Longrightarrow> w \<in> members r"
    and route_none: "ok r \<Longrightarrow> route r k = Inr None \<longleftrightarrow> members r = {}"
begin

lemma route_cases:
  assumes "ok r"
  obtains (empty) "members r = {}" "route r k = Inr None"
    | (owned) w where "w \<in> members r" "route r k = Inr (Some w)"
  using assms route_total[of r k] route_member[of r k] route_none[of r k]
  by (metis option.exhaust)

lemma route_some: "ok r \<Longrightarrow> members r \<noteq> {} \<Longrightarrow> \<exists>w \<in> members r. route r k = Inr (Some w)"
  by (metis route_cases)

end

locale elastic_router = key_router +
  fixes join :: "'r \<Rightarrow> string \<Rightarrow> 'r"
    and leave :: "'r \<Rightarrow> string \<Rightarrow> 'r"
  assumes ok_join: "ok r \<Longrightarrow> ok (join r w)"
    and ok_leave: "ok r \<Longrightarrow> ok (leave r w)"
    and join_members: "ok r \<Longrightarrow> members (join r w) \<subseteq> insert w (members r)"
    and leave_members: "ok r \<Longrightarrow> members (leave r w) \<subseteq> members r - {w}"
    and join_moves: "ok r \<Longrightarrow> route (join r w) k \<in> {route r k, Inr (Some w)}"
begin

lemma ok_joins: "ok r \<Longrightarrow> ok (fold (\<lambda>w r. join r w) ws r)"
  by (induction ws arbitrary: r) (auto intro: ok_join)

lemma joins_members:
  "ok r \<Longrightarrow> members (fold (\<lambda>w r. join r w) ws r) \<subseteq> set ws \<union> members r"
proof (induction ws arbitrary: r)
  case Nil
  then show ?case by simp
next
  case (Cons w ws)
  then show ?case using ok_join[of r w] join_members[of r w] by fastforce
qed

lemma joins_move:
  "ok r \<Longrightarrow> route (fold (\<lambda>w r. join r w) ws r) k = route r k
     \<or> (\<exists>w \<in> set ws. route (fold (\<lambda>w r. join r w) ws r) k = Inr (Some w))"
proof (induction ws arbitrary: r)
  case Nil
  then show ?case by simp
next
  case (Cons w ws)
  then show ?case using ok_join[of r w] join_moves[of r w k] by fastforce
qed

lemma leave_not_routed: "ok r \<Longrightarrow> route (leave r w) k \<noteq> Inr (Some w)"
  using ok_leave leave_members route_member by blast

end

end
