(* ===== verification/Hash_Ring.thy ===== *)
theory Hash_Ring
  imports Hashlib Bisect Routing
begin

text \<open>
  Model of \<open>workers/hash_ring.py\<close>: the class \<open>ConsistentHashRing\<close>. The record
  \<open>hash_ring\<close> has the three attributes of the class; every method is one definition.
  The abstract view of a ring is the map from positions to workers, and
  \<open>ring_owner\<close> says which worker owns a position: the one at the next position
  clockwise. The lemmas show that \<open>get_worker\<close> computes it, and how membership changes
  move keys.
\<close>

record hash_ring =
  virtual_nodes :: int
  ring_map :: "(int, string) pydict"
  sorted_hashes :: "int list"

definition ring_init :: "int \<Rightarrow> hash_ring" where
  "ring_init vn = \<lparr>virtual_nodes = vn, ring_map = [], sorted_hashes = []\<rparr>"

definition default_virtual_nodes :: int where
  "default_virtual_nodes = 150"

definition ring_hash :: "string \<Rightarrow> int" where
  "ring_hash key = int_of_hex (hexdigest (md5 (utf8 key)))"

text \<open>The label \<open>f"{worker_id}#{i}"\<close> of the \<open>i\<close>-th virtual node.\<close>

definition vnode_label :: "string \<Rightarrow> nat \<Rightarrow> string" where
  "vnode_label w i = w @ ''#'' @ str_nat i"

definition ring_add :: "int \<Rightarrow> string \<Rightarrow> (int, string) pydict \<Rightarrow> (int, string) pydict" where
  "ring_add vn w d = fold (\<lambda>i d. dict_set d (ring_hash (vnode_label w i)) w) [0..<nat vn] d"

definition add_worker :: "hash_ring \<Rightarrow> string \<Rightarrow> hash_ring" where
  "add_worker r w =
     (let d = ring_add (virtual_nodes r) w (ring_map r)
      in r\<lparr>ring_map := d, sorted_hashes := sort (dict_keys d)\<rparr>)"

definition remove_worker :: "hash_ring \<Rightarrow> string \<Rightarrow> hash_ring" where
  "remove_worker r w =
     (let d = fold (\<lambda>i d. dict_pop d (ring_hash (vnode_label w i)))
                [0..<nat (virtual_nodes r)] (ring_map r)
      in r\<lparr>ring_map := d, sorted_hashes := sort (dict_keys d)\<rparr>)"

definition replace_workers :: "hash_ring \<Rightarrow> string list \<Rightarrow> hash_ring" where
  "replace_workers r ws =
     (let d = fold (ring_add (virtual_nodes r)) ws []
      in r\<lparr>ring_map := d, sorted_hashes := sort (dict_keys d)\<rparr>)"

text \<open>
  The lookup \<open>self._ring[...]\<close> raises \<open>KeyError\<close> on a hash that is not in the dictionary.
  The index is in range, because \<open>bisect_right\<close> returns at most the length.
\<close>

definition get_worker :: "hash_ring \<Rightarrow> string \<Rightarrow> exc + string option" where
  "get_worker r key =
     (if sorted_hashes r = [] then Inr None
      else
        let h = ring_hash key;
            i = bisect_right (sorted_hashes r) h;
            idx = (if i = length (sorted_hashes r) then 0 else i)
        in case dict_get (ring_map r) (sorted_hashes r ! idx) of
             None \<Rightarrow> Inl KeyError
           | Some w \<Rightarrow> Inr (Some w))"

definition workers :: "hash_ring \<Rightarrow> string list" where
  "workers r = sort (remdups (dict_values (ring_map r)))"

definition ring_len :: "hash_ring \<Rightarrow> nat" where
  "ring_len r = length (remdups (dict_values (ring_map r)))"

section \<open>Labels and hashes\<close>

lemma vnode_label_inj: "vnode_label w i = vnode_label v j \<longleftrightarrow> w = v \<and> i = j"
proof
  assume eq: "vnode_label w i = vnode_label v j"
  have split: "takeWhile (\<lambda>c. c \<noteq> CHR ''#'') (rev (vnode_label u k)) = rev (str_nat k)" for u k
  proof -
    have "\<forall>c \<in> set (rev (str_nat k)). c \<noteq> CHR ''#''"
      using str_nat_digits[of k] by (auto simp: is_digit_def code_def)
    then show ?thesis by (simp add: vnode_label_def takeWhile_append)
  qed
  from eq split[of w i] split[of v j] have "str_nat i = str_nat j" by (metis rev_is_rev_conv)
  with eq show "w = v \<and> i = j" by (simp add: vnode_label_def str_nat_inj)
qed simp

lemma ring_hash_bounds: "0 \<le> ring_hash key \<and> ring_hash key < 2 ^ 128"
  using int_of_bytes_bounds[of "md5 (utf8 key)"]
  by (simp add: ring_hash_def int_of_hex_hexdigest)

text \<open>The positions of a worker, and the absence of collisions between two workers.\<close>

definition vnode_hashes :: "int \<Rightarrow> string \<Rightarrow> int set" where
  "vnode_hashes vn w = (\<lambda>i. ring_hash (vnode_label w i)) ` set [0..<nat vn]"

definition collision_free :: "int \<Rightarrow> string set \<Rightarrow> bool" where
  "collision_free vn W \<longleftrightarrow>
     (\<forall>w \<in> W. \<forall>v \<in> W. w \<noteq> v \<longrightarrow> vnode_hashes vn w \<inter> vnode_hashes vn v = {})"

lemma finite_vnode_hashes [simp]: "finite (vnode_hashes vn w)"
  by (simp add: vnode_hashes_def)

lemma vnode_hashes_nonempty: "0 < vn \<Longrightarrow> vnode_hashes vn w \<noteq> {}"
  by (simp add: vnode_hashes_def)

section \<open>The abstract ring\<close>

definition ring_view :: "hash_ring \<Rightarrow> (int \<rightharpoonup> string)" where
  "ring_view r = dict_get (ring_map r)"

definition ring_owner :: "(int \<rightharpoonup> string) \<Rightarrow> int \<Rightarrow> string option" where
  "ring_owner m h = Option.bind (successor (dom m) h) m"

definition ring_members :: "hash_ring \<Rightarrow> string set" where
  "ring_members r = ran (ring_view r)"

definition ring_ok :: "hash_ring \<Rightarrow> bool" where
  "ring_ok r \<longleftrightarrow> dict_ok (ring_map r) \<and> sorted_hashes r = sort (dict_keys (ring_map r))
     \<and> (\<forall>h w. ring_view r h = Some w \<longrightarrow> h \<in> vnode_hashes (virtual_nodes r) w)"

lemma ring_add_get:
  "dict_get (ring_add vn w d) h = (if h \<in> vnode_hashes vn w then Some w else dict_get d h)"
  by (simp add: ring_add_def vnode_hashes_def
      pd.get_put_fold_same[where f = "\<lambda>i. ring_hash (vnode_label w i)"])

lemma dict_ok_ring_add: "dict_ok d \<Longrightarrow> dict_ok (ring_add vn w d)"
  by (simp add: ring_add_def pd.ok_put_fold)

lemma view_init: "ring_view (ring_init vn) = Map.empty"
  by (simp add: ring_view_def ring_init_def dict_simps fun_eq_iff)

lemma view_add:
  "ring_view (add_worker r w) h =
     (if h \<in> vnode_hashes (virtual_nodes r) w then Some w else ring_view r h)"
  by (simp add: ring_view_def add_worker_def Let_def ring_add_get)

lemma view_remove:
  "ring_view (remove_worker r w) h =
     (if h \<in> vnode_hashes (virtual_nodes r) w then None else ring_view r h)"
  by (simp add: ring_view_def remove_worker_def Let_def vnode_hashes_def
      pd.get_pop_fold[where f = "\<lambda>i. ring_hash (vnode_label w i)"])

lemma vnodes_unchanged [simp]:
  "virtual_nodes (add_worker r w) = virtual_nodes r"
  "virtual_nodes (remove_worker r w) = virtual_nodes r"
  "virtual_nodes (replace_workers r ws) = virtual_nodes r"
  "virtual_nodes (ring_init vn) = vn"
  by (simp_all add: add_worker_def remove_worker_def replace_workers_def ring_init_def Let_def)

lemma ring_ok_init [simp]: "ring_ok (ring_init vn)"
  by (simp add: ring_ok_def view_init) (simp add: ring_init_def dict_keys_def)

lemma ring_ok_add [simp]: "ring_ok r \<Longrightarrow> ring_ok (add_worker r w)"
  unfolding ring_ok_def
  by (auto simp: view_add split: if_splits) (simp_all add: add_worker_def Let_def dict_ok_ring_add)

lemma ring_ok_remove [simp]: "ring_ok r \<Longrightarrow> ring_ok (remove_worker r w)"
  unfolding ring_ok_def
  by (auto simp: view_remove split: if_splits)
    (simp_all add: remove_worker_def Let_def pd.ok_pop_fold)

text \<open>Rebuilding the ring is the same as adding the workers one by one to an empty ring.\<close>

lemma replace_workers_eq_adds:
  "replace_workers r ws = fold (\<lambda>w r. add_worker r w) ws (ring_init (virtual_nodes r))"
proof -
  have "fold (\<lambda>w r. add_worker r w) ws r' =
      (let d = fold (ring_add (virtual_nodes r')) ws (ring_map r')
       in r'\<lparr>ring_map := d, sorted_hashes := (if ws = [] then sorted_hashes r' else sort (dict_keys d))\<rparr>)"
    for r' :: hash_ring
    by (induction ws arbitrary: r') (auto simp: Let_def add_worker_def)
  then show ?thesis
    by (cases ws) (simp_all add: replace_workers_def ring_init_def Let_def dict_keys_def)
qed

lemma ring_ok_replace [simp]: "ring_ok (replace_workers r ws)"
proof -
  have "ring_ok r' \<Longrightarrow> ring_ok (fold (\<lambda>w r. add_worker r w) ws r')" for r'
    by (induction ws arbitrary: r') simp_all
  then show ?thesis by (simp add: replace_workers_eq_adds)
qed

section \<open>Lookup computes the clockwise owner\<close>

lemma get_worker_refines:
  assumes "ring_ok r"
  shows "get_worker r key = Inr (ring_owner (ring_view r) (ring_hash key))"
proof (cases "sorted_hashes r = []")
  case True
  with assms have "dom (ring_view r) = {}"
    by (metis ring_ok_def ring_view_def set_dict_keys set_empty set_sort)
  with True show ?thesis by (simp add: get_worker_def ring_owner_def successor_def)
next
  case False
  let ?a = "sorted_hashes r" and ?h = "ring_hash key"
  let ?i = "if bisect_right ?a ?h = length ?a then 0 else bisect_right ?a ?h"
  have set_a: "set ?a = dom (ring_view r)" and "sorted ?a"
    using assms by (simp_all add: ring_ok_def ring_view_def set_dict_keys)
  then have succ: "successor (dom (ring_view r)) ?h = Some (?a ! ?i)"
    using successor_sorted[of ?a ?h] False by simp
  then have "?a ! ?i \<in> dom (ring_view r)"
    using successor_mem set_a by (metis List.finite_set)
  then obtain w where "ring_view r (?a ! ?i) = Some w" by blast
  with succ False show ?thesis
    unfolding get_worker_def Let_def ring_owner_def by (simp add: ring_view_def)
qed

lemma ring_owner_empty [simp]: "ring_owner (\<lambda>_. None) h = None"
  by (simp add: ring_owner_def successor_def)

lemma finite_ring_view: "finite (dom (ring_view r))"
  by (simp add: ring_view_def pd.finite_dom_get)

lemma ring_owner_cases:
  assumes "finite (dom m)"
  obtains (empty) "dom m = {}" "ring_owner m h = None"
    | (owned) k w where "successor (dom m) h = Some k" "m k = Some w" "ring_owner m h = Some w"
proof (cases "successor (dom m) h")
  case None
  then show ?thesis using empty by (simp add: ring_owner_def successor_None_iff)
next
  case (Some k)
  then have "k \<in> dom m" using successor_mem assms by blast
  then obtain w where "m k = Some w" by blast
  with Some owned show ?thesis by (simp add: ring_owner_def)
qed

lemma ring_owner_ran: "finite (dom m) \<Longrightarrow> ring_owner m h = Some w \<Longrightarrow> w \<in> ran m"
  by (rule ring_owner_cases[of m h]) (auto intro: ranI)

lemma ring_owner_None: "finite (dom m) \<Longrightarrow> ring_owner m h = None \<longleftrightarrow> ran m = {}"
  by (rule ring_owner_cases[of m h]) (auto simp: ran_def)

lemma ring_owner_superset:
  assumes "finite (dom m')" "dom m \<subseteq> dom m'" "\<And>k. k \<in> dom m' - V \<Longrightarrow> m' k = m k"
    and "successor (dom m') h = Some k" "k \<notin> V"
  shows "ring_owner m h = ring_owner m' h"
proof -
  have "k \<in> dom m'" using successor_mem assms(1,4) by blast
  then have eq: "m' k = m k" using assms(3,5) by blast
  with \<open>k \<in> dom m'\<close> have "k \<in> dom m" by (simp add: dom_def)
  then have "successor (dom m) h = Some k" by (rule successor_superset[OF assms(1,2,4)])
  with assms(4) eq show ?thesis by (simp add: ring_owner_def)
qed

text \<open>
  A join moves a key exactly when the next position clockwise is one of the new worker's.
\<close>

lemma owner_after_add:
  "ring_owner (ring_view (add_worker r w)) h =
     (case successor (dom (ring_view r) \<union> vnode_hashes (virtual_nodes r) w) h of
        None \<Rightarrow> None
      | Some k \<Rightarrow> if k \<in> vnode_hashes (virtual_nodes r) w then Some w
                  else ring_owner (ring_view r) h)"
proof -
  let ?V = "vnode_hashes (virtual_nodes r) w" and ?m' = "ring_view (add_worker r w)"
  have dom: "dom ?m' = dom (ring_view r) \<union> ?V" by (auto simp: view_add split: if_splits)
  show ?thesis
  proof (cases "successor (dom ?m') h")
    case None
    then show ?thesis by (simp add: ring_owner_def dom)
  next
    case (Some k)
    show ?thesis
    proof (cases "k \<in> ?V")
      case True
      with Some show ?thesis by (simp add: ring_owner_def dom view_add)
    next
      case False
      have "ring_owner (ring_view r) h = ring_owner ?m' h"
        using Some False dom
        by (intro ring_owner_superset[where V = ?V and k = k]) (simp_all add: finite_ring_view view_add)
      with Some False show ?thesis by (simp add: dom)
    qed
  qed
qed

interpretation ring: elastic_router get_worker ring_members ring_ok add_worker remove_worker
proof
  fix r k w
  assume ok: "ring_ok r"
  note look = get_worker_refines[OF ok] and fin = finite_ring_view[of r]
  show "\<exists>ow. get_worker r k = Inr ow" by (simp add: look)
  show "get_worker r k = Inr (Some w) \<Longrightarrow> w \<in> ring_members r"
    using ring_owner_ran[OF fin] by (simp add: look ring_members_def)
  show "get_worker r k = Inr None \<longleftrightarrow> ring_members r = {}"
    using ring_owner_None[OF fin] by (simp add: look ring_members_def)
  show "ring_ok (add_worker r w)" "ring_ok (remove_worker r w)" using ok by simp_all
  show "ring_members (add_worker r w) \<subseteq> insert w (ring_members r)"
    by (auto simp: ring_members_def ran_def view_add split: if_splits)
  show "ring_members (remove_worker r w) \<subseteq> ring_members r - {w}"
    using ok by (auto simp: ring_members_def ran_def view_remove ring_ok_def split: if_splits)
  show "get_worker (add_worker r w) k \<in> {get_worker r k, Inr (Some w)}"
    using ok by (auto simp: get_worker_refines owner_after_add successor_None_iff
        ring_owner_def[of "ring_view r"] split: option.splits)
qed

text \<open>Two well-formed rings with the same view route alike.\<close>

lemma get_worker_cong:
  "ring_ok r \<Longrightarrow> ring_ok r' \<Longrightarrow> ring_view r = ring_view r' \<Longrightarrow> get_worker r k = get_worker r' k"
  by (simp add: get_worker_refines)

lemma workers_cong:
  "ring_ok r \<Longrightarrow> ring_ok r' \<Longrightarrow> ring_members r = ring_members r' \<Longrightarrow> workers r = workers r'"
  unfolding workers_def ring_ok_def ring_members_def ring_view_def
  by (intro sorted_distinct_set_unique) (simp_all add: set_dict_values)

lemma set_workers: "ring_ok r \<Longrightarrow> set (workers r) = ring_members r"
  by (simp add: workers_def ring_ok_def ring_members_def ring_view_def set_dict_values)

text \<open>The view of a rebuilt ring, when no two listed workers collide.\<close>

lemma view_replace:
  assumes "collision_free (virtual_nodes r) (set ws)"
  shows "ring_view (replace_workers r ws) h = Some w \<longleftrightarrow>
    w \<in> set ws \<and> h \<in> vnode_hashes (virtual_nodes r) w"
  using assms
proof (induction ws arbitrary: w rule: rev_induct)
  case Nil
  then show ?case by (simp add: replace_workers_eq_adds view_init)
next
  case (snoc v ws)
  have cf: "collision_free (virtual_nodes r) (set ws)"
    using snoc.prems by (auto simp: collision_free_def)
  have uniq: "h \<in> vnode_hashes (virtual_nodes r) v \<Longrightarrow> h \<in> vnode_hashes (virtual_nodes r) u \<Longrightarrow>
      u \<in> set ws \<Longrightarrow> u = v" for u
    using snoc.prems unfolding collision_free_def by auto
  have "ring_view (replace_workers r (ws @ [v])) h =
      (if h \<in> vnode_hashes (virtual_nodes r) v then Some v else ring_view (replace_workers r ws) h)"
  proof -
    have "replace_workers r (ws @ [v]) = add_worker (replace_workers r ws) v"
      by (simp add: replace_workers_eq_adds)
    then show ?thesis by (simp add: view_add)
  qed
  then show ?case using snoc.IH[OF cf, of w] uniq[of w] by auto
qed

lemma members_replace:
  assumes "collision_free (virtual_nodes r) (set ws)" "0 < virtual_nodes r"
  shows "ring_members (replace_workers r ws) = set ws"
  using assms(2) vnode_hashes_nonempty[of "virtual_nodes r"]
  by (fastforce simp: ring_members_def ran_def view_replace[OF assms(1)])

lemma workers_replace:
  assumes "collision_free (virtual_nodes r) (set ws)" "0 < virtual_nodes r"
  shows "workers (replace_workers r ws) = sort (remdups ws)"
  using members_replace[OF assms] set_workers[of "replace_workers r ws"]
  by (intro sorted_distinct_set_unique) (simp_all add: workers_def)

text \<open>Two rings rebuilt from the same worker set route alike.\<close>

lemma same_routing:
  assumes "collision_free (virtual_nodes r) (set ws)"
    and "virtual_nodes r' = virtual_nodes r" "set ws' = set ws"
  shows "get_worker (replace_workers r ws) key = get_worker (replace_workers r' ws') key"
proof -
  have "ring_view (replace_workers r ws) h = Some w \<longleftrightarrow> ring_view (replace_workers r' ws') h = Some w"
    for h w using assms view_replace[of r ws h w] view_replace[of r' ws' h w] by simp
  then have "ring_view (replace_workers r ws) = ring_view (replace_workers r' ws')"
    by (metis ext not_None_eq)
  then show ?thesis by (intro get_worker_cong) simp_all
qed

text \<open>A removal moves no key of another worker, unless a collision gave it a removed position.\<close>

definition owns_positions :: "hash_ring \<Rightarrow> string \<Rightarrow> bool" where
  "owns_positions r w \<longleftrightarrow>
     (\<forall>h \<in> vnode_hashes (virtual_nodes r) w. ring_view r h = None \<or> ring_view r h = Some w)"

lemma owner_after_remove:
  assumes "owns_positions r w" "ring_owner (ring_view r) h \<noteq> Some w"
  shows "ring_owner (ring_view (remove_worker r w)) h = ring_owner (ring_view r) h"
proof -
  let ?m = "ring_view r" and ?m' = "ring_view (remove_worker r w)"
  let ?V = "vnode_hashes (virtual_nodes r) w"
  have dom: "dom ?m' = dom ?m - ?V" by (auto simp: view_remove split: if_splits)
  show ?thesis
  proof (rule ring_owner_cases[OF finite_ring_view[of r], of h])
    assume "dom ?m = {}" "ring_owner ?m h = None"
    with dom show ?thesis by (simp add: ring_owner_def successor_def)
  next
    fix k v
    assume k: "successor (dom ?m) h = Some k" "?m k = Some v" "ring_owner ?m h = Some v"
    then have "k \<notin> ?V" using assms by (auto simp: owns_positions_def)
    with k show ?thesis
      using dom by (intro ring_owner_superset[where V = ?V]) (auto simp: view_remove finite_ring_view)
  qed
qed

lemma owns_positions_replace:
  assumes "collision_free (virtual_nodes r) (insert w (set ws))"
  shows "owns_positions (replace_workers r ws) w"
proof -
  have cf: "collision_free (virtual_nodes r) (set ws)"
    using assms by (auto simp: collision_free_def)
  have "v = w" if "ring_view (replace_workers r ws) h = Some v"
    "h \<in> vnode_hashes (virtual_nodes r) w" for v h
    using assms that unfolding view_replace[OF cf] collision_free_def by blast
  then show ?thesis unfolding owns_positions_def vnodes_unchanged by (metis option.exhaust)
qed

text \<open>A ring rebuilt without one of its workers routes as after \<open>remove_worker\<close>.\<close>

lemma replace_without:
  assumes "collision_free (virtual_nodes r) (set ws)"
    and "virtual_nodes r' = virtual_nodes r" "set ws' = set ws - {w}" "w \<in> set ws"
  shows "get_worker (replace_workers r' ws') key = get_worker (remove_worker (replace_workers r ws) w) key"
proof -
  have cf: "collision_free (virtual_nodes r') (set ws')"
    using assms by (auto simp: collision_free_def)
  have "h \<notin> vnode_hashes (virtual_nodes r) w"
    if "h \<in> vnode_hashes (virtual_nodes r) v" "v \<in> set ws" "v \<noteq> w" for h v
    using assms(1,4) that unfolding collision_free_def by blast
  then have "ring_view (replace_workers r' ws') h = Some v
      \<longleftrightarrow> ring_view (remove_worker (replace_workers r ws) w) h = Some v" for h v
    using view_replace[OF cf, of h v] view_replace[OF assms(1), of h v] assms(2,3)
    by (auto simp: view_remove)
  then have "ring_view (replace_workers r' ws') = ring_view (remove_worker (replace_workers r ws) w)"
    by (metis ext not_None_eq)
  then show ?thesis by (intro get_worker_cong) simp_all
qed

section \<open>Reachable rings\<close>

text \<open>The rings a program can build with the methods of the class.\<close>

inductive ring_reach :: "hash_ring \<Rightarrow> bool" where
  reach_init: "ring_reach (ring_init vn)"
| reach_add: "ring_reach r \<Longrightarrow> ring_reach (add_worker r w)"
| reach_remove: "ring_reach r \<Longrightarrow> ring_reach (remove_worker r w)"
| reach_replace: "ring_reach r \<Longrightarrow> ring_reach (replace_workers r ws)"

lemma ring_reach_ok: "ring_reach r \<Longrightarrow> ring_ok r"
  by (induction rule: ring_reach.induct) simp_all

lemmas ring_lookup = get_worker_refines set_workers ring.route_member ring.route_none

section \<open>A concrete ring\<close>

text \<open>Two workers with one virtual node each; the kernel evaluates the MD5 positions.\<close>

definition ring_ab :: hash_ring where
  "ring_ab = add_worker (add_worker (ring_init 1) ''a'') ''b''"

lemma ring_reach_ab: "ring_reach ring_ab"
  unfolding ring_ab_def by (intro ring_reach.intros)

lemmas ring_ok_ab = ring_reach_ok[OF ring_reach_ab]

lemma vnode_hashes_1: "vnode_hashes 1 w = {ring_hash (vnode_label w 0)}"
  by (simp add: vnode_hashes_def)

lemma position_a: "ring_hash (vnode_label ''a'' 0) = 287417676344570401489397452454265867888"
  by code_simp

lemma position_b: "ring_hash (vnode_label ''b'' 0) = 40339664643828780129851524715318385961"
  by code_simp

lemma position_c: "ring_hash (vnode_label ''c'' 0) = 18507822037189226495188183892594181009"
  by code_simp

lemma position_k: "ring_hash ''k'' = 187279361568289349169310600456257773043"
  by code_simp

lemmas positions = position_a position_b position_c position_k

lemma virtual_nodes_ab [simp]: "virtual_nodes ring_ab = 1"
  by (simp add: ring_ab_def)

lemma view_ab: "ring_view ring_ab =
    [ring_hash (vnode_label ''a'' 0) \<mapsto> ''a'', ring_hash (vnode_label ''b'' 0) \<mapsto> ''b'']"
  by (auto simp: ring_ab_def view_add view_init vnode_hashes_1 fun_eq_iff)

lemma workers_ab: "set (workers ring_ab) = {''a'', ''b''}"
proof -
  have "ring_view ring_ab (ring_hash (vnode_label ''a'' 0)) = Some ''a''"
    "ring_view ring_ab (ring_hash (vnode_label ''b'' 0)) = Some ''b''"
    by (simp_all add: view_ab positions)
  then have "{''a'', ''b''} \<subseteq> ran (ring_view ring_ab)" by (auto intro: ranI)
  moreover have "ran (ring_view ring_ab) \<subseteq> {''a'', ''b''}"
    by (auto simp: view_ab ran_def split: if_splits)
  ultimately show ?thesis by (auto simp: set_workers[OF ring_ok_ab] ring_members_def)
qed

lemma collision_free_abc: "collision_free 1 {''a'', ''b'', ''c''}"
  by (simp add: collision_free_def vnode_hashes_1 positions)

lemma get_worker_ab: "get_worker ring_ab ''k'' = Inr (Some ''a'')"
proof -
  have "{k. (k = position) \<and> P k} = (if P position then {position} else {})" for position and P :: "int \<Rightarrow> bool"
    by auto
  then have "successor (dom (ring_view ring_ab)) (ring_hash ''k'') =
      Some (ring_hash (vnode_label ''a'' 0))"
    by (simp add: successor_def view_ab positions conj_disj_distribR Collect_disj_eq)
  then show ?thesis
    by (simp add: get_worker_refines[OF ring_ok_ab] ring_owner_def view_ab positions)
qed

section \<open>Properties\<close>

text \<open>
  C14: On every ring built with the methods of \<open>ConsistentHashRing\<close>, \<open>get_worker\<close> never
  raises: it returns the worker whose virtual node is the next one clockwise from the key's
  MD5 position (wrapping around), it returns \<open>None\<close> exactly when \<open>workers()\<close> is empty, and
  what it returns is one of \<open>workers()\<close>.
\<close>

theorem get_worker_correct:
  assumes "ring_reach r"
  shows "get_worker r key = Inr (ring_owner (ring_view r) (ring_hash key))
    \<and> (get_worker r key = Inr None \<longleftrightarrow> workers r = [])
    \<and> (\<forall>w. get_worker r key = Inr (Some w) \<longrightarrow> w \<in> set (workers r))"
  using ring_reach_ok[OF assms] ring_lookup[of r]
  by (metis set_empty)

theorem get_worker_correct_witness:
  "get_worker ring_ab ''k'' = Inr (Some ''a'')
    \<and> ring_owner (ring_view ring_ab) (ring_hash ''k'') = Some ''a'' \<and> ''a'' \<in> set (workers ring_ab)"
  using get_worker_correct[OF ring_reach_ab, of "''k''"] get_worker_ab by simp

text \<open>
  C15: Adding a worker moves a key if and only if the next position clockwise belongs to the
  new worker, and then moves it to that worker; every other key keeps its worker. No
  assumption on hash collisions is needed.
\<close>

theorem add_worker_moves:
  assumes "ring_reach r"
  shows "get_worker (add_worker r w) key =
    (case successor (dom (ring_view r) \<union> vnode_hashes (virtual_nodes r) w) (ring_hash key) of
       Some h \<Rightarrow> if h \<in> vnode_hashes (virtual_nodes r) w then Inr (Some w) else get_worker r key
     | None \<Rightarrow> get_worker r key)"
  using ring_reach_ok[OF assms] owner_after_add[of r w "ring_hash key"]
  by (auto simp: get_worker_refines successor_None_iff ring_owner_def[of "ring_view r"]
      split: option.splits)

theorem add_worker_moves_witness:
  "get_worker (add_worker ring_ab ''c'') ''k'' = Inr (Some ''a'')"
proof -
  let ?K = "dom (ring_view ring_ab) \<union> vnode_hashes (virtual_nodes ring_ab) ''c''"
  have "successor ?K (ring_hash ''k'') = Some (ring_hash (vnode_label ''a'' 0))"
  proof -
    have "{h \<in> ?K. ring_hash ''k'' < h} = {ring_hash (vnode_label ''a'' 0)}"
      by (auto simp: view_ab vnode_hashes_1 positions)
    moreover have "\<exists>h \<in> ?K. ring_hash ''k'' < h"
      by (simp add: view_ab vnode_hashes_1 positions)
    ultimately show ?thesis by (auto simp: successor_def)
  qed
  then show ?thesis
    using add_worker_moves[OF ring_reach_ab, of "''c''" "''k''"] get_worker_ab
    by (simp add: vnode_hashes_1 positions)
qed

text \<open>
  Scaling out by any number of workers, in any order, moves a key only to one of the
  workers that joined: no key is moved between two workers that were there before.
\<close>

lemma add_workers_move_only_to_new:
  assumes "ring_reach r" and "get_worker (fold (\<lambda>w r. add_worker r w) ws r) key \<noteq> get_worker r key"
  shows "\<exists>w \<in> set ws. get_worker (fold (\<lambda>w r. add_worker r w) ws r) key = Inr (Some w)"
  using ring.joins_move[OF ring_reach_ok[OF assms(1)], of ws key] assms(2) by blast

lemma add_workers_move_only_to_new_example:
  "get_worker (fold (\<lambda>w r. add_worker r w) [''a'', ''b''] (ring_init 1)) ''k'' = Inr (Some ''a'')"
proof -
  have r: "fold (\<lambda>w r. add_worker r w) [''a'', ''b''] (ring_init 1) = ring_ab"
    by (simp add: ring_ab_def)
  have "get_worker (ring_init 1) ''k'' = Inr None"
    by (simp add: get_worker_def ring_init_def)
  with add_workers_move_only_to_new[OF reach_init[of 1], of "[''a'', ''b'']" "''k''"]
  show ?thesis unfolding r by (simp add: get_worker_ab)
qed

text \<open>
  C16: Removing a worker leaves every key of the other workers where it was (the property of
  \<open>test_remove_worker_minimally_reshuffles\<close>), provided no other worker holds a position
  that collides with one of the removed worker's labels.
\<close>

theorem remove_worker_keeps_others:
  assumes "ring_reach r" and "owns_positions r w" and "get_worker r key \<noteq> Inr (Some w)"
  shows "get_worker (remove_worker r w) key = get_worker r key"
  using ring_reach_ok[OF assms(1)] owner_after_remove[OF assms(2)] assms(3)
  by (simp add: get_worker_refines)

theorem remove_worker_keeps_others_witness:
  "get_worker (remove_worker ring_ab ''b'') ''k'' = Inr (Some ''a'')"
proof -
  have "owns_positions ring_ab ''b''"
    by (simp add: owns_positions_def vnode_hashes_1 view_ab positions)
  then show ?thesis
    using remove_worker_keeps_others[OF ring_reach_ab, of "''b''" "''k''"]
    by (simp add: get_worker_ab)
qed

text \<open>
  After \<open>remove_worker\<close> the worker is gone: it is not among \<open>workers()\<close>, no key is
  routed to it, and no worker has appeared.
\<close>

lemma remove_worker_evicts:
  assumes "ring_reach r"
  shows "w \<notin> set (workers (remove_worker r w))
    \<and> get_worker (remove_worker r w) key \<noteq> Inr (Some w)
    \<and> set (workers (remove_worker r w)) \<subseteq> set (workers r)"
proof -
  note ok = ring_reach_ok[OF assms]
  show ?thesis
    using ring.leave_members[OF ok, of w] ring.leave_not_routed[OF ok, of w key] ok
    by (simp add: set_workers) blast
qed

lemma remove_worker_evicts_example:
  "''a'' \<notin> set (workers (remove_worker ring_ab ''a''))
    \<and> get_worker (remove_worker ring_ab ''a'') ''k'' \<noteq> Inr (Some ''a'')"
  using remove_worker_evicts[OF ring_reach_ab, of "''a''" "''k''"] by blast

text \<open>
  A worker that joins under fresh positions and leaves again restores the routing of
  every key and the member list.
\<close>

lemma add_then_remove_restores:
  assumes "ring_reach r" and "dom (ring_view r) \<inter> vnode_hashes (virtual_nodes r) w = {}"
  shows "get_worker (remove_worker (add_worker r w) w) key = get_worker r key
    \<and> workers (remove_worker (add_worker r w) w) = workers r"
proof -
  note ok = ring_reach_ok[OF assms(1)]
  have "ring_view r h = None" if "h \<in> vnode_hashes (virtual_nodes r) w" for h
    using assms(2) that by blast
  then have "ring_view (remove_worker (add_worker r w) w) = ring_view r"
    by (simp add: fun_eq_iff view_remove view_add)
  with ok show ?thesis
    by (intro conjI get_worker_cong workers_cong) (simp_all add: ring_members_def)
qed

lemma add_then_remove_restores_example:
  "get_worker (remove_worker (add_worker ring_ab ''c'') ''c'') ''k'' = Inr (Some ''a'')"
  using add_then_remove_restores[OF ring_reach_ab, of "''c''" "''k''"] get_worker_ab
  by (simp add: view_ab vnode_hashes_1 positions)

text \<open>
  Processes that rebuild their ring from the same set of workers agree on the owner of
  every key, whatever their rings held before and in whatever order the workers were listed,
  when no two of the workers collide; and the rebuilt ring has exactly these workers.
\<close>

lemma replicas_agree:
  assumes "collision_free (virtual_nodes r) (set ws)" and "0 < virtual_nodes r"
    and "virtual_nodes r' = virtual_nodes r" and "set ws' = set ws"
  shows "get_worker (replace_workers r ws) key = get_worker (replace_workers r' ws') key
    \<and> workers (replace_workers r ws) = sort (remdups ws)"
  using same_routing[OF assms(1,3,4)] workers_replace[OF assms(1,2)] by simp

lemma replicas_agree_example:
  "get_worker (replace_workers (ring_init 1) [''a'', ''b'']) ''k''
     = get_worker (replace_workers ring_ab [''b'', ''a'', ''b'']) ''k''
   \<and> workers (replace_workers (ring_init 1) [''a'', ''b'']) = [''a'', ''b'']"
proof -
  have "collision_free 1 {''a'', ''b''}" using collision_free_abc by (simp add: collision_free_def)
  then show ?thesis
    using replicas_agree[of "ring_init 1" "[''a'', ''b'']" ring_ab "[''b'', ''a'', ''b'']" "''k''"]
    by auto
qed

text \<open>
  The labels of virtual nodes never clash (\<open>f"{worker_id}#{i}"\<close> determines the worker
  and the index, also for ids that contain a hash sign), and every position is a 128-bit
  number; two positions coincide only if MD5 collides.
\<close>

lemma vnode_positions:
  "0 \<le> ring_hash (vnode_label w i) \<and> ring_hash (vnode_label w i) < 2 ^ 128
   \<and> (vnode_label w i = vnode_label v j \<longleftrightarrow> w = v \<and> i = j)"
  using ring_hash_bounds vnode_label_inj by blast

end
