(* ===== verification/Worker_Registry.thy ===== *)
theory Worker_Registry
  imports Sentinel_Client Hash_Ring
begin

text \<open>
  Model of \<open>coordination/worker_registry.py\<close>. A registry holds the client and the local
  ring; the code that rebuilds the ring runs on the pair of the ring and the world, and
  \<open>on_world\<close> lifts code that leaves the ring alone.

  \<open>heartbeat_loop\<close> and \<open>watch_events\<close> are the two background coroutines. The heartbeat
  loop runs until an exception leaves it (\<open>None\<close> is: it runs forever). The subscription is
  the list of messages that arrive and the exception that ends it, if one does.
\<close>

definition HB_KEY_PREFIX :: string where "HB_KEY_PREFIX = ''worker:hb:''"
definition HB_TTL_SECONDS :: int where "HB_TTL_SECONDS = 10"
definition HEARTBEAT_INTERVAL :: int where "HEARTBEAT_INTERVAL = 3"
definition EVENTS_CHANNEL :: string where "EVENTS_CHANNEL = ''worker:events''"

definition hb_key :: "string \<Rightarrow> string" where
  "hb_key wid = HB_KEY_PREFIX @ wid"

definition heartbeat :: "'w redis \<Rightarrow> string \<Rightarrow> ('w, unit) eff" where
  "heartbeat api wid = rd_set_ex api (hb_key wid) ''1'' HB_TTL_SECONDS"

definition register :: "'w redis \<Rightarrow> string \<Rightarrow> ('w, unit) eff" where
  "register api wid =
     bindE (rd_set_ex api (hb_key wid) ''1'' HB_TTL_SECONDS)
       (\<lambda>_. rd_publish api EVENTS_CHANNEL (''join:'' @ wid))"

definition deregister :: "'w redis \<Rightarrow> string \<Rightarrow> ('w, unit) eff" where
  "deregister api wid =
     bindE (rd_delete api (hb_key wid))
       (\<lambda>_. rd_publish api EVENTS_CHANNEL (''leave:'' @ wid))"

definition list_workers :: "'w redis \<Rightarrow> ('w, string list) eff" where
  "list_workers api =
     bindE (rd_scan api HB_KEY_PREFIX)
       (\<lambda>keys. retE (sort (map (drop (length HB_KEY_PREFIX)) keys)))"

definition on_world :: "('w, 'a) eff \<Rightarrow> ('r \<times> 'w, 'a) eff" where
  "on_world f s = (case f (snd s) of (r, w') \<Rightarrow> (r, (fst s, w')))"

definition refresh_ring :: "'w redis \<Rightarrow> (hash_ring \<times> 'w, string list) eff" where
  "refresh_ring api =
     bindE (on_world (list_workers api))
       (\<lambda>ws s. (Inr ws, (replace_workers (fst s) ws, snd s)))"

text \<open>
  \<open>sleep\<close> is the point where a cancellation arrives; \<open>heartbeat\<close> awaits too and can raise
  both a cancellation and an error of the client library. Only a cancellation is caught.
\<close>

partial_function (option) heartbeat_loop ::
    "'w redis \<Rightarrow> (int \<Rightarrow> ('w, unit) eff) \<Rightarrow> string \<Rightarrow> 'w \<Rightarrow> ((exc + unit) \<times> 'w) option" where
  "heartbeat_loop api sleep wid w =
     (case bindE (heartbeat api wid) (\<lambda>_. sleep HEARTBEAT_INTERVAL) w of
        (Inr _, w') \<Rightarrow> heartbeat_loop api sleep wid w'
      | (Inl e, w') \<Rightarrow>
          Some (if e = CancelledError
                then bindE (deregister api wid) (\<lambda>_. raiseE CancelledError) w'
                else (Inl e, w')))"

text \<open>A message of redis-py's \<open>pubsub.listen()\<close>: its type and its data.\<close>

record pubsub_msg =
  msg_type :: string
  msg_data :: "string option"

definition notify :: "('a \<Rightarrow> ('s, unit) eff) option \<Rightarrow> 'a \<Rightarrow> ('s, unit) eff" where
  "notify on_change x = (case on_change of None \<Rightarrow> retE () | Some f \<Rightarrow> f x)"

definition on_event ::
    "'w redis \<Rightarrow> (string list \<Rightarrow> (hash_ring \<times> 'w, unit) eff) option \<Rightarrow> pubsub_msg
       \<Rightarrow> (hash_ring \<times> 'w, unit) eff" where
  "on_event api on_change m =
     (if msg_type m \<noteq> ''message'' then retE ()
      else bindE (refresh_ring api) (notify on_change))"

definition watch_events ::
    "'w redis \<Rightarrow> (hash_ring \<times> 'w, unit) eff \<Rightarrow> pubsub_msg list \<Rightarrow> exc option
       \<Rightarrow> (string list \<Rightarrow> (hash_ring \<times> 'w, unit) eff) option \<Rightarrow> (hash_ring \<times> 'w, unit) eff" where
  "watch_events api close msgs end_exc on_change =
     finallyE
       (bindE (forE msgs (on_event api on_change))
          (\<lambda>_. case end_exc of None \<Rightarrow> retE () | Some e \<Rightarrow> raiseE e))
       close"

section \<open>Laws\<close>

lemma hb_key_drop [simp]: "drop (length HB_KEY_PREFIX) (hb_key wid) = wid"
  by (simp add: hb_key_def)

lemma hb_key_inj [simp]: "hb_key w = hb_key v \<longleftrightarrow> w = v"
  by (simp add: hb_key_def)

text \<open>The workers whose heartbeat key a world holds.\<close>

definition live_workers :: "('w \<Rightarrow> string set) \<Rightarrow> 'w \<Rightarrow> string set" where
  "live_workers keys w = {wid. hb_key wid \<in> keys w}"

lemma list_workers_result:
  assumes "redis_keys api keys" "list_workers api w = (Inr ws, w')"
  shows "set ws = live_workers keys w" "sorted ws" "keys w' = keys w"
proof -
  obtain ks where ks: "rd_scan api HB_KEY_PREFIX w = (Inr ks, w')"
    and ws: "ws = sort (map (drop (length HB_KEY_PREFIX)) ks)"
    using assms(2) by (auto simp: list_workers_def bindE_Inr_iff eff_simps)
  then have set_ks: "set ks = {k \<in> keys w. startswith k HB_KEY_PREFIX}" and "keys w' = keys w"
    using assms(1) unfolding redis_keys_def by blast+
  then show "keys w' = keys w" by blast
  show "sorted ws" by (simp add: ws)
  have "k \<in> keys w \<and> startswith k HB_KEY_PREFIX \<longleftrightarrow> (\<exists>wid. k = hb_key wid \<and> hb_key wid \<in> keys w)" for k
    by (auto simp: startswith_iff hb_key_def)
  then have "set ks = hb_key ` live_workers keys w" using set_ks by (auto simp: live_workers_def)
  then show "set ws = live_workers keys w" by (simp add: ws image_image)
qed

lemma refresh_ring_cases:
  "refresh_ring api (r, w) = (case list_workers api w of
     (Inl e, w') \<Rightarrow> (Inl e, (r, w'))
   | (Inr ws, w') \<Rightarrow> (Inr ws, (replace_workers r ws, w')))"
  by (simp add: refresh_ring_def bindE_def on_world_def split: prod.splits sum.splits)

lemma register_keys:
  assumes "redis_keys api keys" "register api wid w = (Inr (), w')"
  shows "keys w' = insert (hb_key wid) (keys w)"
proof -
  obtain v where "rd_set_ex api (hb_key wid) ''1'' HB_TTL_SECONDS w = (Inr (), v)"
    "rd_publish api EVENTS_CHANNEL (''join:'' @ wid) v = (Inr (), w')"
    using assms(2) by (auto simp: register_def bindE_Inr_iff)
  then show ?thesis using assms(1) unfolding redis_keys_def by metis
qed

lemma deregister_keys:
  assumes "redis_keys api keys" "deregister api wid w = (Inr (), w')"
  shows "keys w' = keys w - {hb_key wid}"
proof -
  obtain v where "rd_delete api (hb_key wid) w = (Inr (), v)"
    "rd_publish api EVENTS_CHANNEL (''leave:'' @ wid) v = (Inr (), w')"
    using assms(2) by (auto simp: deregister_def bindE_Inr_iff)
  then show ?thesis using assms(1) unfolding redis_keys_def by metis
qed

section \<open>The background coroutines\<close>

text \<open>\<open>hb_rounds n\<close> is the world after \<open>n\<close> rounds of the loop that raised nothing.\<close>

abbreviation hb_round :: "'w redis \<Rightarrow> (int \<Rightarrow> ('w, unit) eff) \<Rightarrow> string \<Rightarrow> ('w, unit) eff" where
  "hb_round api sleep wid \<equiv> bindE (heartbeat api wid) (\<lambda>_. sleep HEARTBEAT_INTERVAL)"

fun hb_rounds :: "'w redis \<Rightarrow> (int \<Rightarrow> ('w, unit) eff) \<Rightarrow> string \<Rightarrow> nat \<Rightarrow> 'w \<Rightarrow> 'w option" where
  "hb_rounds api sleep wid 0 w = Some w"
| "hb_rounds api sleep wid (Suc n) w =
     (case hb_round api sleep wid w of
        (Inr _, w') \<Rightarrow> hb_rounds api sleep wid n w'
      | (Inl _, w') \<Rightarrow> None)"

lemma heartbeat_loop_rounds:
  "hb_rounds api sleep wid n w = Some v \<Longrightarrow>
     heartbeat_loop api sleep wid w = heartbeat_loop api sleep wid v"
proof (induction n arbitrary: w)
  case 0
  then show ?case by simp
next
  case (Suc n)
  then obtain u w' where r: "hb_round api sleep wid w = (Inr u, w')"
    and n: "hb_rounds api sleep wid n w' = Some v"
    by (auto split: prod.splits sum.splits)
  then show ?case using Suc.IH[OF n] by (simp add: heartbeat_loop.simps[of _ _ _ w])
qed

lemma forE_filter:
  "(\<And>x w. x \<in> set xs \<Longrightarrow> \<not> P x \<Longrightarrow> body x w = (Inr (), w)) \<Longrightarrow>
     forE xs body w = forE (filter P xs) body w"
  by (induction xs arbitrary: w) (auto split: prod.splits sum.splits)

section \<open>Properties\<close>

text \<open>
  C22: When a scan succeeds, \<open>refresh_ring\<close> gives the registry a ring with exactly the
  workers whose heartbeat key the server holds, sorted; a second registry with any ring of
  the same size that refreshes from the same keys then routes every key to the same worker.
  (The workers must not collide on a ring position.)
\<close>

theorem refresh_ring_authoritative:
  assumes "redis_keys api keys" and "collision_free (virtual_nodes r) (live_workers keys w)"
    and "0 < virtual_nodes r"
    and "refresh_ring api (r, w) = (Inr ws, (r1, w1))"
    and "virtual_nodes r' = virtual_nodes r" and "keys w' = keys w"
    and "refresh_ring api (r', w') = (Inr ws', (r2, w2))"
  shows "set (workers r1) = live_workers keys w \<and> workers r1 = sort (remdups ws)
    \<and> get_worker r1 key = get_worker r2 key"
proof -
  from assms(4) have 1: "list_workers api w = (Inr ws, w1)" and r1: "r1 = replace_workers r ws"
    by (auto simp: refresh_ring_cases split: prod.splits sum.splits)
  from assms(7) have 2: "list_workers api w' = (Inr ws', w2)" and r2: "r2 = replace_workers r' ws'"
    by (auto simp: refresh_ring_cases split: prod.splits sum.splits)
  have ws: "set ws = live_workers keys w" by (rule list_workers_result(1)[OF assms(1) 1])
  have "set ws' = live_workers keys w'" by (rule list_workers_result(1)[OF assms(1) 2])
  then have "set ws' = set ws" using assms(6) ws by (simp add: live_workers_def)
  moreover have cf: "collision_free (virtual_nodes r) (set ws)" using assms(2) ws by simp
  ultimately have "get_worker r1 key = get_worker r2 key"
    using same_routing[OF cf, of r' ws'] assms(5) r1 r2 by simp
  moreover have "workers r1 = sort (remdups ws)"
    unfolding r1 by (rule workers_replace[OF cf assms(3)])
  ultimately show ?thesis using ws by simp
qed

definition mem_ab :: mem where
  "mem_ab = mem_empty\<lparr>mem_keys := [hb_key ''b'', ''other'', hb_key ''a'']\<rparr>"

lemma refresh_mem_ab:
  "refresh_ring mem_redis (r, mem_ab) = (Inr [''a'', ''b''], (replace_workers r [''a'', ''b''], mem_ab))"
proof -
  have "list_workers mem_redis mem_ab = (Inr [''a'', ''b''], mem_ab)" by code_simp
  then show ?thesis by (simp add: refresh_ring_cases)
qed

theorem refresh_ring_authoritative_witness:
  "set (workers (replace_workers (ring_init 1) [''a'', ''b''])) = {''a'', ''b''}"
proof -
  have live: "live_workers (\<lambda>m. set (mem_keys m)) mem_ab = {''a'', ''b''}"
    by (auto simp: live_workers_def mem_ab_def hb_key_def HB_KEY_PREFIX_def)
  moreover have "collision_free 1 {''a'', ''b''}"
    using collision_free_abc by (simp add: collision_free_def)
  ultimately show ?thesis
    using refresh_ring_authoritative[OF mem_redis_keys, of "ring_init 1" mem_ab _ _ _ ring_ab mem_ab]
      refresh_mem_ab[of "ring_init 1"] refresh_mem_ab[of ring_ab] by auto
qed

text \<open>
  A worker that has registered is found by the next scan of the heartbeat keys, and a
  worker that has deregistered is not; other workers are not affected.
\<close>

lemma register_deregister_visible:
  assumes "redis_keys api keys" and "register api wid w = (Inr (), w1)"
    and "list_workers api w1 = (Inr ws, w2)"
    and "deregister api wid w2 = (Inr (), w3)" and "list_workers api w3 = (Inr ws', w4)"
  shows "set ws = insert wid (live_workers keys w) \<and> set ws' = live_workers keys w - {wid}"
  using list_workers_result[OF assms(1,3)] list_workers_result[OF assms(1,5)]
    register_keys[OF assms(1,2)] deregister_keys[OF assms(1,4)]
  by (auto simp: live_workers_def)

lemma register_deregister_visible_example:
  "list_workers mem_redis (snd (register mem_redis ''c'' mem_ab))
     = (Inr [''a'', ''b'', ''c''], snd (register mem_redis ''c'' mem_ab))
   \<and> set [''a'', ''b'', ''c''] = insert ''c'' (live_workers (\<lambda>m. set (mem_keys m)) mem_ab)"
proof -
  let ?w1 = "snd (register mem_redis ''c'' mem_ab)"
  let ?w3 = "snd (deregister mem_redis ''c'' ?w1)"
  have 1: "register mem_redis ''c'' mem_ab = (Inr (), ?w1)" by code_simp
  have 2: "list_workers mem_redis ?w1 = (Inr [''a'', ''b'', ''c''], ?w1)" by code_simp
  have 3: "deregister mem_redis ''c'' ?w1 = (Inr (), ?w3)" by code_simp
  have 4: "list_workers mem_redis ?w3 = (Inr [''a'', ''b''], ?w3)" by code_simp
  show ?thesis using register_deregister_visible[OF mem_redis_keys 1 2 3 4] 2 by blast
qed

text \<open>
  The heartbeat loop ends at the first exception of a round. A cancellation makes it
  deregister the worker and re-raise. Any other exception, such as a connection error while
  the master fails over, ends the loop at once: no further heartbeat is sent and the worker
  is not deregistered.
\<close>

lemma heartbeat_loop_outcome:
  assumes "hb_rounds api sleep wid n w = Some v" and "hb_round api sleep wid v = (Inl e, v')"
  shows "heartbeat_loop api sleep wid w = Some (
    if e = CancelledError then bindE (deregister api wid) (\<lambda>_. raiseE CancelledError) v'
    else (Inl e, v'))"
  using heartbeat_loop_rounds[OF assms(1)] assms(2) by (simp add: heartbeat_loop.simps[of _ _ _ v])

definition failing_redis :: "mem redis" where
  "failing_redis = mem_redis\<lparr>rd_set_ex := (\<lambda>k v t m. (Inl (LibError ''ConnectionError''), m))\<rparr>"

lemma heartbeat_loop_outcome_example:
  "heartbeat_loop failing_redis (\<lambda>_. retE ()) ''a'' mem_ab = Some (Inl (LibError ''ConnectionError''), mem_ab)
   \<and> heartbeat_loop mem_redis (\<lambda>_. raiseE CancelledError) ''a'' mem_ab
       = Some (Inl CancelledError, snd (deregister mem_redis ''a'' mem_ab))"
proof
  have "hb_round failing_redis (\<lambda>_. retE ()) ''a'' mem_ab = (Inl (LibError ''ConnectionError''), mem_ab)"
    by (simp add: failing_redis_def heartbeat_def bindE_def)
  then show "heartbeat_loop failing_redis (\<lambda>_. retE ()) ''a'' mem_ab
      = Some (Inl (LibError ''ConnectionError''), mem_ab)"
    using heartbeat_loop_outcome[of failing_redis "\<lambda>_. retE ()" "''a''" 0 mem_ab mem_ab] by simp
next
  let ?sl = "\<lambda>_. raiseE CancelledError :: (mem, unit) eff"
  have h: "heartbeat mem_redis ''a'' mem_ab = (Inr (), mem_ab)"
    by (simp add: heartbeat_def mem_redis_def mem_ab_def mem_empty_def)
  obtain m where d: "deregister mem_redis ''a'' mem_ab = (Inr (), m)"
    by (simp add: deregister_def mem_redis_def bindE_def)
  have "hb_round mem_redis ?sl ''a'' mem_ab = (Inl CancelledError, mem_ab)"
    by (simp add: bindE_def h eff_simps)
  then have "heartbeat_loop mem_redis ?sl ''a'' mem_ab
      = Some (bindE (deregister mem_redis ''a'') (\<lambda>_. raiseE CancelledError) mem_ab)"
    using heartbeat_loop_outcome[of mem_redis ?sl "''a''" 0 mem_ab mem_ab] by simp
  then show "heartbeat_loop mem_redis ?sl ''a'' mem_ab
      = Some (Inl CancelledError, snd (deregister mem_redis ''a'' mem_ab))"
    by (simp add: bindE_def d eff_simps)
qed

text \<open>
  \<open>watch_events\<close> handles only messages of type \<open>message\<close> (confirmations of the
  subscription have no effect), and it always ends by unsubscribing and closing, whether the
  stream ends, is cancelled or a refresh raises.
\<close>

lemma watch_events_messages:
  "watch_events api close msgs end_exc on_change s
     = watch_events api close (filter (\<lambda>m. msg_type m = ''message'') msgs) end_exc on_change s
   \<and> (\<exists>s'. snd (watch_events api close msgs end_exc on_change s) = snd (close s'))"
proof
  have "forE msgs (on_event api on_change) s' =
      forE (filter (\<lambda>m. msg_type m = ''message'') msgs) (on_event api on_change) s'" for s'
    by (rule forE_filter) (simp add: on_event_def eff_simps)
  then show "watch_events api close msgs end_exc on_change s
      = watch_events api close (filter (\<lambda>m. msg_type m = ''message'') msgs) end_exc on_change s"
    by (simp add: watch_events_def finallyE_def bindE_def)
  show "\<exists>s'. snd (watch_events api close msgs end_exc on_change s) = snd (close s')"
    unfolding watch_events_def finallyE_def
    by (auto split: prod.splits sum.splits) (metis snd_conv)+
qed

end
