(* ===== verification/Py_Json.thy ===== *)
theory Py_Json
  imports Py_Str
begin

text \<open>
  JSON values as Python's \<open>json\<close> module delivers them (numbers are the integers the program
  exchanges; objects keep insertion order), and the operations the program applies to a value
  of unknown shape, with the exception each one raises: subscription, \<open>.get\<close>, iteration and
  truth.
\<close>

datatype json =
    JNull
  | JBool bool
  | JInt int
  | JStr string
  | JList "json list"
  | JObj "(string \<times> json) list"

text \<open>\<open>v[key]\<close> with a string key.\<close>

fun json_index :: "json \<Rightarrow> string \<Rightarrow> exc + json" where
  "json_index (JObj d) k = (case dict_get d k of None \<Rightarrow> Inl KeyError | Some v \<Rightarrow> Inr v)"
| "json_index _ k = Inl TypeError"

text \<open>\<open>v.get(key)\<close>: \<open>None\<close> is an absent key; only objects have the method.\<close>

fun json_get :: "json \<Rightarrow> string \<Rightarrow> exc + json option" where
  "json_get (JObj d) k = Inr (dict_get d k)"
| "json_get _ k = Inl AttributeError"

text \<open>\<open>for x in v\<close>: the items of a list, the keys of an object, the characters of a string.\<close>

fun json_iter :: "json \<Rightarrow> exc + json list" where
  "json_iter (JList xs) = Inr xs"
| "json_iter (JObj d) = Inr (map JStr (dict_keys d))"
| "json_iter (JStr s) = Inr (map (\<lambda>c. JStr [c]) s)"
| "json_iter _ = Inl TypeError"

fun json_truthy :: "json \<Rightarrow> bool" where
  "json_truthy JNull = False"
| "json_truthy (JBool b) = b"
| "json_truthy (JInt n) = (n \<noteq> 0)"
| "json_truthy (JStr s) = (s \<noteq> [])"
| "json_truthy (JList xs) = (xs \<noteq> [])"
| "json_truthy (JObj d) = (d \<noteq> [])"

end
