(* ===== verification/Json_Codec.thy ===== *)
theory Json_Codec
  imports Py_Json
begin

text \<open>
  Python's \<open>json.dumps\<close> (default separators, \<open>ensure_ascii\<close>) and \<open>json.loads\<close>, over the
  values of \<open>Py_Json\<close>. The decoder is the recursive descent of the library: strict strings,
  white space between tokens, the last of equal keys wins, and an error for text after the
  value. Numbers with a fraction or an exponent, the literals \<open>NaN\<close> and \<open>Infinity\<close>, and
  escapes above U+00FF denote values outside the model; the decoder answers them with
  \<open>unmodelled\<close>, never with a value.

  The decoder recurses on a fuel that starts at the length of the text. Every recursive call
  follows at least one consumed character, so it does not run out: \<open>loads_dumps\<close> shows it
  for every encoded value.
\<close>

section \<open>Encoding\<close>

definition hex4 :: "nat \<Rightarrow> string" where
  "hex4 n = map (\<lambda>d. ''0123456789abcdef'' ! d) [n div 4096 mod 16, n div 256 mod 16, n div 16 mod 16, n mod 16]"

definition escape_char :: "char \<Rightarrow> string" where
  "escape_char c =
     (let n = code c in
      if n = 34 then [CHR 0x5C, CHR 0x22]
      else if n = 92 then [CHR 0x5C, CHR 0x5C]
      else if n = 8 then CHR 0x5C # ''b''
      else if n = 12 then CHR 0x5C # ''f''
      else if n = 10 then CHR 0x5C # ''n''
      else if n = 13 then CHR 0x5C # ''r''
      else if n = 9 then CHR 0x5C # ''t''
      else if 32 \<le> n \<and> n < 127 then [c]
      else CHR 0x5C # CHR ''u'' # hex4 n)"

definition dump_str :: "string \<Rightarrow> string" where
  "dump_str s = CHR 0x22 # concat (map escape_char s) @ [CHR 0x22]"

definition str_int :: "int \<Rightarrow> string" where
  "str_int i = (if i < 0 then CHR ''-'' # str_nat (nat (- i)) else str_nat (nat i))"

fun json_dumps :: "json \<Rightarrow> string" where
  "json_dumps JNull = ''null''"
| "json_dumps (JBool b) = (if b then ''true'' else ''false'')"
| "json_dumps (JInt i) = str_int i"
| "json_dumps (JStr s) = dump_str s"
| "json_dumps (JList xs) = ''['' @ join '', '' (map json_dumps xs) @ '']''"
| "json_dumps (JObj d) = ''{'' @ join '', '' (map (\<lambda>(k, v). dump_str k @ '': '' @ json_dumps v) d) @ ''}''"

section \<open>Decoding\<close>

definition unmodelled :: exc where
  "unmodelled = LibError ''value outside the model''"

definition is_json_ws :: "char \<Rightarrow> bool" where
  "is_json_ws c \<longleftrightarrow> code c \<in> {32, 9, 10, 13}"

definition skip_ws :: "string \<Rightarrow> string" where
  "skip_ws s = dropWhile is_json_ws s"

definition hex_digit :: "char \<Rightarrow> nat option" where
  "hex_digit c = (let n = code c in
     if 48 \<le> n \<and> n \<le> 57 then Some (n - 48)
     else if 97 \<le> n \<and> n \<le> 102 then Some (n - 87)
     else if 65 \<le> n \<and> n \<le> 70 then Some (n - 55)
     else None)"

fun parse_hex4 :: "string \<Rightarrow> (nat \<times> string) option" where
  "parse_hex4 (a # b # c # d # cs) =
     (case (hex_digit a, hex_digit b, hex_digit c, hex_digit d) of
        (Some i, Some j, Some k, Some l) \<Rightarrow> Some (((i * 16 + j) * 16 + k) * 16 + l, cs)
      | _ \<Rightarrow> None)"
| "parse_hex4 _ = None"

lemma parse_hex4_length: "parse_hex4 s = Some (n, cs) \<Longrightarrow> length cs < length s"
  by (cases s rule: parse_hex4.cases) (auto split: option.splits)

definition simple_escape :: "char \<Rightarrow> char option" where
  "simple_escape c =
     (if code c = 34 then Some c else if code c = 92 then Some c else if c = CHR ''/'' then Some c
      else if c = CHR ''b'' then Some (char_of (8::nat)) else if c = CHR ''f'' then Some (char_of (12::nat))
      else if c = CHR ''n'' then Some (char_of (10::nat)) else if c = CHR ''r'' then Some (char_of (13::nat))
      else if c = CHR ''t'' then Some (char_of (9::nat)) else None)"

text \<open>The rest of a string literal, after its opening quote.\<close>

fun parse_str :: "nat \<Rightarrow> string \<Rightarrow> exc + string \<times> string" where
  "parse_str 0 s = Inl JSONDecodeError"
| "parse_str (Suc n) [] = Inl JSONDecodeError"
| "parse_str (Suc n) (c # cs) =
     (if code c = 34 then Inr ([], cs)
      else if code c < 32 then Inl JSONDecodeError
      else if code c = 92 then
        (case cs of
           [] \<Rightarrow> Inl JSONDecodeError
         | e # es \<Rightarrow>
             if e = CHR ''u'' then
               (case parse_hex4 es of
                  None \<Rightarrow> Inl JSONDecodeError
                | Some (m, fs) \<Rightarrow>
                    if m < 256 then
                      (case parse_str n fs of Inl x \<Rightarrow> Inl x | Inr (s, r) \<Rightarrow> Inr (char_of m # s, r))
                    else Inl unmodelled)
             else
               (case simple_escape e of
                  None \<Rightarrow> Inl JSONDecodeError
                | Some d \<Rightarrow>
                    (case parse_str n es of Inl x \<Rightarrow> Inl x | Inr (s, r) \<Rightarrow> Inr (d # s, r))))
      else (case parse_str n cs of Inl x \<Rightarrow> Inl x | Inr (s, r) \<Rightarrow> Inr (c # s, r)))"

text \<open>\<open>-?(0|[1-9][0-9]*)\<close>, refused when a fraction or an exponent follows.\<close>

definition parse_digits :: "bool \<Rightarrow> string \<Rightarrow> exc + json \<times> string" where
  "parse_digits neg t =
     (let ds = takeWhile is_digit t;
          ds' = (if ds \<noteq> [] \<and> hd ds = CHR ''0'' then ''0'' else ds);
          r = drop (length ds') t;
          v = int (digits_val ds')
      in if ds = [] then Inl JSONDecodeError
         else if r \<noteq> [] \<and> hd r \<in> {CHR ''.'', CHR ''e'', CHR ''E''} then Inl unmodelled
         else Inr (JInt (if neg then - v else v), r))"

definition parse_number :: "string \<Rightarrow> exc + json \<times> string" where
  "parse_number s =
     (if startswith s ''-Infinity'' then Inl unmodelled
      else if startswith s ''-'' then parse_digits True (tl s)
      else parse_digits False s)"

fun parse_value :: "nat \<Rightarrow> string \<Rightarrow> exc + json \<times> string"
  and parse_items :: "nat \<Rightarrow> string \<Rightarrow> exc + json list \<times> string"
  and parse_members :: "nat \<Rightarrow> (string \<times> json) list \<Rightarrow> string \<Rightarrow> exc + (string \<times> json) list \<times> string"
  where
  "parse_value 0 s = Inl JSONDecodeError"
| "parse_value (Suc n) s =
     (case s of
        [] \<Rightarrow> Inl JSONDecodeError
      | c # cs \<Rightarrow>
          if code c = 34 then
            (case parse_str (length cs) cs of Inl e \<Rightarrow> Inl e | Inr (t, r) \<Rightarrow> Inr (JStr t, r))
          else if c = CHR ''['' then
            (let t = skip_ws cs in
             if startswith t '']'' then Inr (JList [], tl t)
             else (case parse_items n t of Inl e \<Rightarrow> Inl e | Inr (vs, r) \<Rightarrow> Inr (JList vs, r)))
          else if c = CHR ''{'' then
            (let t = skip_ws cs in
             if startswith t ''}'' then Inr (JObj [], tl t)
             else (case parse_members n [] t of Inl e \<Rightarrow> Inl e | Inr (d, r) \<Rightarrow> Inr (JObj d, r)))
          else if startswith s ''null'' then Inr (JNull, drop 4 s)
          else if startswith s ''true'' then Inr (JBool True, drop 4 s)
          else if startswith s ''false'' then Inr (JBool False, drop 5 s)
          else if startswith s ''NaN'' \<or> startswith s ''Infinity'' then Inl unmodelled
          else parse_number s)"
| "parse_items 0 s = Inl JSONDecodeError"
| "parse_items (Suc n) s =
     (case parse_value n s of
        Inl e \<Rightarrow> Inl e
      | Inr (v, r) \<Rightarrow>
          let t = skip_ws r in
          if startswith t '']'' then Inr ([v], tl t)
          else if startswith t '','' then
            (case parse_items n (skip_ws (tl t)) of
               Inl e \<Rightarrow> Inl e | Inr (vs, r') \<Rightarrow> Inr (v # vs, r'))
          else Inl JSONDecodeError)"
| "parse_members 0 d s = Inl JSONDecodeError"
| "parse_members (Suc n) d s =
     (case s of
        [] \<Rightarrow> Inl JSONDecodeError
      | c # cs \<Rightarrow>
          if code c \<noteq> 34 then Inl JSONDecodeError
          else
            (case parse_str (length cs) cs of
               Inl e \<Rightarrow> Inl e
             | Inr (k, r) \<Rightarrow>
                 let t = skip_ws r in
                 if \<not> startswith t '':'' then Inl JSONDecodeError
                 else
                   (case parse_value n (skip_ws (tl t)) of
                      Inl e \<Rightarrow> Inl e
                    | Inr (v, r') \<Rightarrow>
                        let u = skip_ws r'; d' = dict_set d k v in
                        if startswith u ''}'' then Inr (d', tl u)
                        else if startswith u '','' then parse_members n d' (skip_ws (tl u))
                        else Inl JSONDecodeError)))"

definition json_loads :: "string \<Rightarrow> exc + json" where
  "json_loads s =
     (case parse_value (Suc (length s)) (skip_ws s) of
        Inl e \<Rightarrow> Inl e
      | Inr (v, r) \<Rightarrow> if skip_ws r = [] then Inr v else Inl JSONDecodeError)"

section \<open>Round trip\<close>

text \<open>Objects have distinct keys, as dictionaries do.\<close>

fun json_ok :: "json \<Rightarrow> bool" where
  "json_ok (JList xs) = (\<forall>x \<in> set xs. json_ok x)"
| "json_ok (JObj d) = (dict_ok d \<and> (\<forall>kv \<in> set d. json_ok (snd kv)))"
| "json_ok _ = True"


lemma code_less: "code c < 256"
  by (simp add: code_def nat_of_char_less_256)

lemma char_of_code [simp]: "char_of (code c) = c"
  by (simp add: code_def)

lemma code_eq_iff: "code c = code d \<longleftrightarrow> c = d"
  by (metis char_of_code)

lemma hex_digit_nth: "d < 16 \<Longrightarrow> hex_digit (''0123456789abcdef'' ! d) = Some d"
proof -
  assume "d < 16"
  then have "d \<in> {0, 1, 2, 3, 4, 5, 6, 7, 8, 9, 10, 11, 12, 13, 14, 15}" by (simp, presburger)
  then show ?thesis by (auto simp: hex_digit_def code_def)
qed

lemma parse_hex4_hex4: "n < 65536 \<Longrightarrow> parse_hex4 (hex4 n @ t) = Some (n, t)"
proof -
  assume n: "n < 65536"
  have "((n div 4096 mod 16 * 16 + n div 256 mod 16) * 16 + n div 16 mod 16) * 16 + n mod 16 = n"
  proof -
    have "n div 4096 mod 16 = n div 256 div 16" using n by (simp add: div_mult2_eq [symmetric])
    moreover have "n div 256 div 16 * 16 + n div 256 mod 16 = n div 16 div 16"
      using div_mult_mod_eq[of "n div 256" 16] by simp
    moreover have "n div 16 div 16 * 16 + n div 16 mod 16 = n div 16" "n div 16 * 16 + n mod 16 = n"
      by simp_all
    ultimately show ?thesis by simp
  qed
  moreover have "n div 4096 mod 16 = n div 4096" "n div 4096 < 16" using n by simp_all
  ultimately show ?thesis by (simp add: hex4_def hex_digit_nth)
qed

lemma parse_str_escape:
  "parse_str (Suc m) (escape_char c @ t)
     = (case parse_str m t of Inl x \<Rightarrow> Inl x | Inr (s, r) \<Rightarrow> Inr (c # s, r))"
proof -
  let ?k = "case parse_str m t of Inl x \<Rightarrow> Inl x | Inr (s, r) \<Rightarrow> Inr (c # s, r)"
  have c: "c = char_of (code c)" by simp
  consider (quote) "code c = 34" | (bslash) "code c = 92" | (b) "code c = 8" | (f) "code c = 12"
    | (n) "code c = 10" | (r) "code c = 13" | (t) "code c = 9"
    | (plain) "code c \<notin> {34, 92, 8, 12, 10, 13, 9}" "32 \<le> code c" "code c < 127"
    | (u) "code c \<notin> {34, 92, 8, 12, 10, 13, 9}" "\<not> (32 \<le> code c \<and> code c < 127)"
    by fastforce
  then show ?thesis
  proof cases
    case u
    have "parse_hex4 (hex4 (code c) @ t) = Some (code c, t)"
      using code_less[of c] by (intro parse_hex4_hex4) simp
    then show ?thesis
      using u code_less[of c] by (cases "parse_str m t") (simp_all add: escape_char_def Let_def, simp_all add: code_def)
  next
    case plain
    then show ?thesis by (simp add: escape_char_def Let_def)
  next
    case quote
    then have "code c = code (CHR 0x22)" by (simp add: code_def)
    then have "c = CHR 0x22" by (simp only: code_eq_iff)
    then show ?thesis unfolding \<open>c = CHR 0x22\<close> by (simp add: escape_char_def simple_escape_def code_def)
  next
    case bslash
    then have "code c = code (CHR 0x5C)" by (simp add: code_def)
    then have "c = CHR 0x5C" by (simp only: code_eq_iff)
    then show ?thesis unfolding \<open>c = CHR 0x5C\<close> by (simp add: escape_char_def simple_escape_def code_def)
  qed (use c in \<open>cases "parse_str m t"; auto simp: escape_char_def simple_escape_def code_def\<close>)+
qed

lemma parse_str_dump:
  "length s < n \<Longrightarrow>
     parse_str n (concat (map escape_char s) @ CHR 0x22 # r) = Inr (s, r)"
proof (induction s arbitrary: n)
  case Nil
  then show ?case by (cases n) (simp_all add: code_def)
next
  case (Cons c s)
  then obtain m where n: "n = Suc m" "length s < m" by (cases n) auto
  then show ?case using Cons.IH[of m] by (simp add: parse_str_escape)
qed

lemma escape_char_nonempty: "escape_char c \<noteq> []"
  by (simp add: escape_char_def Let_def)

lemma length_escape: "length s \<le> length (concat (map escape_char s))"
proof (induction s)
  case (Cons c s)
  then show ?case using escape_char_nonempty[of c] by (cases "escape_char c") simp_all
qed simp

lemma parse_dump_str:
  "parse_str (length (concat (map escape_char s) @ CHR 0x22 # r)) (concat (map escape_char s) @ CHR 0x22 # r)
     = Inr (s, r)"
  by (rule parse_str_dump) (use length_escape[of s] in simp)

text \<open>What may follow a value inside an encoded text: nothing that continues a number.\<close>

definition follow_ok :: "string \<Rightarrow> bool" where
  "follow_ok r \<longleftrightarrow> r = [] \<or> (\<not> is_digit (hd r) \<and> hd r \<notin> {CHR ''.'', CHR ''e'', CHR ''E''})"

lemma str_nat_zero: "hd (str_nat n) = CHR ''0'' \<Longrightarrow> str_nat n = ''0''"
proof (induction n rule: str_nat.induct)
  case (1 n)
  have d: "digit k = CHR ''0'' \<longleftrightarrow> k = 0" if "k < 10" for k
  proof
    assume "digit k = CHR ''0''"
    then have "code (digit k) = 48" by (simp add: code_def)
    then show "k = 0" using code_digit[OF that] by simp
  next
    assume "k = 0"
    then have "code (digit k) = code (CHR ''0'')" using code_digit[OF that] by (simp add: code_def)
    then show "digit k = CHR ''0''" by (simp only: code_eq_iff)
  qed
  show ?case
  proof (cases "n < 10")
    case True
    then show ?thesis using 1(2) d[of n] by (subst str_nat.simps) (simp add: str_nat.simps[of n])
  next
    case False
    then have s: "str_nat n = str_nat (n div 10) @ [digit (n mod 10)]" by (simp add: str_nat.simps[of n])
    then have "hd (str_nat (n div 10)) = CHR ''0''"
      using 1(2) str_nat_nonempty[of "n div 10"] by simp
    then have "str_nat (n div 10) = ''0''" using 1(1) False by blast
    then have "n div 10 = 0" using digits_val_str_nat[of "n div 10"] by (simp add: digits_val_def code_def)
    then show ?thesis using False by simp
  qed
qed

lemma parse_number_nat:
  assumes "follow_ok r"
  shows "takeWhile is_digit (str_nat n @ r) = str_nat n"
    and "(if str_nat n \<noteq> [] \<and> hd (str_nat n) = CHR ''0'' then ''0'' else str_nat n) = str_nat n"
proof -
  have "takeWhile is_digit r = []" using assms by (cases r) (auto simp: follow_ok_def)
  then show "takeWhile is_digit (str_nat n @ r) = str_nat n"
    using str_nat_digits[of n] by (simp add: takeWhile_append2)
  show "(if str_nat n \<noteq> [] \<and> hd (str_nat n) = CHR ''0'' then ''0'' else str_nat n) = str_nat n"
    using str_nat_zero[of n] by auto
qed

lemma parse_digits_str_nat:
  assumes "follow_ok r"
  shows "parse_digits neg (str_nat n @ r) = Inr (JInt (if neg then - int n else int n), r)"
proof -
  have "\<not> (r \<noteq> [] \<and> hd r \<in> {CHR ''.'', CHR ''e'', CHR ''E''})" using assms by (auto simp: follow_ok_def)
  then show ?thesis
    unfolding parse_digits_def parse_number_nat[OF assms] Let_def
    by (simp add: str_nat_nonempty)
qed

lemma parse_number_str_int:
  assumes "follow_ok r" shows "parse_number (str_int i @ r) = Inr (JInt i, r)"
proof -
  obtain c cs where s: "str_nat (nat \<bar>i\<bar>) = c # cs" and c: "is_digit c"
    using str_nat_digits[of "nat \<bar>i\<bar>"] str_nat_nonempty[of "nat \<bar>i\<bar>"]
    by (cases "str_nat (nat \<bar>i\<bar>)") auto
  have "c \<noteq> CHR ''-''" "c \<noteq> CHR ''I''" using c by (auto simp: is_digit_def code_def)
  with s show ?thesis
    using parse_digits_str_nat[OF assms, of "i < 0" "nat \<bar>i\<bar>"]
    by (auto simp: parse_number_def str_int_def abs_if)
qed


lemma str_int_head:
  obtains c cs where "str_int i = c # cs" "is_digit c \<or> c = CHR ''-''"
  using str_nat_digits str_nat_nonempty
  by (cases "str_int i") (auto simp: str_int_def split: if_splits, (metis list.set_intros(1))+)

lemma json_dumps_head:
  "\<exists>c cs. json_dumps v = c # cs \<and> \<not> is_json_ws c \<and> c \<noteq> CHR '']'' \<and> c \<noteq> CHR ''}''"
proof (cases v)
  case (JInt i)
  obtain c cs where "str_int i = c # cs" and c: "is_digit c \<or> c = CHR ''-''" by (rule str_int_head)
  moreover from c have "\<not> is_json_ws c" "c \<noteq> CHR '']''" "c \<noteq> CHR ''}''"
    by (auto simp: is_json_ws_def is_digit_def code_def)
  ultimately show ?thesis using JInt by simp
qed (auto simp: is_json_ws_def code_def dump_str_def)

lemma skip_ws_dumps [simp]: "skip_ws (json_dumps v @ r) = json_dumps v @ r"
  using json_dumps_head[of v] by (auto simp: skip_ws_def)

lemma skip_ws_Cons [simp]: "skip_ws (c # r) = (if is_json_ws c then skip_ws r else c # r)"
  by (simp add: skip_ws_def)

lemma json_ws_simps [simp]:
  "is_json_ws (CHR '' '')" "\<not> is_json_ws (CHR '','')" "\<not> is_json_ws (CHR '':'')"
  "\<not> is_json_ws (CHR '']'')" "\<not> is_json_ws (CHR ''}'')" "\<not> is_json_ws (CHR 0x22)"
  by (simp_all add: is_json_ws_def code_def)

lemma code_quote [simp]: "code (CHR 0x22) = 34"
  by (simp add: code_def)

lemma follow_ok_simps [simp]:
  "follow_ok []" "follow_ok (CHR '','' # r)" "follow_ok (CHR '']'' # r)" "follow_ok (CHR ''}'' # r)"
  by (simp_all add: follow_ok_def is_digit_def code_def)

lemma parse_value_str: "parse_value (Suc n) (dump_str s @ r) = Inr (JStr s, r)"
  using parse_dump_str[of s r] by (simp add: dump_str_def code_def)

lemma parse_value_int: "follow_ok r \<Longrightarrow> parse_value (Suc n) (str_int i @ r) = Inr (JInt i, r)"
proof -
  assume r: "follow_ok r"
  obtain c cs where s: "str_int i = c # cs" and c: "is_digit c \<or> c = CHR ''-''" by (rule str_int_head)
  from c have "code c \<noteq> 34" "c \<notin> set ''[{ntfNI''" by (auto simp: is_digit_def code_def)
  then show ?thesis using s parse_number_str_int[OF r, of i] by (simp add: Let_def)
qed

lemma parse_items_dumps:
  assumes "\<And>x n r. x \<in> set xs \<Longrightarrow> length (json_dumps x) \<le> n \<Longrightarrow> follow_ok r \<Longrightarrow>
      parse_value n (json_dumps x @ r) = Inr (x, r)"
    and "xs \<noteq> []" and "length (join '', '' (map json_dumps xs)) < n"
  shows "parse_items n (join '', '' (map json_dumps xs) @ CHR '']'' # r) = Inr (xs, r)"
  using assms
proof (induction xs arbitrary: n)
  case Nil
  then show ?case by simp
next
  case (Cons x xs)
  obtain m where n: "n = Suc m" using Cons.prems(3) by (cases n) auto
  show ?case
  proof (cases xs)
    case Nil
    then show ?thesis using Cons.prems n by (simp add: Let_def)
  next
    case (Cons y ys)
    with Cons.prems n have "parse_items m (join '', '' (map json_dumps xs) @ CHR '']'' # r) = Inr (xs, r)"
      by (intro Cons.IH) auto
    moreover have "parse_value m (json_dumps x @ ('','' @ '' '' @ join '', '' (map json_dumps xs) @ CHR '']'' # r))
        = Inr (x, '','' @ '' '' @ join '', '' (map json_dumps xs) @ CHR '']'' # r)"
      using Cons Cons.prems n by (intro Cons.prems(1)) auto
    moreover have "skip_ws (join '', '' (map json_dumps xs) @ CHR '']'' # r)
        = join '', '' (map json_dumps xs) @ CHR '']'' # r"
      using Cons by (cases ys) simp_all
    ultimately show ?thesis using Cons n by (simp add: Let_def)
  qed
qed


lemma parse_members_dumps:
  assumes "\<And>k x n r. (k, x) \<in> set kvs \<Longrightarrow> length (json_dumps x) \<le> n \<Longrightarrow> follow_ok r \<Longrightarrow>
      parse_value n (json_dumps x @ r) = Inr (x, r)"
    and "kvs \<noteq> []" and "dict_ok (d @ kvs)"
    and "length (join '', '' (map (\<lambda>(k, v). dump_str k @ '': '' @ json_dumps v) kvs)) < n"
  shows "parse_members n d
      (join '', '' (map (\<lambda>(k, v). dump_str k @ '': '' @ json_dumps v) kvs) @ CHR ''}'' # r)
    = Inr (d @ kvs, r)"
  using assms
proof (induction kvs arbitrary: n d)
  case Nil
  then show ?case by simp
next
  case (Cons kv kvs)
  let ?m = "\<lambda>kvs. join '', '' (map (\<lambda>(k, v). dump_str k @ '': '' @ json_dumps v) kvs)"
  obtain k v where kv: "kv = (k, v)" by (cases kv)
  obtain m where n: "n = Suc m" using Cons.prems(4) by (cases n) auto
  have set: "dict_set d k v = d @ [(k, v)]"
    using Cons.prems(3) by (simp add: kv dict_ok_def dict_set_new)
  have key: "parse_str (length (concat (map escape_char k) @ CHR 0x22 # t)) (concat (map escape_char k) @ CHR 0x22 # t)
      = Inr (k, t)" for t by (rule parse_dump_str)
  show ?case
  proof (cases kvs)
    case Nil
    have "parse_value m (json_dumps v @ CHR ''}'' # r) = Inr (v, CHR ''}'' # r)"
      using Nil Cons.prems n kv by (intro Cons.prems(1)) auto
    then show ?thesis
      using Nil n kv key[of "'': '' @ json_dumps v @ CHR ''}'' # r"] set
      by (simp add: dump_str_def Let_def)
  next
    case (Cons kv' kvs')
    obtain t where t: "?m kvs @ CHR ''}'' # r = CHR 0x22 # t"
      using Cons by (cases kvs'; cases kv') (auto simp: dump_str_def)
    have "parse_members m (d @ [(k, v)]) (?m kvs @ CHR ''}'' # r) = Inr ((d @ [(k, v)]) @ kvs, r)"
      using Cons Cons.prems n kv by (intro Cons.IH) auto
    moreover have "parse_value m (json_dumps v @ (CHR '','' # '' '' @ ?m kvs @ CHR ''}'' # r))
        = Inr (v, CHR '','' # '' '' @ ?m kvs @ CHR ''}'' # r)"
      using Cons Cons.prems n kv by (intro Cons.prems(1)) auto
    ultimately show ?thesis
      using Cons n kv set t key[of "'': '' @ json_dumps v @ CHR '','' # '' '' @ ?m kvs @ CHR ''}'' # r"]
      by (simp add: dump_str_def Let_def)
  qed
qed


lemma parse_value_dumps:
  "json_ok v \<Longrightarrow> length (json_dumps v) \<le> n \<Longrightarrow> follow_ok r \<Longrightarrow>
     parse_value n (json_dumps v @ r) = Inr (v, r)"
proof (induction v arbitrary: n r)
  case (JList xs)
  then obtain m where n: "n = Suc m" by (cases n) auto
  show ?case
  proof (cases "xs = []")
    case True
    then show ?thesis using n by (simp add: code_def Let_def)
  next
    case False
    let ?t = "join '', '' (map json_dumps xs) @ CHR '']'' # r"
    have "parse_items m ?t = Inr (xs, r)"
      using JList n False by (intro parse_items_dumps) auto
    moreover have "skip_ws ?t = ?t \<and> \<not> startswith ?t '']''"
      using False json_dumps_head[of "hd xs"] by (cases xs; cases "tl xs") auto
    ultimately show ?thesis using n by (simp add: code_def Let_def)
  qed
next
  case (JObj d)
  then obtain m where n: "n = Suc m" by (cases n) auto
  show ?case
  proof (cases "d = []")
    case True
    then show ?thesis using n by (simp add: code_def Let_def)
  next
    case False
    let ?t = "join '', '' (map (\<lambda>(k, v). dump_str k @ '': '' @ json_dumps v) d) @ CHR ''}'' # r"
    have "parse_members m [] ?t = Inr ([] @ d, r)"
    proof (rule parse_members_dumps)
      fix k x n r
      assume "(k, x) \<in> set d" "length (json_dumps x) \<le> n" "follow_ok r"
      then show "parse_value n (json_dumps x @ r) = Inr (x, r)"
        using JObj.IH[of "(k, x)" x n r] JObj.prems(1) by force
    qed (use False JObj.prems n in simp_all)
    moreover have "skip_ws ?t = ?t \<and> \<not> startswith ?t ''}''"
      using False by (cases d; cases "hd d"; cases "tl d") (auto simp: dump_str_def)
    ultimately show ?thesis using n by (simp add: code_def Let_def)
  qed
next
  case (JInt i)
  then show ?case using parse_value_int[of r "n - 1" i] str_int_head[of i] by (cases n) auto
next
  case (JStr s)
  then show ?case using parse_value_str[of "n - 1" s r] by (cases n) (auto simp: dump_str_def)
next
  case JNull
  then show ?case by (cases n) (auto simp: code_def)
next
  case (JBool b)
  then show ?case by (cases n) (auto simp: code_def split: if_splits)
qed

lemma loads_dumps: "json_ok v \<Longrightarrow> json_loads (json_dumps v) = Inr v"
  using parse_value_dumps[of v "Suc (length (json_dumps v))" "[]"] skip_ws_dumps[of v "[]"]
  by (simp add: json_loads_def skip_ws_def)

lemma dumps_nonempty [simp]: "json_dumps v \<noteq> []"
  using json_dumps_head[of v] by auto

end
