(* ===== verification/Pub_Sub.thy ===== *)
theory Pub_Sub
  imports Worker_Registry Json_Codec
begin

text \<open>
  Model of \<open>orchestration/pub_sub.py\<close>, with the JSON codec of \<open>Json_Codec\<close>. A subscription
  is a generator: \<open>subscribe\<close> maps the messages that arrive, and the exception that ends the
  stream, to the payloads it yields, in order, and to the exception that ends the generator.
  The unsubscription in its \<open>finally\<close> block has no effect on either.
\<close>

definition agent_stream_channel :: "string \<Rightarrow> string" where
  "agent_stream_channel stream_id = ''agent:stream:'' @ stream_id"

definition publish_event :: "'w redis \<Rightarrow> string \<Rightarrow> json \<Rightarrow> ('w, unit) eff" where
  "publish_event api channel p = rd_publish api channel (json_dumps p)"

fun subscribe :: "pubsub_msg list \<Rightarrow> exc option \<Rightarrow> json list \<times> exc option" where
  "subscribe [] end_exc = ([], end_exc)"
| "subscribe (m # ms) end_exc =
     (if msg_type m \<noteq> ''message'' then subscribe ms end_exc
      else (case msg_data m of
          None \<Rightarrow> subscribe ms end_exc
        | Some data \<Rightarrow>
            if data = [] then subscribe ms end_exc
            else (case json_loads data of
                Inr v \<Rightarrow> (case subscribe ms end_exc of (vs, e) \<Rightarrow> (v # vs, e))
              | Inl e \<Rightarrow> if e = JSONDecodeError then subscribe ms end_exc else ([], Some e))))"

text \<open>
  Pub/sub of the server, as documented: PUBLISH sends the message to the subscribers of its
  channel, in order. \<open>log\<close> is the history of published messages a world holds, and
  \<open>delivered\<close> is what reaches the subscriber of one channel.
\<close>

definition redis_pubsub :: "'w redis \<Rightarrow> ('w \<Rightarrow> (string \<times> string) list) \<Rightarrow> bool" where
  "redis_pubsub api log \<longleftrightarrow>
     (\<forall>c d w w'. rd_publish api c d w = (Inr (), w') \<longrightarrow> log w' = log w @ [(c, d)])"

definition delivered :: "string \<Rightarrow> (string \<times> string) list \<Rightarrow> pubsub_msg list" where
  "delivered channel log =
     map (\<lambda>p. \<lparr>msg_type = ''message'', msg_data = Some (snd p)\<rparr>) (filter (\<lambda>p. fst p = channel) log)"

text \<open>Messages that a subscription passes over.\<close>

definition skipped :: "pubsub_msg \<Rightarrow> bool" where
  "skipped m \<longleftrightarrow> msg_type m \<noteq> ''message'' \<or>
     (case msg_data m of None \<Rightarrow> True | Some d \<Rightarrow> d = [] \<or> json_loads d = Inl JSONDecodeError)"

lemma agent_stream_channel_inj [simp]: "agent_stream_channel i = agent_stream_channel j \<longleftrightarrow> i = j"
  by (simp add: agent_stream_channel_def)

lemma subscribe_skipped: "skipped m \<Longrightarrow> subscribe (m # ms) end_exc = subscribe ms end_exc"
  by (auto simp: skipped_def split: option.splits)

lemma subscribe_filter: "subscribe ms end_exc = subscribe (filter (\<lambda>m. \<not> skipped m) ms) end_exc"
proof (induction ms)
  case (Cons m ms)
  show ?case
  proof (cases "skipped m")
    case True
    then show ?thesis using Cons by (simp add: subscribe_skipped del: subscribe.simps)
  next
    case False
    then show ?thesis
      using Cons.IH by (auto simp del: Cons.IH split: option.splits sum.splits prod.splits)
  qed
qed simp

lemma not_skipped_dumps:
  "json_ok v \<Longrightarrow> \<not> skipped \<lparr>msg_type = ''message'', msg_data = Some (json_dumps v)\<rparr>"
  by (simp add: skipped_def loads_dumps)

lemma publish_log:
  assumes "redis_pubsub api log"
    and "forE ps (\<lambda>(i, p). publish_event api (agent_stream_channel i) p) w = (Inr (), w')"
  shows "log w' = log w @ map (\<lambda>(i, p). (agent_stream_channel i, json_dumps p)) ps"
  using assms(2)
proof (induction ps arbitrary: w)
  case (Cons ip ps)
  obtain i p where ip: "ip = (i, p)" by (cases ip)
  from Cons.prems obtain v where v: "publish_event api (agent_stream_channel i) p w = (Inr (), v)"
    and rest: "forE ps (\<lambda>(i, p). publish_event api (agent_stream_channel i) p) v = (Inr (), w')"
    unfolding forE_Cons_Inr ip by auto
  from v have "log v = log w @ [(agent_stream_channel i, json_dumps p)]"
    using assms(1) unfolding redis_pubsub_def publish_event_def by blast
  with Cons.IH[OF rest] ip show ?case by simp
qed simp

lemma subscribe_delivered:
  assumes "\<forall>jp \<in> set ps. json_ok (snd jp)"
  shows "subscribe (delivered (agent_stream_channel i)
      (map (\<lambda>(j, p). (agent_stream_channel j, json_dumps p)) ps)) end_exc
    = (map snd (filter (\<lambda>jp. fst jp = i) ps), end_exc)"
  using assms by (induction ps) (auto simp: delivered_def loads_dumps)

section \<open>Properties\<close>

text \<open>
  C39: The events published with \<open>publish_event\<close> while a subscriber listens are yielded by
  \<open>subscribe\<close> decoded to the published payloads, in the order of publication and without
  those of other streams; confirmations, empty messages and text that is not JSON are passed
  over wherever they arrive, and end nothing.
\<close>

theorem subscribe_yields_published:
  assumes "redis_pubsub api log" and "\<forall>jp \<in> set ps. json_ok (snd jp)"
    and "forE ps (\<lambda>(i, p). publish_event api (agent_stream_channel i) p) w = (Inr (), w')"
    and "filter (\<lambda>m. \<not> skipped m) ms = filter (\<lambda>m. \<not> skipped m)
      (delivered (agent_stream_channel i) (drop (length (log w)) (log w')))"
  shows "subscribe ms end_exc = (map snd (filter (\<lambda>jp. fst jp = i) ps), end_exc)"
  using subscribe_delivered[OF assms(2), of i end_exc] publish_log[OF assms(1,3)]
    subscribe_filter[of ms end_exc] subscribe_filter[of "delivered (agent_stream_channel i) (drop (length (log w)) (log w'))"]
    assms(4) by simp

lemma mem_redis_pubsub: "redis_pubsub mem_redis mem_published"
  by (simp add: redis_pubsub_def)

theorem subscribe_yields_published_witness:
  "subscribe
      [\<lparr>msg_type = ''subscribe'', msg_data = None\<rparr>,
       \<lparr>msg_type = ''message'', msg_data = Some (json_dumps (JInt 1))\<rparr>,
       \<lparr>msg_type = ''message'', msg_data = Some ''<bad>''\<rparr>] None
    = ([JInt 1], None)"
proof -
  let ?ps = "[(''s1'', JInt 1), (''s2'', JInt 2)]"
  let ?pub = "\<lambda>(i, p). publish_event mem_redis (agent_stream_channel i) p"
  let ?ms = "[\<lparr>msg_type = ''subscribe'', msg_data = None\<rparr>,
       \<lparr>msg_type = ''message'', msg_data = Some (json_dumps (JInt 1))\<rparr>,
       \<lparr>msg_type = ''message'', msg_data = Some ''<bad>''\<rparr>]"
  let ?w' = "mem_empty\<lparr>mem_published := [(agent_stream_channel ''s1'', json_dumps (JInt 1)),
    (agent_stream_channel ''s2'', json_dumps (JInt 2))]\<rparr>"
  have ok: "\<forall>jp \<in> set ?ps. json_ok (snd jp)" by simp
  have pub: "forE ?ps ?pub mem_empty = (Inr (), ?w')"
    by (simp add: publish_event_def mem_empty_def)
  have "skipped \<lparr>msg_type = ''message'', msg_data = Some ''<bad>''\<rparr>" by code_simp
  then have ms: "filter (\<lambda>m. \<not> skipped m) ?ms = filter (\<lambda>m. \<not> skipped m)
        (delivered (agent_stream_channel ''s1'') (drop (length (mem_published mem_empty)) (mem_published ?w')))"
    using not_skipped_dumps[of "JInt 1"]
    by (simp add: delivered_def mem_empty_def del: json_dumps.simps)
      (simp add: skipped_def del: json_dumps.simps)
  note yields = subscribe_yields_published[where api = mem_redis and log = mem_published and ps = ?ps
    and w = mem_empty and w' = ?w' and ms = ?ms and i = "''s1''" and end_exc = None]
  have "subscribe ?ms None = (map snd (filter (\<lambda>jp. fst jp = ''s1'') ?ps), None)"
    by (rule yields[OF mem_redis_pubsub ok pub ms])
  also have "map snd (filter (\<lambda>jp. fst jp = ''s1'') ?ps) = [JInt 1]" by simp
  finally show ?thesis .
qed

end
