(* ===== verification/Prompts.thy ===== *)
theory Prompts
  imports Json_Codec
begin

text \<open>
  Model of \<open>models/domain.py\<close> (the enumerations and the records the layers exchange) and of
  \<open>prompts/tools.py\<close> (the tool definitions and the preamble sent to the language model).
  Dates are represented by integers. pydantic's validation of requests is not modelled.
\<close>

section \<open>Domain\<close>

datatype clause_kind =
  GOVERNING_LAW | LIMITATION_OF_LIABILITY | INDEMNIFICATION | TERMINATION
| NON_COMPETE | EXCLUSIVITY | IP_OWNERSHIP | OTHER

fun kind_value :: "clause_kind \<Rightarrow> string" where
  "kind_value GOVERNING_LAW = ''governing_law''"
| "kind_value LIMITATION_OF_LIABILITY = ''limitation_of_liability''"
| "kind_value INDEMNIFICATION = ''indemnification''"
| "kind_value TERMINATION = ''termination''"
| "kind_value NON_COMPETE = ''non_compete''"
| "kind_value EXCLUSIVITY = ''exclusivity''"
| "kind_value IP_OWNERSHIP = ''ip_ownership''"
| "kind_value OTHER = ''other''"

definition all_kinds :: "clause_kind list" where
  "all_kinds = [GOVERNING_LAW, LIMITATION_OF_LIABILITY, INDEMNIFICATION, TERMINATION,
     NON_COMPETE, EXCLUSIVITY, IP_OWNERSHIP, OTHER]"

datatype risk_level = LOW | MEDIUM | HIGH

fun risk_value :: "risk_level \<Rightarrow> string" where
  "risk_value LOW = ''low''"
| "risk_value MEDIUM = ''medium''"
| "risk_value HIGH = ''high''"

instantiation risk_level :: linorder
begin

fun risk_rank :: "risk_level \<Rightarrow> nat" where
  "risk_rank LOW = 0"
| "risk_rank MEDIUM = 1"
| "risk_rank HIGH = 2"

definition less_eq_risk_level :: "risk_level \<Rightarrow> risk_level \<Rightarrow> bool" where
  "less_eq_risk_level a b \<longleftrightarrow> risk_rank a \<le> risk_rank b"

definition less_risk_level :: "risk_level \<Rightarrow> risk_level \<Rightarrow> bool" where
  "less_risk_level a b \<longleftrightarrow> risk_rank a < risk_rank b"

instance
proof
  fix x y :: risk_level
  assume "x \<le> y" "y \<le> x"
  then show "x = y" by (cases x; cases y) (simp_all add: less_eq_risk_level_def)
qed (auto simp: less_eq_risk_level_def less_risk_level_def)

end

text \<open>\<open>Clause\<close> and \<open>Contract\<close>, with the fields that have a default left to it.\<close>

record clause_model =
  cm_id :: string
  cm_contract_id :: string
  cm_category :: clause_kind
  cm_text :: string
  cm_page :: "int option"
  cm_risk_level :: "risk_level option"
  cm_risk_rationale :: "string option"

definition new_clause_model :: "string \<Rightarrow> string \<Rightarrow> clause_kind \<Rightarrow> string \<Rightarrow> clause_model" where
  "new_clause_model i cid cat txt = \<lparr>cm_id = i, cm_contract_id = cid, cm_category = cat, cm_text = txt,
     cm_page = None, cm_risk_level = None, cm_risk_rationale = None\<rparr>"

record contract_model =
  km_id :: string
  km_filename :: string
  km_contract_type :: "string option"
  km_parties :: "string list"
  km_effective_date :: "int option"
  km_ingested_at :: int

definition new_contract_model :: "string \<Rightarrow> string \<Rightarrow> int \<Rightarrow> contract_model" where
  "new_contract_model i fn now = \<lparr>km_id = i, km_filename = fn, km_contract_type = None, km_parties = [],
     km_effective_date = None, km_ingested_at = now\<rparr>"

record review_request =
  rv_contract_id :: string
  rv_focus_categories :: "clause_kind list option"

record followup_question =
  fq_contract_id :: string
  fq_question :: string
  fq_clause_id :: "string option"

datatype event_type = Thinking | Tool_Call | Tool_Result | Final_Answer | Error_Event

fun event_type_value :: "event_type \<Rightarrow> string" where
  "event_type_value Thinking = ''thinking''"
| "event_type_value Tool_Call = ''tool_call''"
| "event_type_value Tool_Result = ''tool_result''"
| "event_type_value Final_Answer = ''final_answer''"
| "event_type_value Error_Event = ''error''"

record agent_event =
  ev_type :: event_type
  ev_content :: string
  ev_tool_name :: "string option"

section \<open>Tools\<close>

record tool_param =
  par_name :: string
  par_description :: string
  par_type :: string
  par_required :: bool

record tool_definition =
  tool_name :: string
  tool_description :: string
  tool_parameters :: "tool_param list"

definition TOOL_DEFINITIONS :: "tool_definition list" where
  "TOOL_DEFINITIONS =
    [\<lparr>tool_name = ''extract_clauses'',
      tool_description =
        ''Extract all clauses of a specific category from the contract. '' @
        ''Use this when the user asks about a particular type of clause '' @
        ''(e.g., '' @ [CHR 0x27] @ ''show me the termination clauses'' @ [CHR 0x27] @ '') or when scanning '' @
        ''the contract for known risk categories.'',
      tool_parameters =
        [\<lparr>par_name = ''contract_id'',
          par_description = ''The ID of the contract to extract from'',
          par_type = ''str'', par_required = True\<rparr>,
         \<lparr>par_name = ''category'',
          par_description =
            ''The clause category to extract. Must be one of: '' @
            ''governing_law, limitation_of_liability, indemnification, '' @
            ''termination, non_compete, exclusivity, ip_ownership, other'',
          par_type = ''str'', par_required = True\<rparr>]\<rparr>,
     \<lparr>tool_name = ''search_similar_clauses'',
      tool_description =
        ''Semantic search across the clause database to find clauses similar '' @
        ''to a given query or example. Useful for finding precedents, '' @
        ''comparing language across contracts, or finding unusual phrasings.'',
      tool_parameters =
        [\<lparr>par_name = ''query'',
          par_description = ''Natural language query or example clause text'',
          par_type = ''str'', par_required = True\<rparr>,
         \<lparr>par_name = ''top_k'',
          par_description = ''How many results to return (default 5)'',
          par_type = ''int'', par_required = False\<rparr>]\<rparr>,
     \<lparr>tool_name = ''score_clause_risk'',
      tool_description =
        ''Score a specific clause for risk level (low/medium/high) and '' @
        ''generate a rationale. Use this once you'' @ [CHR 0x27] @ ''ve identified candidate '' @
        ''clauses worth flagging to the user.'',
      tool_parameters =
        [\<lparr>par_name = ''clause_id'',
          par_description = ''The ID of the clause to score'',
          par_type = ''str'', par_required = True\<rparr>]\<rparr>]"

definition SYSTEM_PREAMBLE :: string where
  "SYSTEM_PREAMBLE = join [CHR 0x0A]
      [''You are LegalLens, a contract review assistant for legal teams.'',
       '''',
       ''Your job:'',
       ''1. When given a contract, identify the 5-10 clauses most worth a senior lawyer'' @ [CHR 0x27] @ ''s attention.'',
       ''2. For each flagged clause, provide a short rationale (1-2 sentences) explaining why it deserves review.'',
       ''3. When the user asks follow-up questions, ground your answers in the actual contract text by citing clause IDs.'',
       '''',
       ''Operating principles:'',
       ''- Be specific. Vague answers like '' @ [CHR 0x22] @ ''the termination clause has some risk'' @ [CHR 0x22] @ '' are useless. Quote the language.'',
       ''- When unsure, surface ambiguity rather than fabricate. It is much better to say '' @ [CHR 0x22] @ ''this clause is unusual, recommend human review'' @ [CHR 0x22] @ '' than to invent a confident-sounding analysis.'',
       ''- You are a tool for lawyers, not a replacement for them. Your output is a starting point for review, not a legal opinion.'',
       '''',
       ''Use the provided tools to access the contract. Never fabricate clause text or IDs that you didn'' @ [CHR 0x27] @ ''t get from a tool result.'']"

lemma kind_value_inj: "kind_value a = kind_value b \<longleftrightarrow> a = b"
  by (cases a; cases b) simp_all

lemma all_kinds_complete: "set all_kinds = UNIV"
  using clause_kind.exhaust by (auto simp: all_kinds_def)

end
