(* ===== verification/Agent_Loop.thy ===== *)
theory Agent_Loop
  imports Prompts
begin

text \<open>
  Model of \<open>agents/loop.py\<close>. The language model service, the tools and the conversions to text
  are the fields of \<open>agent\<close>. \<open>run\<close> is a generator: the state is the pair of the world and the
  list of the events yielded so far. The time stamps of the events and the waiting times
  between retries are not modelled.
\<close>

record tool_call =
  tc_name :: string
  tc_parameters :: "(string \<times> json) list"

record response =
  rs_tool_calls :: "tool_call list"
  rs_text :: string

datatype 'o outcome = Output 'o | Failure string

record 'o tool_result =
  tr_call :: tool_call
  tr_outputs :: "'o outcome list"

record 'o request =
  rq_model :: string
  rq_message :: string
  rq_chat_history :: "json list"
  rq_preamble :: string
  rq_tools :: "tool_definition list"
  rq_tool_results :: "'o tool_result list option"

record ('w, 'o) agent =
  ag_model :: string
  ag_chat :: "'o request \<Rightarrow> ('w, response) eff"
  ag_dispatch :: "string \<Rightarrow> (string \<times> json) list \<Rightarrow> ('w, 'o) eff"
  ag_show :: "'o \<Rightarrow> string"
  ag_show_args :: "(string \<times> json) list \<Rightarrow> string"
  ag_exc_str :: "exc \<Rightarrow> string"

definition MAX_AGENT_ITERATIONS :: nat where "MAX_AGENT_ITERATIONS = 8"
definition MAX_ATTEMPTS :: nat where "MAX_ATTEMPTS = 3"

text \<open>
  \<open>@retry(stop=stop_after_attempt(3))\<close>: an exception other than a cancellation is retried; after
  the last attempt tenacity raises its own exception.
\<close>

fun attempt :: "nat \<Rightarrow> ('w, 'a) eff \<Rightarrow> ('w, 'a) eff" where
  "attempt 0 f = raiseE (LibError ''RetryError'')"
| "attempt (Suc n) f = tryE f (\<lambda>e. attempt n f)"

definition call_cohere ::
    "('w, 'o) agent \<Rightarrow> string \<Rightarrow> json list \<Rightarrow> 'o tool_result list option \<Rightarrow> ('w, response) eff" where
  "call_cohere A message chat_history tool_results =
     attempt MAX_ATTEMPTS (ag_chat A
       \<lparr>rq_model = ag_model A, rq_message = message, rq_chat_history = chat_history,
        rq_preamble = SYSTEM_PREAMBLE, rq_tools = TOOL_DEFINITIONS, rq_tool_results = tool_results\<rparr>)"

definition emit :: "agent_event \<Rightarrow> ('w \<times> agent_event list, unit) eff" where
  "emit ev s = (Inr (), (fst s, snd s @ [ev]))"

definition quietly :: "('w, 'a) eff \<Rightarrow> ('w \<times> agent_event list, 'a) eff" where
  "quietly f s = (case f (fst s) of (r, w) \<Rightarrow> (r, (w, snd s)))"

definition event :: "event_type \<Rightarrow> string \<Rightarrow> agent_event" where
  "event ty content = \<lparr>ev_type = ty, ev_content = content, ev_tool_name = None\<rparr>"

definition tool_event :: "event_type \<Rightarrow> string \<Rightarrow> string \<Rightarrow> agent_event" where
  "tool_event ty name content = \<lparr>ev_type = ty, ev_content = content, ev_tool_name = Some name\<rparr>"

text \<open>The body of the loop over the tool calls; \<open>results\<close> is the list \<open>tool_results\<close>.\<close>

definition run_tool ::
    "('w, 'o) agent \<Rightarrow> tool_call \<Rightarrow> 'o tool_result list
       \<Rightarrow> ('w \<times> agent_event list, 'o tool_result list) eff" where
  "run_tool A tc results =
     bindE (emit (tool_event Tool_Call (tc_name tc) (''Args: '' @ ag_show_args A (tc_parameters tc))))
       (\<lambda>_. tryE
         (bindE (quietly (ag_dispatch A (tc_name tc) (tc_parameters tc)))
           (\<lambda>result. bindE (emit (tool_event Tool_Result (tc_name tc) (take 200 (ag_show A result))))
             (\<lambda>_. retE (results @ [\<lparr>tr_call = tc, tr_outputs = [Output result]\<rparr>]))))
         (\<lambda>e. retE (results @ [\<lparr>tr_call = tc, tr_outputs = [Failure (ag_exc_str A e)]\<rparr>])))"

text \<open>
  The iterations that are left; \<open>chat_history\<close> is a local variable that the code passes on.
\<close>

fun agent_iter ::
    "('w, 'o) agent \<Rightarrow> nat \<Rightarrow> json list \<Rightarrow> string \<Rightarrow> 'o tool_result list option
       \<Rightarrow> ('w \<times> agent_event list, unit) eff" where
  "agent_iter A 0 chat_history message tool_results =
     bindE (emit (event Error_Event (''Agent exceeded '' @ str_nat MAX_AGENT_ITERATIONS
         @ '' iterations without finishing.'')))
       (\<lambda>_. raiseE (AgentLoopError ''max iterations exceeded''))"
| "agent_iter A (Suc n) chat_history message tool_results =
     bindE (tryE (quietly (call_cohere A message chat_history tool_results))
         (\<lambda>e. bindE (emit (event Error_Event (''LLM call failed: '' @ ag_exc_str A e)))
           (\<lambda>_. raiseE (AgentLoopError (ag_exc_str A e)))))
       (\<lambda>response.
         if rs_tool_calls response \<noteq> []
         then bindE (emit (event Thinking
               (''Calling '' @ str_nat (length (rs_tool_calls response)) @ '' tool(s)...'')))
             (\<lambda>_. bindE (loopE (run_tool A) (rs_tool_calls response) [])
               (\<lambda>results. agent_iter A n chat_history [] (Some results)))
         else emit (event Final_Answer (rs_text response)))"

definition agent_run :: "('w, 'o) agent \<Rightarrow> string \<Rightarrow> ('w \<times> agent_event list, unit) eff" where
  "agent_run A user_query = agent_iter A MAX_AGENT_ITERATIONS [] user_query None"

section \<open>Laws\<close>

lemma attempt_outcome:
  "attempt n f w = (Inl e, w') \<Longrightarrow> e = LibError ''RetryError'' \<or> \<not> catchable e"
  by (induction n arbitrary: w) (auto simp: raiseE_apply tryE_def split: prod.splits sum.splits if_splits)

definition progress :: "agent_event \<Rightarrow> bool" where
  "progress ev \<longleftrightarrow> ev_type ev \<in> {Thinking, Tool_Call, Tool_Result}"

definition call_event :: "('w, 'o) agent \<Rightarrow> tool_call \<Rightarrow> agent_event" where
  "call_event A tc = tool_event Tool_Call (tc_name tc) (''Args: '' @ ag_show_args A (tc_parameters tc))"

definition result_event :: "('w, 'o) agent \<Rightarrow> tool_call \<Rightarrow> 'o \<Rightarrow> agent_event" where
  "result_event A tc out = tool_event Tool_Result (tc_name tc) (take 200 (ag_show A out))"

definition thinking_event :: "response \<Rightarrow> agent_event" where
  "thinking_event resp = event Thinking (''Calling '' @ str_nat (length (rs_tool_calls resp)) @ '' tool(s)...'')"

text \<open>The two loop bodies, by the outcomes of the calls they make.\<close>

lemma run_tool_cases:
  "run_tool A tc rs s = (case ag_dispatch A (tc_name tc) (tc_parameters tc) (fst s) of
      (Inr out, w) \<Rightarrow> (Inr (rs @ [\<lparr>tr_call = tc, tr_outputs = [Output out]\<rparr>]),
          (w, snd s @ [call_event A tc, result_event A tc out]))
    | (Inl e, w) \<Rightarrow>
        (if catchable e then Inr (rs @ [\<lparr>tr_call = tc, tr_outputs = [Failure (ag_exc_str A e)]\<rparr>]) else Inl e,
         (w, snd s @ [call_event A tc])))"
  by (simp add: run_tool_def bindE_def emit_def tryE_def quietly_def retE_apply call_event_def result_event_def
      split: prod.splits sum.splits)

lemma agent_iter_Suc:
  "agent_iter A (Suc n) h msg res s = (case call_cohere A msg h res (fst s) of
      (Inl e, w) \<Rightarrow>
        if catchable e then (Inl (AgentLoopError (ag_exc_str A e)),
          (w, snd s @ [event Error_Event (''LLM call failed: '' @ ag_exc_str A e)]))
        else (Inl e, (w, snd s))
    | (Inr resp, w) \<Rightarrow>
        if rs_tool_calls resp = [] then (Inr (), (w, snd s @ [event Final_Answer (rs_text resp)]))
        else (case loopE (run_tool A) (rs_tool_calls resp) [] (w, snd s @ [thinking_event resp]) of
            (Inl e, s2) \<Rightarrow> (Inl e, s2)
          | (Inr rs, s2) \<Rightarrow> agent_iter A n h [] (Some rs) s2))"
  by (simp add: bindE_def emit_def tryE_def quietly_def raiseE_apply thinking_event_def
      split: prod.splits sum.splits)

declare agent_iter.simps(2) [simp del]

lemma run_tool_Inr:
  "run_tool A tc rs s = (Inr rs', s') \<Longrightarrow>
     \<exists>out mid. rs' = rs @ [\<lparr>tr_call = tc, tr_outputs = [out]\<rparr>] \<and> snd s' = snd s @ mid \<and> list_all progress mid"
  by (auto simp: run_tool_cases progress_def call_event_def result_event_def tool_event_def
      split: prod.splits sum.splits if_splits)

lemma run_tool_Inl:
  "run_tool A tc rs s = (Inl e, s') \<Longrightarrow> \<not> catchable e \<and> (\<exists>mid. snd s' = snd s @ mid \<and> list_all progress mid)"
  by (auto simp: run_tool_cases progress_def call_event_def result_event_def tool_event_def
      split: prod.splits sum.splits if_splits)

lemma run_tools_Inr:
  "loopE (run_tool A) tcs rs s = (Inr rs', s') \<Longrightarrow>
     (\<exists>new. rs' = rs @ new \<and> map tr_call new = tcs \<and> list_all (\<lambda>r. length (tr_outputs r) = 1) new)
     \<and> (\<exists>mid. snd s' = snd s @ mid \<and> list_all progress mid)"
proof (induction tcs arbitrary: rs s)
  case (Cons tc tcs)
  then obtain rs1 s1 where 1: "run_tool A tc rs s = (Inr rs1, s1)" and 2: "loopE (run_tool A) tcs rs1 s1 = (Inr rs', s')"
    by (auto split: prod.splits sum.splits)
  obtain out mid where a: "rs1 = rs @ [\<lparr>tr_call = tc, tr_outputs = [out]\<rparr>]" "snd s1 = snd s @ mid" "list_all progress mid"
    using run_tool_Inr[OF 1] by blast
  obtain new mid' where b: "rs' = rs1 @ new" "map tr_call new = tcs" "list_all (\<lambda>r. length (tr_outputs r) = 1) new"
    "snd s' = snd s1 @ mid'" "list_all progress mid'"
    using Cons.IH[OF 2] by blast
  have "\<exists>new. rs' = rs @ new \<and> map tr_call new = tc # tcs \<and> list_all (\<lambda>r. length (tr_outputs r) = 1) new"
    using a(1) b(1-3) by (intro exI[of _ "\<lparr>tr_call = tc, tr_outputs = [out]\<rparr> # new"]) simp
  moreover have "\<exists>mid. snd s' = snd s @ mid \<and> list_all progress mid"
    using a(2,3) b(4,5) by (intro exI[of _ "mid @ mid'"]) simp
  ultimately show ?case by (rule conjI)
qed simp

lemma run_tools_Inl:
  "loopE (run_tool A) tcs rs s = (Inl e, s') \<Longrightarrow>
     \<not> catchable e \<and> (\<exists>mid. snd s' = snd s @ mid \<and> list_all progress mid)"
proof (induction tcs arbitrary: rs s)
  case (Cons tc tcs)
  obtain r s1 where run: "run_tool A tc rs s = (r, s1)" by (rule prod.exhaust)
  show ?case
  proof (cases r)
    case (Inl e1)
    with run Cons.prems have "e1 = e" "s1 = s'" by simp_all
    then show ?thesis using run_tool_Inl[of A tc rs s e s'] run Inl by simp
  next
    case (Inr rs1)
    with run Cons.prems have 2: "loopE (run_tool A) tcs rs1 s1 = (Inl e, s')" by simp
    obtain mid where mid: "snd s1 = snd s @ mid" "list_all progress mid"
      using run_tool_Inr[of A tc rs s rs1 s1] run Inr by auto
    obtain mid' where mid': "\<not> catchable e" "snd s' = snd s1 @ mid'" "list_all progress mid'"
      using Cons.IH[OF 2] by blast
    show ?thesis using mid mid' by (intro conjI exI[of _ "mid @ mid'"]) simp_all
  qed
qed simp

text \<open>How a run ends, with the events it adds.\<close>

definition run_ends :: "exc + unit \<Rightarrow> agent_event list \<Rightarrow> bool" where
  "run_ends r evs \<longleftrightarrow>
     (\<exists>mid. list_all progress mid \<and>
       ((\<exists>txt. r = Inr () \<and> evs = mid @ [event Final_Answer txt])
        \<or> (\<exists>m txt. r = Inl (AgentLoopError m) \<and> evs = mid @ [event Error_Event txt])
        \<or> (\<exists>e. r = Inl e \<and> \<not> catchable e \<and> evs = mid)))"

lemma run_ends_prefix: "list_all progress mid \<Longrightarrow> run_ends r evs \<Longrightarrow> run_ends r (mid @ evs)"
proof -
  assume mid: "list_all progress mid" and "run_ends r evs"
  then obtain mid' where "list_all progress mid'"
    "(\<exists>txt. r = Inr () \<and> evs = mid' @ [event Final_Answer txt])
        \<or> (\<exists>m txt. r = Inl (AgentLoopError m) \<and> evs = mid' @ [event Error_Event txt])
        \<or> (\<exists>e. r = Inl e \<and> \<not> catchable e \<and> evs = mid')"
    unfolding run_ends_def by blast
  then show ?thesis using mid unfolding run_ends_def by (intro exI[of _ "mid @ mid'"]) auto
qed

lemma run_ends_intros:
  "run_ends (Inr ()) [event Final_Answer txt]"
  "run_ends (Inl (AgentLoopError m)) [event Error_Event txt]"
  "\<not> catchable e \<Longrightarrow> run_ends (Inl e) []"
  unfolding run_ends_def by (rule exI[of _ "[]"], auto)+

lemma agent_iter_ends:
  "agent_iter A n h msg res s = (r, s') \<Longrightarrow> \<exists>evs. snd s' = snd s @ evs \<and> run_ends r evs"
proof (induction n arbitrary: msg res s)
  case 0
  then have "r = Inl (AgentLoopError ''max iterations exceeded'')"
    "\<exists>txt. snd s' = snd s @ [event Error_Event txt]"
    by (auto simp: bindE_def emit_def raiseE_apply)
  then show ?case using run_ends_intros(2) by blast
next
  case (Suc n)
  obtain c w1 where call: "call_cohere A msg h res (fst s) = (c, w1)" by (rule prod.exhaust)
  show ?case
  proof (cases c)
    case (Inl e)
    with call Suc.prems show ?thesis
      using run_ends_intros(2) run_ends_intros(3)[of e] by (auto simp: agent_iter_Suc split: if_splits)
  next
    case (Inr resp)
    show ?thesis
    proof (cases "rs_tool_calls resp = []")
      case True
      with Inr call Suc.prems show ?thesis using run_ends_intros(1) by (auto simp: agent_iter_Suc)
    next
      case False
      let ?s1 = "(w1, snd s @ [thinking_event resp])"
      have think: "list_all progress [thinking_event resp]"
        by (simp add: thinking_event_def event_def progress_def)
      obtain t s2 where tools: "loopE (run_tool A) (rs_tool_calls resp) [] ?s1 = (t, s2)" by (rule prod.exhaust)
      have "\<exists>evs. snd s' = snd s2 @ evs \<and> run_ends r evs"
      proof (cases t)
        case (Inl e)
        then have "\<not> catchable e" using run_tools_Inl[of A _ "[]" ?s1 e s2] tools by blast
        then show ?thesis
          using False \<open>c = Inr resp\<close> call tools Inl Suc.prems run_ends_intros(3)[of e] by (auto simp: agent_iter_Suc)
      next
        case rs: (Inr rs)
        have "agent_iter A n h [] (Some rs) s2 = (r, s')"
          using False Inr call tools rs Suc.prems by (simp add: agent_iter_Suc)
        from Suc.IH[OF this] show ?thesis .
      qed
      moreover obtain mid where "snd s2 = (snd s @ [thinking_event resp]) @ mid" "list_all progress mid"
        using run_tools_Inl[of A _ "[]" ?s1 _ s2] run_tools_Inr[of A _ "[]" ?s1 _ s2] tools
        by (cases t) fastforce+
      ultimately obtain evs where "snd s' = snd s @ ((thinking_event resp # mid) @ evs)"
        "run_ends r evs" "list_all progress (thinking_event resp # mid)"
        using think by auto
      then show ?thesis using run_ends_prefix by blast
    qed
  qed
qed

text \<open>The number of requests, for a world that counts them.\<close>

definition counts_chats :: "('w, 'o) agent \<Rightarrow> ('w \<Rightarrow> nat) \<Rightarrow> bool" where
  "counts_chats A cnt \<longleftrightarrow>
     (\<forall>rq w. cnt (snd (ag_chat A rq w)) = Suc (cnt w))
   \<and> (\<forall>name args w. cnt (snd (ag_dispatch A name args w)) = cnt w)"

lemma attempt_count:
  "(\<And>w. cnt (snd (f w)) = Suc (cnt w)) \<Longrightarrow> cnt (snd (attempt n f w)) \<le> cnt w + n"
proof (induction n arbitrary: w)
  case (Suc n)
  obtain r w1 where f: "f w = (r, w1)" by (rule prod.exhaust)
  have c: "cnt w1 = Suc (cnt w)" using Suc.prems[of w] f by simp
  then show ?case using Suc.IH[OF Suc.prems, of w1] f by (cases r) (auto simp: tryE_def)
qed (simp add: raiseE_apply)

lemma run_tools_count:
  "counts_chats A cnt \<Longrightarrow> cnt (fst (snd (loopE (run_tool A) tcs rs s))) = cnt (fst s)"
proof (induction tcs arbitrary: rs s)
  case (Cons tc tcs)
  obtain r w1 where d: "ag_dispatch A (tc_name tc) (tc_parameters tc) (fst s) = (r, w1)" by (rule prod.exhaust)
  then have w1: "cnt w1 = cnt (fst s)" using Cons.prems unfolding counts_chats_def by (metis snd_conv)
  obtain r' s1 where run: "run_tool A tc rs s = (r', s1)" by (rule prod.exhaust)
  then have "fst s1 = w1" using d by (auto simp: run_tool_cases split: sum.splits)
  then show ?case using run w1 Cons.IH[OF Cons.prems] by (cases r') simp_all
qed simp

lemma agent_iter_count:
  assumes "counts_chats A cnt"
  shows "cnt (fst (snd (agent_iter A n h msg res s))) \<le> cnt (fst s) + n * MAX_ATTEMPTS"
proof (induction n arbitrary: msg res s)
  case 0
  then show ?case by (simp add: bindE_def emit_def raiseE_apply)
next
  case (Suc n)
  obtain c w1 where call: "call_cohere A msg h res (fst s) = (c, w1)" by (rule prod.exhaust)
  have "cnt (snd (call_cohere A msg h res (fst s))) \<le> cnt (fst s) + MAX_ATTEMPTS"
    unfolding call_cohere_def by (rule attempt_count) (use assms in \<open>simp add: counts_chats_def\<close>)
  then have w1: "cnt w1 \<le> cnt (fst s) + MAX_ATTEMPTS" using call by simp
  show ?case
  proof (cases c)
    case (Inl e)
    then show ?thesis using call w1 by (simp add: agent_iter_Suc)
  next
    case (Inr resp)
    show ?thesis
    proof (cases "rs_tool_calls resp = []")
      case True
      with Inr call w1 show ?thesis by (simp add: agent_iter_Suc)
    next
      case False
      let ?s1 = "(w1, snd s @ [thinking_event resp])"
      obtain t s2 where tools: "loopE (run_tool A) (rs_tool_calls resp) [] ?s1 = (t, s2)" by (rule prod.exhaust)
      have "cnt (fst s2) = cnt w1"
        using run_tools_count[OF assms, of "rs_tool_calls resp" "[]" ?s1] tools by simp
      moreover have "cnt (fst (snd (agent_iter A n h [] (Some rs) s2))) \<le> cnt (fst s2) + n * MAX_ATTEMPTS" for rs
        by (rule Suc.IH)
      ultimately have "cnt (fst (snd (agent_iter A n h [] (Some rs) s2))) \<le> cnt (fst s) + Suc n * MAX_ATTEMPTS" for rs
        using w1 by (metis add.assoc add_le_mono1 mult_Suc order_trans)
      then show ?thesis
        using False Inr call tools w1 \<open>cnt (fst s2) = cnt w1\<close> by (cases t) (simp_all add: agent_iter_Suc)
    qed
  qed
qed

section \<open>Properties\<close>

text \<open>
  C36: A run always ends and tells its consumer how: its last event is the final answer when it
  returns and an error when it raises \<open>AgentLoopError\<close>; the only other way to end is a
  cancellation that passes through. Before the last event there are only thinking, tool call
  and tool result events.
\<close>

theorem agent_run_outcome:
  assumes "agent_run A q (w, evs0) = (r, (w', evs))"
  shows "\<exists>mid end. evs = evs0 @ mid @ end
    \<and> (\<forall>ev \<in> set mid. ev_type ev \<in> {Thinking, Tool_Call, Tool_Result})
    \<and> ((r = Inr () \<and> map ev_type end = [Final_Answer])
       \<or> (\<exists>m. r = Inl (AgentLoopError m) \<and> map ev_type end = [Error_Event])
       \<or> (\<exists>e. r = Inl e \<and> \<not> catchable e \<and> end = []))"
proof -
  obtain new where "evs = evs0 @ new" "run_ends r new"
    using agent_iter_ends[OF assms[unfolded agent_run_def]] by auto
  then obtain mid where "list_all progress mid"
    "(\<exists>txt. r = Inr () \<and> new = mid @ [event Final_Answer txt])
        \<or> (\<exists>m txt. r = Inl (AgentLoopError m) \<and> new = mid @ [event Error_Event txt])
        \<or> (\<exists>e. r = Inl e \<and> \<not> catchable e \<and> new = mid @ [])" "evs = evs0 @ new"
    unfolding run_ends_def by auto
  moreover from this(1) have "\<forall>ev \<in> set mid. ev_type ev \<in> {Thinking, Tool_Call, Tool_Result}"
    by (simp add: list_all_iff progress_def)
  moreover have "map ev_type [event ty content] = [ty]" for ty content by (simp add: event_def)
  ultimately show ?thesis by metis
qed

text \<open>An agent for the witnesses: the model asks for one tool, then answers; the tool fails.\<close>

definition demo_agent :: "(nat, nat) agent" where
  "demo_agent =
    \<lparr>ag_model = ''command-r-plus'',
     ag_chat = (\<lambda>rq n. (Inr (case rq_tool_results rq of
         None \<Rightarrow> \<lparr>rs_tool_calls = [\<lparr>tc_name = ''nope'', tc_parameters = []\<rparr>], rs_text = []\<rparr>
       | Some rs \<Rightarrow> \<lparr>rs_tool_calls = [], rs_text = ''done''\<rparr>), Suc n)),
     ag_dispatch = (\<lambda>name args n. (Inl (ValueError ''unknown tool''), n)),
     ag_show = (\<lambda>out. []), ag_show_args = (\<lambda>args. ''{}''), ag_exc_str = (\<lambda>e. ''failed'')\<rparr>"

definition demo_events :: "agent_event list" where
  "demo_events = [event Thinking (''Calling '' @ str_nat 1 @ '' tool(s)...''),
     tool_event Tool_Call ''nope'' ''Args: {}'', event Final_Answer ''done'']"

lemma demo_call:
  "call_cohere demo_agent msg h None n
     = (Inr \<lparr>rs_tool_calls = [\<lparr>tc_name = ''nope'', tc_parameters = []\<rparr>], rs_text = []\<rparr>, Suc n)"
  "call_cohere demo_agent msg h (Some rs) n = (Inr \<lparr>rs_tool_calls = [], rs_text = ''done''\<rparr>, Suc n)"
  by (simp_all add: call_cohere_def MAX_ATTEMPTS_def numeral_eq_Suc tryE_def demo_agent_def)

lemma demo_tool:
  "run_tool demo_agent \<lparr>tc_name = ''nope'', tc_parameters = []\<rparr> rs s
     = (Inr (rs @ [\<lparr>tr_call = \<lparr>tc_name = ''nope'', tc_parameters = []\<rparr>, tr_outputs = [Failure ''failed'']\<rparr>]),
        (fst s, snd s @ [tool_event Tool_Call ''nope'' ''Args: {}'']))"
  by (simp add: run_tool_cases call_event_def demo_agent_def)

lemma demo_run: "agent_run demo_agent q (0, []) = (Inr (), (2, demo_events))"
  by (simp add: agent_run_def MAX_AGENT_ITERATIONS_def numeral_eq_Suc agent_iter_Suc demo_call demo_tool
      demo_events_def thinking_event_def)

theorem agent_run_outcome_witness:
  "\<exists>mid. demo_events = mid @ [event Final_Answer ''done'']
     \<and> (\<forall>ev \<in> set mid. ev_type ev \<in> {Thinking, Tool_Call, Tool_Result})"
proof -
  obtain mid end' where e: "demo_events = [] @ mid @ end'" and
    mid: "\<forall>ev \<in> set mid. ev_type ev \<in> {Thinking, Tool_Call, Tool_Result}" and "map ev_type end' = [Final_Answer]"
    using agent_run_outcome[OF demo_run] by auto
  then obtain x where "end' = [x]" by (auto simp: length_Suc_conv)
  with e have "demo_events = mid @ [x]" by simp
  moreover from this have "x = event Final_Answer ''done''"
    by (metis demo_events_def last_snoc last.simps list.distinct(1))
  ultimately show ?thesis using mid by blast
qed

text \<open>What the loop over the calls yields, and what it hands to the model, from the outcomes of the calls.\<close>

fun outcomes_of :: "('w, 'o) agent \<Rightarrow> 'w \<Rightarrow> tool_call list \<Rightarrow> ((exc + 'o) \<times> 'w) list" where
  "outcomes_of A w [] = []"
| "outcomes_of A w (tc # tcs) = (let x = ag_dispatch A (tc_name tc) (tc_parameters tc) w in x # outcomes_of A (snd x) tcs)"

lemma length_outcomes [simp]: "length (outcomes_of A w tcs) = length tcs"
  by (induction tcs arbitrary: w) (simp_all add: Let_def)

lemma outcomes_nth:
  "i < length tcs \<Longrightarrow> outcomes_of A w tcs ! i
     = ag_dispatch A (tc_name (tcs ! i)) (tc_parameters (tcs ! i)) ((w # map snd (outcomes_of A w tcs)) ! i)"
proof (induction tcs arbitrary: w i)
  case (Cons tc tcs)
  then show ?case by (cases i) (simp_all add: Let_def)
qed simp

definition result_of :: "('w, 'o) agent \<Rightarrow> tool_call \<Rightarrow> exc + 'o \<Rightarrow> 'o tool_result" where
  "result_of A tc r = \<lparr>tr_call = tc, tr_outputs = [case r of Inr out \<Rightarrow> Output out | Inl e \<Rightarrow> Failure (ag_exc_str A e)]\<rparr>"

definition events_of :: "('w, 'o) agent \<Rightarrow> tool_call \<Rightarrow> exc + 'o \<Rightarrow> agent_event list" where
  "events_of A tc r = call_event A tc # (case r of Inr out \<Rightarrow> [result_event A tc out] | Inl e \<Rightarrow> [])"

lemma run_tools_outcomes:
  assumes "\<forall>name args v e v'. ag_dispatch A name args v = (Inl e, v') \<longrightarrow> catchable e"
  shows "loopE (run_tool A) tcs rs (w, evs) = (let xs = outcomes_of A w tcs in
    (Inr (rs @ map2 (\<lambda>tc x. result_of A tc (fst x)) tcs xs),
     (last (w # map snd xs), evs @ concat (map2 (\<lambda>tc x. events_of A tc (fst x)) tcs xs))))"
proof (induction tcs arbitrary: rs w evs)
  case (Cons tc tcs)
  obtain r w1 where x: "ag_dispatch A (tc_name tc) (tc_parameters tc) w = (r, w1)" by (rule prod.exhaust)
  then have "r = Inl e \<Longrightarrow> catchable e" for e using assms by blast
  with x have "run_tool A tc rs (w, evs) = (Inr (rs @ [result_of A tc r]), (w1, evs @ events_of A tc r))"
    by (cases r) (simp_all add: run_tool_cases result_of_def events_of_def)
  then show ?case by (simp add: Cons.IH x Let_def)
qed simp

text \<open>
  C38: When the tools raise only exceptions that \<open>except Exception\<close> catches, the loop over the
  tool calls does not fail, and it reports to the model what the calls did: the calls run one after
  the other, each on the world that the one before has left, and the model gets for each call, in
  order, exactly one result, which is the value that the call returned or, for a call that raised, the
  text of its exception. The consumer gets an event before each call and one after it with
  the first 200 characters of its value, unless it raised.
\<close>

theorem tool_results_complete:
  assumes "\<forall>name args v e v'. ag_dispatch A name args v = (Inl e, v') \<longrightarrow> catchable e"
  shows "\<exists>rs ws evss. loopE (run_tool A) calls [] (w, evs) = (Inr rs, (last ws, evs @ concat evss))
    \<and> length rs = length calls \<and> length evss = length calls \<and> length ws = Suc (length calls) \<and> ws ! 0 = w
    \<and> (\<forall>i < length calls. tr_call (rs ! i) = calls ! i
      \<and> (let tc = calls ! i; before = tool_event Tool_Call (tc_name tc) (''Args: '' @ ag_show_args A (tc_parameters tc)) in
         case ag_dispatch A (tc_name tc) (tc_parameters tc) (ws ! i) of
           (Inr out, w') \<Rightarrow> ws ! Suc i = w' \<and> tr_outputs (rs ! i) = [Output out]
             \<and> evss ! i = [before, tool_event Tool_Result (tc_name tc) (take 200 (ag_show A out))]
         | (Inl e, w') \<Rightarrow> ws ! Suc i = w' \<and> tr_outputs (rs ! i) = [Failure (ag_exc_str A e)]
             \<and> evss ! i = [before]))"
proof -
  let ?xs = "outcomes_of A w calls"
  let ?rs = "map2 (\<lambda>tc x. result_of A tc (fst x)) calls ?xs" and ?evss = "map2 (\<lambda>tc x. events_of A tc (fst x)) calls ?xs"
  have run: "loopE (run_tool A) calls [] (w, evs) = (Inr ?rs, (last (w # map snd ?xs), evs @ concat ?evss))"
    using run_tools_outcomes[OF assms, of calls "[]" w evs] by (simp add: Let_def)
  show ?thesis
  proof (intro exI conjI allI impI)
    fix i assume "i < length calls"
    then show "tr_call (?rs ! i) = calls ! i" by (simp add: result_of_def)
    show "let tc = calls ! i; before = tool_event Tool_Call (tc_name tc) (''Args: '' @ ag_show_args A (tc_parameters tc)) in
         case ag_dispatch A (tc_name tc) (tc_parameters tc) ((w # map snd ?xs) ! i) of
           (Inr out, w') \<Rightarrow> (w # map snd ?xs) ! Suc i = w' \<and> tr_outputs (?rs ! i) = [Output out]
             \<and> ?evss ! i = [before, tool_event Tool_Result (tc_name tc) (take 200 (ag_show A out))]
         | (Inl e, w') \<Rightarrow> (w # map snd ?xs) ! Suc i = w' \<and> tr_outputs (?rs ! i) = [Failure (ag_exc_str A e)]
             \<and> ?evss ! i = [before]"
      using \<open>i < length calls\<close> outcomes_nth[of i calls A w]
      by (cases "?xs ! i"; cases "fst (?xs ! i)")
        (auto simp: Let_def result_of_def events_of_def call_event_def result_event_def)
  qed (use run in simp_all)
qed

definition two_tools_agent :: "(nat, nat) agent" where
  "two_tools_agent = demo_agent\<lparr>ag_dispatch := (\<lambda>name args n.
     if name = ''nope'' then (Inl (ValueError ''unknown tool''), n) else (Inr n, n + 10)),
     ag_show := (\<lambda>out. ''shown'')\<rparr>"

abbreviation call_named :: "string \<Rightarrow> tool_call" where
  "call_named name \<equiv> \<lparr>tc_name = name, tc_parameters = []\<rparr>"

theorem tool_results_complete_witness:
  "\<exists>rs. loopE (run_tool two_tools_agent) [call_named ''a'', call_named ''nope'', call_named ''b''] [] (0, [])
      = (Inr rs, (20, [tool_event Tool_Call ''a'' ''Args: {}'', tool_event Tool_Result ''a'' ''shown'',
          tool_event Tool_Call ''nope'' ''Args: {}'',
          tool_event Tool_Call ''b'' ''Args: {}'', tool_event Tool_Result ''b'' ''shown'']))
    \<and> map tr_outputs rs = [[Output 0], [Failure ''failed''], [Output 10]]"
proof -
  have "\<forall>name args v e v'. ag_dispatch two_tools_agent name args v = (Inl e, v') \<longrightarrow> catchable e"
    by (simp add: two_tools_agent_def)
  from tool_results_complete[OF this, of "[call_named ''a'', call_named ''nope'', call_named ''b'']" 0 "[]"]
  obtain rs ws evss where run: "loopE (run_tool two_tools_agent) [call_named ''a'', call_named ''nope'', call_named ''b''] [] (0, [])
      = (Inr rs, (last ws, concat evss))"
    and len: "length rs = 3" "length evss = 3" "length ws = 4" "ws ! 0 = 0"
    and each: "\<And>i. i < 3 \<Longrightarrow> (let tc = [call_named ''a'', call_named ''nope'', call_named ''b''] ! i;
        before = tool_event Tool_Call (tc_name tc) (''Args: '' @ ag_show_args two_tools_agent (tc_parameters tc)) in
      case ag_dispatch two_tools_agent (tc_name tc) (tc_parameters tc) (ws ! i) of
        (Inr out, w') \<Rightarrow> ws ! Suc i = w' \<and> tr_outputs (rs ! i) = [Output out]
          \<and> evss ! i = [before, tool_event Tool_Result (tc_name tc) (take 200 (ag_show two_tools_agent out))]
      | (Inl e, w') \<Rightarrow> ws ! Suc i = w' \<and> tr_outputs (rs ! i) = [Failure (ag_exc_str two_tools_agent e)]
          \<and> evss ! i = [before])"
    by (force simp: numeral_eq_Suc)
  obtain r0 r1 r2 where rs: "rs = [r0, r1, r2]" using len(1) by (auto simp: numeral_eq_Suc length_Suc_conv)
  obtain e0 e1 e2 where es: "evss = [e0, e1, e2]" using len(2) by (auto simp: numeral_eq_Suc length_Suc_conv)
  obtain w0 w1 w2 w3 where ws: "ws = [w0, w1, w2, w3]" using len(3) by (auto simp: numeral_eq_Suc length_Suc_conv)
  show ?thesis
    using run len(4) each[of 0] each[of 1] each[of 2]
    by (simp add: rs es ws two_tools_agent_def demo_agent_def Let_def)
qed

text \<open>
  C37: A run sends at most 24 requests to the language model, 8 iterations of at most 3 attempts,
  whatever the model and the tools answer.
\<close>

theorem agent_requests_bounded:
  assumes "counts_chats A cnt"
  shows "cnt (fst (snd (agent_run A q (w, evs)))) \<le> cnt w + 24"
  using agent_iter_count[OF assms, of MAX_AGENT_ITERATIONS "[]" q None "(w, evs)"]
  by (simp add: agent_run_def MAX_AGENT_ITERATIONS_def MAX_ATTEMPTS_def)

theorem agent_requests_bounded_witness:
  "fst (snd (agent_run demo_agent ''q'' (0, []))) \<le> 24"
proof -
  have "counts_chats demo_agent (\<lambda>n. n)" by (simp add: counts_chats_def demo_agent_def)
  from agent_requests_bounded[OF this, of "''q''" 0 "[]"] show ?thesis by simp
qed

text \<open>
  After a turn with tool calls the run no longer depends on the user's query: the next
  request has an empty message, an empty history and the tool results only, so two queries
  that got the same tool calls get the same run.
\<close>

lemma agent_forgets_query:
  assumes "call_cohere A q [] None w = (Inr resp, w1)" and "call_cohere A q' [] None w = (Inr resp, w1)"
    and "rs_tool_calls resp \<noteq> []"
  shows "agent_run A q (w, evs) = agent_run A q' (w, evs)
    \<and> agent_run A q (w, evs) = bindE (loopE (run_tool A) (rs_tool_calls resp) [])
        (\<lambda>results. agent_iter A (MAX_AGENT_ITERATIONS - 1) [] [] (Some results))
        (w1, evs @ [thinking_event resp])"
  using assms by (simp add: agent_run_def MAX_AGENT_ITERATIONS_def numeral_eq_Suc agent_iter_Suc bindE_def)

lemma agent_forgets_query_example:
  "agent_run demo_agent ''review contract A'' (0, []) = agent_run demo_agent ''delete everything'' (0, [])"
  by (rule conjunct1[OF agent_forgets_query[OF demo_call(1) demo_call(1)]]) simp

end
