(* ===== verification/Api.thy ===== *)
theory Api
  imports Agent_Loop
begin

text \<open>
  Model of \<open>api/main.py\<close>: the prompts built from the requests and the server-sent events of a
  run. The framework that parses requests and writes the response is not modelled: an endpoint
  is the list of the messages its generator yields and the exception that leaves it.
  \<open>dump\<close> is pydantic's JSON text of an event.
\<close>

record sse =
  sse_event :: string
  sse_data :: string

definition build_review_prompt :: "review_request \<Rightarrow> string" where
  "build_review_prompt rq =
     (let base = ''Please review contract '' @ rv_contract_id rq @ ''. '' @
            ''Identify the 5-10 clauses most worth a senior lawyer'' @ [CHR 0x27] @ ''s attention, '' @
            ''and for each, provide a 1-2 sentence rationale.''
      in case rv_focus_categories rq of
           None \<Rightarrow> base
         | Some cs \<Rightarrow>
             if cs = [] then base
             else base @ '' Focus on these categories: '' @ join '', '' (map kind_value cs) @ ''.'')"

definition build_followup_prompt :: "followup_question \<Rightarrow> string" where
  "build_followup_prompt q =
     (let base = ''User question about contract '' @ fq_contract_id q @ '': '' @ fq_question q
      in case fq_clause_id q of
           None \<Rightarrow> base
         | Some c \<Rightarrow> if c = [] then base else base @ '' (scoped to clause '' @ c @ '')'')"

definition event_message :: "(agent_event \<Rightarrow> string) \<Rightarrow> agent_event \<Rightarrow> sse" where
  "event_message dump ev = \<lparr>sse_event = event_type_value (ev_type ev), sse_data = dump ev\<rparr>"

text \<open>The text of the f-string with the message of the exception put between the quotes.\<close>

definition error_data :: "string \<Rightarrow> string" where
  "error_data m = ''{'' @ [CHR 0x22] @ ''error'' @ [CHR 0x22] @ '': '' @ [CHR 0x22] @ m @ [CHR 0x22] @ ''}''"

fun stream_result ::
    "(agent_event \<Rightarrow> string) \<Rightarrow> (exc + unit) \<times> ('w \<times> agent_event list) \<Rightarrow> sse list \<times> exc option" where
  "stream_result dump (Inl (AgentLoopError m), (w, evs)) =
     (map (event_message dump) evs @ [\<lparr>sse_event = ''error'', sse_data = error_data m\<rparr>], None)"
| "stream_result dump (Inl e, (w, evs)) = (map (event_message dump) evs, Some e)"
| "stream_result dump (Inr _, (w, evs)) = (map (event_message dump) evs, None)"

definition event_stream ::
    "('w, 'o) agent \<Rightarrow> (agent_event \<Rightarrow> string) \<Rightarrow> string \<Rightarrow> 'w \<Rightarrow> sse list \<times> exc option" where
  "event_stream A dump user_query w = stream_result dump (agent_run A user_query (w, []))"

definition review_contract ::
    "('w, 'o) agent \<Rightarrow> (agent_event \<Rightarrow> string) \<Rightarrow> review_request \<Rightarrow> 'w \<Rightarrow> sse list \<times> exc option" where
  "review_contract A dump rq = event_stream A dump (build_review_prompt rq)"

definition follow_up ::
    "('w, 'o) agent \<Rightarrow> (agent_event \<Rightarrow> string) \<Rightarrow> followup_question \<Rightarrow> 'w \<Rightarrow> sse list \<times> exc option" where
  "follow_up A dump q = event_stream A dump (build_followup_prompt q)"

definition health :: "(string \<times> string) list" where
  "health = [(''status'', ''ok'')]"

section \<open>Error messages as JSON\<close>

definition plain_char :: "char \<Rightarrow> bool" where
  "plain_char c \<longleftrightarrow> 32 \<le> code c \<and> code c < 127 \<and> c \<noteq> CHR 0x22 \<and> c \<noteq> CHR 0x5C"

lemma escape_plain: "plain_char c \<Longrightarrow> escape_char c = [c]"
proof -
  assume c: "plain_char c"
  then have "code c \<noteq> 34" "code c \<noteq> 92"
    using code_eq_iff[of c "CHR 0x22"] code_eq_iff[of c "CHR 0x5C"] by (auto simp: plain_char_def code_def)
  then show ?thesis using c by (auto simp: escape_char_def Let_def plain_char_def)
qed

lemma dump_plain: "\<forall>c \<in> set s. plain_char c \<Longrightarrow> dump_str s = CHR 0x22 # s @ [CHR 0x22]"
  unfolding dump_str_def by (induction s) (simp_all add: escape_plain)

lemma error_data_plain:
  assumes "\<forall>c \<in> set m. plain_char c"
  shows "error_data m = json_dumps (JObj [(''error'', JStr m)])"
proof -
  have "\<forall>c \<in> set ''error''. plain_char c" by (simp add: plain_char_def code_def)
  then show ?thesis using dump_plain[OF assms] dump_plain[of "''error''"] by (simp add: error_data_def)
qed

lemma error_data_quote:
  assumes "\<forall>c \<in> set m. plain_char c"
  shows "json_loads (error_data (m @ [CHR 0x22])) = Inl JSONDecodeError"
proof -
  let ?r = "CHR 0x22 # ''}''"
  let ?v = "CHR 0x22 # m @ CHR 0x22 # ?r"
  have err: "concat (map escape_char ''error'') = ''error''" by (simp add: escape_plain plain_char_def code_def)
  have key: "parse_str (length (''error'' @ CHR 0x22 # t)) (''error'' @ CHR 0x22 # t) = Inr (''error'', t)" for t
    using parse_dump_str[of "''error''" t] unfolding err .
  have val: "parse_value (Suc n) ?v = Inr (JStr m, ?r)" for n
    using parse_value_str[of n m ?r] by (simp add: dump_plain[OF assms])
  have mem: "parse_members (Suc (Suc n)) [] (CHR 0x22 # ''error'' @ CHR 0x22 # '': '' @ ?v) = Inl JSONDecodeError" for n
    using key[of "'': '' @ ?v"] val[of n] by (simp add: Let_def)
  have obj: "parse_value (Suc (Suc (Suc n))) (CHR ''{'' # CHR 0x22 # t)
      = (case parse_members (Suc (Suc n)) [] (CHR 0x22 # t) of Inl e \<Rightarrow> Inl e | Inr (d, r) \<Rightarrow> Inr (JObj d, r))"
    for n t by (subst parse_value.simps(2)) (simp add: code_def Let_def del: parse_members.simps)
  have ws: "skip_ws (CHR ''{'' # t) = CHR ''{'' # t" for t by (simp add: is_json_ws_def code_def)
  let ?t = "''error'' @ CHR 0x22 # '': '' @ ?v"
  have text_eq: "error_data (m @ [CHR 0x22]) = CHR ''{'' # CHR 0x22 # ?t" by (simp add: error_data_def)
  show ?thesis
    unfolding json_loads_def text_eq ws list.size add_Suc_right add_0_right obj mem by simp
qed

section \<open>Properties\<close>

text \<open>
  C40: A stream sends the events of the run, in order and each under the name of its type, and
  ends normally unless the run was cancelled. When the agent fails with \<open>AgentLoopError\<close> the
  client gets two error messages in a row, the agent's event and the endpoint's own.
\<close>

theorem stream_events:
  assumes "agent_run A user_query (w, []) = (r, (w', evs))"
    and "event_stream A dump user_query w = (msgs, leaves)"
  shows "take (length evs) msgs = map (event_message dump) evs
    \<and> (leaves = None \<longleftrightarrow> r = Inr () \<or> (\<exists>m. r = Inl (AgentLoopError m)))
    \<and> (\<forall>m. r = Inl (AgentLoopError m) \<longrightarrow>
         map sse_event (drop (length msgs - 2) msgs) = [''error'', ''error''])
    \<and> (r = Inr () \<longrightarrow> sse_event (last msgs) = ''final_answer'')"
proof -
  obtain new where "evs = [] @ new" "run_ends r new"
    using agent_iter_ends[OF assms(1)[unfolded agent_run_def]] by auto
  then have ends: "run_ends r evs" by simp
  have out: "stream_result dump (r, (w', evs)) = (msgs, leaves)" using assms by (simp add: event_stream_def)
  show ?thesis
  proof (cases r)
    case (Inr u)
    then obtain mid content where "evs = mid @ [event Final_Answer content]"
      using ends by (auto simp: run_ends_def)
    then show ?thesis using Inr out by (auto simp: event_message_def event_def)
  next
    case (Inl e)
    show ?thesis
    proof (cases "\<exists>m. e = AgentLoopError m")
      case True
      then obtain m where m: "e = AgentLoopError m" by blast
      then obtain mid content where "evs = mid @ [event Error_Event content]"
        using ends Inl by (auto simp: run_ends_def)
      then show ?thesis using Inl m out by (auto simp: event_message_def event_def)
    next
      case False
      then have "stream_result dump (Inl e, (w', evs)) = (map (event_message dump) evs, Some e)"
        by (cases e) auto
      then show ?thesis using Inl False out by auto
    qed
  qed
qed

theorem stream_events_witness:
  "sse_event (last (fst (event_stream demo_agent (\<lambda>ev. ev_content ev) ''q'' 0))) = ''final_answer''"
proof -
  obtain msgs leaves where out: "event_stream demo_agent (\<lambda>ev. ev_content ev) ''q'' 0 = (msgs, leaves)"
    by (rule prod.exhaust)
  from stream_events[OF demo_run out] show ?thesis by (simp add: out)
qed

text \<open>
  The data of the endpoint's error message is the JSON object with the message of the
  exception when that consists of plain printable characters; a quotation mark after
  them makes it invalid JSON.
\<close>

lemma error_data_json:
  assumes "\<forall>c \<in> set m. plain_char c"
  shows "json_loads (error_data m) = Inr (JObj [(''error'', JStr m)])
    \<and> json_loads (error_data (m @ [CHR 0x22])) = Inl JSONDecodeError"
proof
  show "json_loads (error_data m) = Inr (JObj [(''error'', JStr m)])"
    unfolding error_data_plain[OF assms] by (rule loads_dumps) (simp add: dict_ok_def)
  show "json_loads (error_data (m @ [CHR 0x22])) = Inl JSONDecodeError"
    by (rule error_data_quote[OF assms])
qed

lemma error_data_json_example:
  "json_loads (error_data ''max iterations exceeded'') = Inr (JObj [(''error'', JStr ''max iterations exceeded'')])
   \<and> json_loads (error_data (''max iterations exceeded'' @ [CHR 0x22])) = Inl JSONDecodeError"
  by (rule error_data_json) (simp add: plain_char_def code_def)

end
