(* ===== verification/Database.thy ===== *)
theory Database
  imports Py_Str
begin

text \<open>
  The tables of \<open>scripts/init_db.sql\<close> that the program reads and writes, the SQL statements
  as functions on them, and the transactions of \<open>db.py\<close>.

  PostgreSQL and SQLAlchemy are not part of the repository. A statement, a commit and a
  rollback can raise: \<open>db_faults\<close> lists what the next calls do (\<open>None\<close>: the call succeeds, the
  empty list: all succeed). Within a session the statements work on the tables of the
  transaction, which become permanent at the commit; after an exception the tables are
  those from before the session. A commit that raises is one that the server has not performed:
  a connection that breaks between the commit and its acknowledgement, and a cancellation while a
  committed session is closed, are outside the model.
\<close>

record clause_row =
  cr_clause_id :: string
  cr_contract_id :: string
  cr_category :: string
  cr_text :: string
  cr_page :: "int option"
  cr_risk_level :: "string option"
  cr_risk_rationale :: "string option"
  cr_vector_id :: "string option"
  cr_embedded_at :: "int option"

record contract_row =
  ct_contract_id :: string
  ct_filename :: string
  ct_ingested_at :: int

record tables =
  clause_rows :: "clause_row list"
  contract_rows :: "contract_row list"

record db =
  db_tables :: tables
  db_faults :: "exc option list"

definition db_call :: "(tables \<Rightarrow> 'a \<times> tables) \<Rightarrow> (db, 'a) eff" where
  "db_call f d = (case db_faults d of
      Some e # es \<Rightarrow> (Inl e, d\<lparr>db_faults := es\<rparr>)
    | _ \<Rightarrow> (case f (db_tables d) of
          (a, t) \<Rightarrow> (Inr a, d\<lparr>db_tables := t, db_faults := tl (db_faults d)\<rparr>)))"

text \<open>
  \<open>async with session() as s: body\<close>. Whatever ends the body other than normally, also a
  cancellation, which the \<open>except\<close> clause does not catch, closes the session without a commit.
\<close>

definition session :: "(db, 'a) eff \<Rightarrow> (db, 'a) eff" where
  "session body d =
     (case bindE body (\<lambda>a. bindE (db_call (\<lambda>t. ((), t))) (\<lambda>_. retE a)) d of
        (Inr a, d') \<Rightarrow> (Inr a, d')
      | (Inl e, d') \<Rightarrow>
          let d'' = d'\<lparr>db_tables := db_tables d\<rparr>
          in if catchable e
             then (case db_call (\<lambda>t. ((), t)) d'' of
                 (Inl e', d3) \<Rightarrow> (Inl e', d3) | (Inr _, d3) \<Rightarrow> (Inl e, d3))
             else (Inl e, d''))"

section \<open>Statements\<close>

text \<open>
  \<open>SELECT ... FROM clauses WHERE contract_id = :cid AND category = :cat ORDER BY clause_id\<close>.
  (The ids of one contract share their prefix and differ in hexadecimal digits, which the
  collation orders as their characters.)
\<close>

definition select_category :: "string \<Rightarrow> string \<Rightarrow> tables \<Rightarrow> clause_row list" where
  "select_category cid cat t =
     sort_key cr_clause_id (filter (\<lambda>r. cr_contract_id r = cid \<and> cr_category r = cat) (clause_rows t))"

text \<open>\<open>SELECT ... FROM clauses WHERE clause_id = ANY(:ids)\<close>\<close>

definition select_ids :: "string list \<Rightarrow> tables \<Rightarrow> clause_row list" where
  "select_ids ids t = filter (\<lambda>r. cr_clause_id r \<in> set ids) (clause_rows t)"

text \<open>\<open>UPDATE clauses SET risk_level = :lvl, risk_rationale = :why WHERE clause_id = :id\<close>\<close>

definition update_risk :: "string \<Rightarrow> string \<Rightarrow> string \<Rightarrow> tables \<Rightarrow> tables" where
  "update_risk lvl why i t = t\<lparr>clause_rows :=
     map (\<lambda>r. if cr_clause_id r = i then r\<lparr>cr_risk_level := Some lvl, cr_risk_rationale := Some why\<rparr> else r)
       (clause_rows t)\<rparr>"

text \<open>\<open>INSERT INTO contracts ... ON CONFLICT (contract_id) DO UPDATE\<close>; \<open>now\<close> is \<open>NOW()\<close>.\<close>

definition upsert_contract :: "string \<Rightarrow> string \<Rightarrow> int \<Rightarrow> tables \<Rightarrow> tables" where
  "upsert_contract cid fn now t = t\<lparr>contract_rows :=
     (if \<exists>r \<in> set (contract_rows t). ct_contract_id r = cid
      then map (\<lambda>r. if ct_contract_id r = cid then r\<lparr>ct_filename := fn, ct_ingested_at := now\<rparr> else r)
             (contract_rows t)
      else contract_rows t @ [\<lparr>ct_contract_id = cid, ct_filename = fn, ct_ingested_at = now\<rparr>])\<rparr>"

text \<open>
  \<open>INSERT INTO clauses (clause_id, contract_id, category, text, vector_id, embedded_at) ...
  ON CONFLICT (contract_id, clause_id) DO UPDATE SET text, vector_id, embedded_at\<close>
\<close>

definition upsert_clause :: "string \<Rightarrow> string \<Rightarrow> string \<Rightarrow> string \<Rightarrow> string \<Rightarrow> int \<Rightarrow> tables \<Rightarrow> tables" where
  "upsert_clause i cid cat txt vid emb t = t\<lparr>clause_rows :=
     (if \<exists>r \<in> set (clause_rows t). cr_contract_id r = cid \<and> cr_clause_id r = i
      then map (\<lambda>r. if cr_contract_id r = cid \<and> cr_clause_id r = i
             then r\<lparr>cr_text := txt, cr_vector_id := Some vid, cr_embedded_at := Some emb\<rparr> else r)
             (clause_rows t)
      else clause_rows t @
        [\<lparr>cr_clause_id = i, cr_contract_id = cid, cr_category = cat, cr_text = txt, cr_page = None,
          cr_risk_level = None, cr_risk_rationale = None, cr_vector_id = Some vid,
          cr_embedded_at = Some emb\<rparr>])\<rparr>"

text \<open>The primary keys of the schema.\<close>

definition tables_ok :: "tables \<Rightarrow> bool" where
  "tables_ok t \<longleftrightarrow> distinct (map ct_contract_id (contract_rows t))
     \<and> distinct (map (\<lambda>r. (cr_contract_id r, cr_clause_id r)) (clause_rows t))"

definition clause_key :: "clause_row \<Rightarrow> string \<times> string" where
  "clause_key r = (cr_contract_id r, cr_clause_id r)"

definition clause_view :: "tables \<Rightarrow> string \<times> string \<rightharpoonup> clause_row" where
  "clause_view t = map_of (map (\<lambda>r. (clause_key r, r)) (clause_rows t))"

section \<open>Laws\<close>

lemma db_call_result:
  "fst (db_call f d) = Inr a \<Longrightarrow> a = fst (f (db_tables d)) \<and> db_tables (snd (db_call f d)) = snd (f (db_tables d))"
  by (auto simp: db_call_def split: list.splits option.splits prod.splits)

lemma db_call_fault: "fst (db_call f d) = Inl e \<Longrightarrow> db_tables (snd (db_call f d)) = db_tables d"
  by (auto simp: db_call_def split: list.splits option.splits prod.splits)

lemma db_call_Inr:
  "db_call f d = (Inr a, d') \<Longrightarrow> a = fst (f (db_tables d)) \<and> db_tables d' = snd (f (db_tables d))"
  using db_call_result[of f d a] by simp

lemma session_Inl:
  "session body d = (Inl e, d') \<Longrightarrow> db_tables d' = db_tables d"
  using db_call_fault
  by (auto simp: session_def Let_def db_call_def split: prod.splits sum.splits if_splits list.splits option.splits)

lemma session_Inr:
  assumes "session body d = (Inr a, d')"
  obtains d1 where "body d = (Inr a, d1)" "db_tables d' = db_tables d1"
proof -
  have "bindE body (\<lambda>a. bindE (db_call (\<lambda>t. ((), t))) (\<lambda>_. retE a)) d = (Inr a, d')"
    using assms by (auto simp: session_def Let_def split: prod.splits sum.splits if_splits)
  then obtain d1 where "body d = (Inr a, d1)" "db_call (\<lambda>t. ((), t)) d1 = (Inr (), d')"
    by (auto simp: bindE_Inr_iff retE_apply)
  then show thesis using that db_call_Inr[of "\<lambda>t. ((), t)" d1 "()" d'] by simp
qed

lemma map_of_clause_rows:
  "distinct (map clause_key rs) \<Longrightarrow>
     map_of (map (\<lambda>r. (clause_key r, r)) (map (\<lambda>r. if clause_key r = k then f r else r) rs))
     = (\<lambda>j. if j = k then map_option f (map_of (map (\<lambda>r. (clause_key r, r)) rs) k)
            else map_of (map (\<lambda>r. (clause_key r, r)) rs) j)"
  if "\<And>r. clause_key (f r) = clause_key r"
proof (induction rs)
  case (Cons r rs)
  have "map_of (map (\<lambda>r. (clause_key r, r)) rs) (clause_key r) = None"
    using Cons.prems by (force simp: map_of_eq_None_iff)
  with Cons that show ?case by (auto simp: fun_eq_iff)
qed (simp add: fun_eq_iff)


definition updated_clause :: "string \<Rightarrow> string \<Rightarrow> int \<Rightarrow> clause_row \<Rightarrow> clause_row" where
  "updated_clause txt vid emb r = r\<lparr>cr_text := txt, cr_vector_id := Some vid, cr_embedded_at := Some emb\<rparr>"

definition new_clause :: "string \<Rightarrow> string \<Rightarrow> string \<Rightarrow> string \<Rightarrow> string \<Rightarrow> int \<Rightarrow> clause_row" where
  "new_clause i cid cat txt vid emb =
     \<lparr>cr_clause_id = i, cr_contract_id = cid, cr_category = cat, cr_text = txt, cr_page = None,
      cr_risk_level = None, cr_risk_rationale = None, cr_vector_id = Some vid, cr_embedded_at = Some emb\<rparr>"

lemma clause_view_None: "clause_view t (cid, i) = None \<longleftrightarrow>
    \<not> (\<exists>r \<in> set (clause_rows t). cr_contract_id r = cid \<and> cr_clause_id r = i)"
  by (auto simp: clause_view_def map_of_eq_None_iff clause_key_def image_image)

lemma tables_ok_keys:
  "tables_ok t \<longleftrightarrow> distinct (map ct_contract_id (contract_rows t)) \<and> distinct (map clause_key (clause_rows t))"
  by (simp add: tables_ok_def clause_key_def[abs_def])

lemma clause_key_simps [simp]:
  "clause_key (updated_clause txt vid emb r) = clause_key r"
  "clause_key (new_clause i cid cat txt vid emb) = (cid, i)"
  by (simp_all add: clause_key_def updated_clause_def new_clause_def)

lemma upsert_clause_alt:
  "upsert_clause i cid cat txt vid emb t = t\<lparr>clause_rows :=
     (if clause_view t (cid, i) \<noteq> None
      then map (\<lambda>r. if clause_key r = (cid, i) then updated_clause txt vid emb r else r) (clause_rows t)
      else clause_rows t @ [new_clause i cid cat txt vid emb])\<rparr>"
  by (simp add: upsert_clause_def clause_view_None clause_key_def updated_clause_def new_clause_def)

lemma map_clause_key_if: "map clause_key (map (\<lambda>r. if clause_key r = k then f r else r) rs) = map clause_key rs"
  if "\<And>r. clause_key (f r) = clause_key r"
  using that by (induction rs) auto

lemma upsert_clause_ok: "tables_ok t \<Longrightarrow> tables_ok (upsert_clause i cid cat txt vid emb t)"
proof -
  assume ok: "tables_ok t"
  show ?thesis
  proof (cases "clause_view t (cid, i) = None")
    case True
    then have "(cid, i) \<notin> clause_key ` set (clause_rows t)"
      by (auto simp: clause_view_def map_of_eq_None_iff image_image)
    with True ok show ?thesis by (simp add: upsert_clause_alt tables_ok_keys)
  next
    case False
    with ok show ?thesis
      by (simp add: upsert_clause_alt tables_ok_keys map_clause_key_if del: map_map)
  qed
qed

lemma upsert_clause_view:
  assumes "tables_ok t"
  shows "clause_view (upsert_clause i cid cat txt vid emb t) = (clause_view t)((cid, i) \<mapsto>
    (case clause_view t (cid, i) of None \<Rightarrow> new_clause i cid cat txt vid emb
     | Some r \<Rightarrow> updated_clause txt vid emb r))"
proof (cases "clause_view t (cid, i)")
  case None
  then show ?thesis
    by (auto simp: upsert_clause_alt clause_view_def map_add_def fun_eq_iff split: option.splits)
next
  case (Some r)
  have "distinct (map clause_key (clause_rows t))" using assms by (simp add: tables_ok_keys)
  from map_of_clause_rows[of "updated_clause txt vid emb", OF _ this, of "(cid, i)"] Some show ?thesis
    by (simp add: upsert_clause_alt clause_view_def fun_eq_iff)
qed

lemma upsert_contract_ok: "tables_ok t \<Longrightarrow> tables_ok (upsert_contract cid fn now t)"
proof -
  assume ok: "tables_ok t"
  have "map ct_contract_id (map (\<lambda>r. if ct_contract_id r = cid then r\<lparr>ct_filename := fn, ct_ingested_at := now\<rparr> else r) rs)
      = map ct_contract_id rs" for rs
    by (induction rs) auto
  note keys = this[of "contract_rows t"]
  show ?thesis
  proof (cases "\<exists>r \<in> set (contract_rows t). ct_contract_id r = cid")
    case True
    then show ?thesis
      using ok keys unfolding upsert_contract_def tables_ok_def if_P[OF True] by (simp del: map_map)
  next
    case False
    then show ?thesis using ok by (auto simp: upsert_contract_def tables_ok_def)
  qed
qed

lemma upsert_contract_row:
  "\<exists>r \<in> set (contract_rows (upsert_contract cid fn now t)). ct_contract_id r = cid \<and> ct_filename r = fn"
proof (cases "\<exists>r \<in> set (contract_rows t). ct_contract_id r = cid")
  case True
  then obtain r where r: "r \<in> set (contract_rows t)" "ct_contract_id r = cid" by blast
  then have "r\<lparr>ct_filename := fn, ct_ingested_at := now\<rparr> \<in> set (contract_rows (upsert_contract cid fn now t))"
    using True by (auto simp: upsert_contract_def intro!: rev_image_eqI)
  with r(2) show ?thesis by (intro bexI[of _ "r\<lparr>ct_filename := fn, ct_ingested_at := now\<rparr>"]) simp_all
next
  case False
  then show ?thesis by (auto simp: upsert_contract_def)
qed

lemma upsert_contract_clauses [simp]: "clause_rows (upsert_contract cid fn now t) = clause_rows t"
  by (simp add: upsert_contract_def)

lemma upsert_contract_view [simp]: "clause_view (upsert_contract cid fn now t) = clause_view t"
  by (simp add: clause_view_def)

lemma update_risk_keys: "map clause_key (clause_rows (update_risk lvl why i t)) = map clause_key (clause_rows t)"
  by (simp add: update_risk_def clause_key_def)

section \<open>Properties\<close>

text \<open>
  A session is atomic: when it raises, whether in a statement, at the commit or at the
  rollback, the tables are the ones from before it; when it returns, they are the ones its
  body left.
\<close>

lemma session_atomic:
  "case session body d of
     (Inl e, d') \<Rightarrow> db_tables d' = db_tables d
   | (Inr a, d') \<Rightarrow> fst (body d) = Inr a \<and> db_tables d' = db_tables (snd (body d))"
proof (cases "session body d")
  case (Pair r d')
  show ?thesis
  proof (cases r)
    case (Inl e)
    with Pair session_Inl[of body d e d'] show ?thesis by simp
  next
    case (Inr a)
    with Pair obtain d1 where "body d = (Inr a, d1)" "db_tables d' = db_tables d1"
      using session_Inr[of body d a d'] by blast
    with Pair Inr show ?thesis by simp
  qed
qed

end
