(* ===== verification/Vector_Store.thy ===== *)
theory Vector_Store
  imports Config Json_Codec
begin

text \<open>
  Model of \<open>ingestion/pinecone_writer.py\<close>: the local index (a matrix of vectors with a parallel
  manifest, and its two files), the wrapper of the Pinecone service, and the choice between
  them. The locale \<open>vector_store\<close> is the \<open>VectorStore\<close> protocol that the ingestion and the
  retrieval rely on; it is interpreted on the local index.

  numpy is not part of the repository: \<open>np_f32\<close> is the conversion to the element type of the
  matrix and \<open>np_dot\<close> the inner product that \<open>@\<close> computes for each row. What the code relies
  on beside them is shape checking, which is modelled: an inhomogeneous block, a block or a
  query of another width and a row that cannot be broadcast raise \<open>ValueError\<close>. Scores are
  numbers without NaN.
\<close>

record ('n, 'f, 's) numpy =
  np_f32 :: "'n \<Rightarrow> 'f"
  np_dot :: "'f list \<Rightarrow> 'f list \<Rightarrow> 's"

type_synonym metadata = "(string \<times> json) list"

record 'n vec_record =
  rec_id :: string
  rec_values :: "'n list"
  rec_metadata :: "metadata option"

record entry =
  entry_id :: string
  entry_metadata :: metadata

record 'f local_index =
  vec_dim :: nat
  vectors :: "'f list list"
  manifest :: "entry list"

record 'f disk =
  vectors_file :: "(nat \<times> 'f list list) option"
  manifest_file :: "string option"

section \<open>The local index\<close>

definition entry_json :: "entry \<Rightarrow> json" where
  "entry_json e = JObj [(''id'', JStr (entry_id e)), (''metadata'', JObj (entry_metadata e))]"

text \<open>The manifest is only ever written by \<open>persist\<close>; another shape is outside the model.\<close>

definition json_entry :: "json \<Rightarrow> entry list \<Rightarrow> exc + entry list" where
  "json_entry j acc = (case (json_index j ''id'', json_index j ''metadata'') of
      (Inr (JStr i), Inr (JObj m)) \<Rightarrow> Inr (acc @ [\<lparr>entry_id = i, entry_metadata = m\<rparr>])
    | _ \<Rightarrow> Inl unmodelled)"

definition init_index :: "nat \<Rightarrow> 'f disk \<Rightarrow> exc + 'f local_index" where
  "init_index dimension d =
     (case (vectors_file d, manifest_file d) of
        (Some (n, vs), Some txt) \<Rightarrow>
          bindX (bindX (json_loads txt) json_iter)
            (\<lambda>js. bindX (loopX json_entry js [])
              (\<lambda>m. Inr \<lparr>vec_dim = n, vectors = vs, manifest = m\<rparr>))
      | _ \<Rightarrow> Inr \<lparr>vec_dim = dimension, vectors = [], manifest = []\<rparr>)"

definition persist :: "'f local_index \<Rightarrow> 'f disk \<Rightarrow> 'f disk" where
  "persist ix d = d\<lparr>vectors_file := Some (vec_dim ix, vectors ix),
     manifest_file := Some (json_dumps (JList (map entry_json (manifest ix))))\<rparr>"

definition ids_existing :: "entry list \<Rightarrow> (string, nat) pydict" where
  "ids_existing m = fold (\<lambda>(i, e) d. dict_set d (entry_id e) i) (enumerate 0 m) []"

text \<open>\<open>vectors[i] = v\<close>: the row must exist, and a vector of length one is broadcast.\<close>

definition set_row :: "nat \<Rightarrow> 'f list \<Rightarrow> 'f local_index \<Rightarrow> exc + 'f local_index" where
  "set_row i v ix =
     (if length (vectors ix) \<le> i then Inl IndexError
      else if length v = vec_dim ix then Inr (ix\<lparr>vectors := (vectors ix)[i := v]\<rparr>)
      else if length v = 1 then Inr (ix\<lparr>vectors := (vectors ix)[i := replicate (vec_dim ix) (hd v)]\<rparr>)
      else Inl (ValueError ''could not broadcast input array''))"

definition record_entry :: "'n vec_record \<Rightarrow> entry" where
  "record_entry r = \<lparr>entry_id = rec_id r,
     entry_metadata = (case rec_metadata r of None \<Rightarrow> [] | Some m \<Rightarrow> m)\<rparr>"

definition upsert_step ::
    "('n, 'f, 's) numpy \<Rightarrow> (string, nat) pydict \<Rightarrow> 'n vec_record
       \<Rightarrow> 'n list list \<times> entry list \<Rightarrow> ('f local_index, 'n list list \<times> entry list) eff" where
  "upsert_step np ids r new ix =
     (case dict_get ids (rec_id r) of
        Some i \<Rightarrow>
          (case set_row i (map (np_f32 np) (rec_values r)) ix of
             Inl x \<Rightarrow> (Inl x, ix)
           | Inr ix' \<Rightarrow> (Inr new, ix'\<lparr>manifest := (manifest ix')[i := record_entry r]\<rparr>))
      | None \<Rightarrow> (Inr (fst new @ [rec_values r], snd new @ [record_entry r]), ix))"

definition append_block :: "'f list list \<Rightarrow> entry list \<Rightarrow> 'f local_index \<Rightarrow> exc + 'f local_index" where
  "append_block block es ix =
     (if \<not> (\<forall>v \<in> set block. length v = length (hd block)) then Inl (ValueError ''inhomogeneous shape'')
      else if length (hd block) \<noteq> vec_dim ix then Inl (ValueError ''dimensions must match'')
      else Inr (ix\<lparr>vectors := vectors ix @ block, manifest := manifest ix @ es\<rparr>))"

definition local_upsert ::
    "('n, 'f, 's) numpy \<Rightarrow> 'n vec_record list \<Rightarrow> ('f local_index \<times> 'f disk, unit) eff" where
  "local_upsert np rs s =
     (case loopE (upsert_step np (ids_existing (manifest (fst s)))) rs ([], []) (fst s) of
        (Inl x, ix) \<Rightarrow> (Inl x, (ix, snd s))
      | (Inr (new_vecs, new_entries), ix) \<Rightarrow>
          if new_vecs = [] then (Inr (), (ix, persist ix (snd s)))
          else (case append_block (map (map (np_f32 np)) new_vecs) new_entries ix of
              Inl x \<Rightarrow> (Inl x, (ix, snd s))
            | Inr ix' \<Rightarrow> (Inr (), (ix', persist ix' (snd s)))))"

text \<open>
  Python's \<open>==\<close> on JSON values: \<open>True\<close> is \<open>1\<close>, and the order of the members of an object
  does not count.
\<close>

fun json_norm :: "json \<Rightarrow> json" where
  "json_norm (JBool b) = JInt (if b then 1 else 0)"
| "json_norm (JList xs) = JList (map json_norm xs)"
| "json_norm (JObj d) = JObj (sort_key fst (map (\<lambda>(k, v). (k, json_norm v)) d))"
| "json_norm v = v"

definition json_eq :: "json \<Rightarrow> json \<Rightarrow> bool" where
  "json_eq a b \<longleftrightarrow> json_norm a = json_norm b"

definition accepts :: "metadata option \<Rightarrow> metadata \<Rightarrow> bool" where
  "accepts flt m = (case flt of None \<Rightarrow> True
     | Some f \<Rightarrow> list_all (\<lambda>(k, v). json_eq (case dict_get m k of None \<Rightarrow> JNull | Some x \<Rightarrow> x) v) f)"

text \<open>\<open>xs[:k]\<close>\<close>

definition py_prefix :: "int \<Rightarrow> 'a list \<Rightarrow> 'a list" where
  "py_prefix k xs = (if 0 \<le> k then take (nat k) xs else take (length xs - nat (- k)) xs)"

record 's hit =
  hit_id :: string
  hit_score :: 's
  hit_metadata :: metadata

definition row_score :: "('n, 'f, 's) numpy \<Rightarrow> 'n list \<Rightarrow> 'f list \<Rightarrow> 's" where
  "row_score np q v = np_dot np v (map (np_f32 np) q)"

definition local_query ::
    "('n, 'f, 's :: linordered_ab_group_add) numpy \<Rightarrow> 'n list \<Rightarrow> int \<Rightarrow> metadata option
       \<Rightarrow> 'f local_index \<Rightarrow> exc + 's hit list" where
  "local_query np q top_k flt ix =
     (if manifest ix = [] then Inr []
      else if length q \<noteq> vec_dim ix then Inl (ValueError ''matmul: mismatch in core dimension'')
      else
        let scores = map (row_score np q) (vectors ix);
            candidates = filter (\<lambda>i. accepts flt (entry_metadata (manifest ix ! i))) [0..<length (manifest ix)]
        in if \<exists>i \<in> set candidates. length scores \<le> i then Inl IndexError
           else Inr (map (\<lambda>i. \<lparr>hit_id = entry_id (manifest ix ! i), hit_score = scores ! i,
                    hit_metadata = entry_metadata (manifest ix ! i)\<rparr>)
                  (py_prefix top_k (sort_key (\<lambda>i. - (scores ! i)) candidates))))"

section \<open>The Pinecone backend\<close>

text \<open>The service: the names of its indexes, the creation of one, and its two calls.\<close>

record ('w, 'n, 's) pinecone =
  pc_list_indexes :: "('w, string list) eff"
  pc_create_index :: "string \<Rightarrow> nat \<Rightarrow> ('w, unit) eff"
  pc_upsert :: "string \<Rightarrow> 'n vec_record list \<Rightarrow> ('w, unit) eff"
  pc_query :: "string \<Rightarrow> 'n list \<Rightarrow> int \<Rightarrow> metadata option \<Rightarrow> ('w, (string \<times> 's \<times> metadata option) list option) eff"

definition pinecone_init :: "('w, 'n, 's) pinecone \<Rightarrow> string \<Rightarrow> nat \<Rightarrow> ('w, string) eff" where
  "pinecone_init pc name dimension =
     bindE (pc_list_indexes pc)
       (\<lambda>names. bindE (if name \<notin> set names then pc_create_index pc name dimension else retE ())
         (\<lambda>_. retE name))"

definition pinecone_upsert :: "('w, 'n, 's) pinecone \<Rightarrow> string \<Rightarrow> 'n vec_record list \<Rightarrow> ('w, unit) eff" where
  "pinecone_upsert pc name rs = pc_upsert pc name rs"

definition pinecone_query ::
    "('w, 'n, 's) pinecone \<Rightarrow> string \<Rightarrow> 'n list \<Rightarrow> int \<Rightarrow> metadata option \<Rightarrow> ('w, 's hit list) eff" where
  "pinecone_query pc name q top_k flt =
     bindE (pc_query pc name q top_k (case flt of Some f \<Rightarrow> if f = [] then None else Some f | None \<Rightarrow> None))
       (\<lambda>matches. retE (map (\<lambda>(i, s, m). \<lparr>hit_id = i, hit_score = s,
            hit_metadata = (case m of None \<Rightarrow> [] | Some x \<Rightarrow> x)\<rparr>)
          (case matches of None \<Rightarrow> [] | Some ms \<Rightarrow> ms)))"

datatype store_kind = Pinecone_Index string nat | Local_Numpy_Index string nat

definition make_vector_store :: "settings \<Rightarrow> nat \<Rightarrow> store_kind" where
  "make_vector_store s dimension =
     (if usable_key (pinecone_api_key s) then Pinecone_Index (pinecone_index_name s) dimension
      else Local_Numpy_Index (local_vector_root s) dimension)"


section \<open>The protocol\<close>

text \<open>
  What a client of a vector store relies on. A batch fits a store when its ids are distinct
  and its vectors have the width of the store. The view of a store maps an id to its vector
  and metadata, and \<open>sim\<close> is the similarity of a query to a vector.
\<close>

locale vector_store =
  fixes upsert :: "'r list \<Rightarrow> 's \<Rightarrow> (exc + unit) \<times> 's"
    and query :: "'q \<Rightarrow> int \<Rightarrow> 's \<Rightarrow> exc + ('score :: linorder) hit list"
    and ok :: "'s \<Rightarrow> bool"
    and fits :: "'s \<Rightarrow> 'r list \<Rightarrow> bool"
    and query_fits :: "'s \<Rightarrow> 'q \<Rightarrow> bool"
    and view :: "'s \<Rightarrow> string \<rightharpoonup> 'd"
    and rec_view :: "'r \<Rightarrow> string \<times> 'd"
    and sim :: "'q \<Rightarrow> 'd \<Rightarrow> 'score"
  assumes upsert_view: "ok s \<Longrightarrow> fits s rs \<Longrightarrow>
      \<exists>s'. upsert rs s = (Inr (), s') \<and> ok s' \<and> view s' = view s ++ map_of (map rec_view rs)
        \<and> fits s' = fits s \<and> query_fits s' = query_fits s"
    and finite_view: "finite (dom (view s))"
    and query_top: "ok s \<Longrightarrow> query_fits s q \<Longrightarrow> 0 \<le> k \<Longrightarrow>
      \<exists>hs. query q k s = Inr hs \<and> length hs = min (nat k) (card (dom (view s)))
        \<and> distinct (map hit_id hs) \<and> sorted (rev (map hit_score hs))
        \<and> (\<forall>h \<in> set hs. \<exists>d. view s (hit_id h) = Some d \<and> hit_score h = sim q d)
        \<and> (\<forall>i d h. view s i = Some d \<longrightarrow> i \<notin> hit_id ` set hs \<longrightarrow> h \<in> set hs \<longrightarrow> sim q d \<le> hit_score h)"
begin

lemma upsert_twice:
  assumes "ok s" "fits s rs"
  shows "\<exists>s' s''. upsert rs s = (Inr (), s') \<and> upsert rs s' = (Inr (), s'') \<and> ok s''
    \<and> view s'' = view s' \<and> view s' = view s ++ map_of (map rec_view rs)"
proof -
  obtain s' where s': "upsert rs s = (Inr (), s')" "ok s'" "view s' = view s ++ map_of (map rec_view rs)"
    "fits s' = fits s"
    using upsert_view[OF assms] by blast
  moreover obtain s'' where "upsert rs s' = (Inr (), s'')" "ok s''"
    "view s'' = view s' ++ map_of (map rec_view rs)"
    using upsert_view[OF s'(2), of rs] s'(4) assms(2) by auto
  moreover have "(view s ++ m) ++ m = view s ++ m" for m
    by (rule ext) (simp add: map_add_def split: option.split)
  ultimately show ?thesis by metis
qed

lemma upsert_found:
  assumes "ok s" "fits s rs" "query_fits s q" "int (card (dom (view s) \<union> fst ` rec_view ` set rs)) \<le> k"
  shows "\<exists>s' hs. upsert rs s = (Inr (), s') \<and> query q k s' = Inr hs
    \<and> hit_id ` set hs = dom (view s) \<union> fst ` rec_view ` set rs"
proof -
  obtain s' where s': "upsert rs s = (Inr (), s')" "ok s'" "view s' = view s ++ map_of (map rec_view rs)"
    "query_fits s' = query_fits s"
    using upsert_view[OF assms(1,2)] by blast
  have dom: "dom (view s') = dom (view s) \<union> fst ` rec_view ` set rs"
    by (auto simp: s'(3) dom_map_of_conv_image_fst)
  have "0 \<le> k" "query_fits s' q" using assms(3,4) s'(4) by auto
  then obtain hs where hs: "query q k s' = Inr hs" "length hs = min (nat k) (card (dom (view s')))"
    "distinct (map hit_id hs)" "\<forall>h \<in> set hs. \<exists>d. view s' (hit_id h) = Some d \<and> hit_score h = sim q d"
    using query_top[OF s'(2), of q k] by blast
  then have len: "length hs = card (dom (view s'))" using assms(4) dom by simp
  have "hit_id ` set hs \<subseteq> dom (view s')" using hs(4) by auto
  moreover have "card (hit_id ` set hs) = card (dom (view s'))"
    using len hs(3) by (metis distinct_card length_map list.set_map)
  ultimately have "hit_id ` set hs = dom (view s')" by (rule card_subset_eq[OF finite_view])
  with dom have "hit_id ` set hs = dom (view s) \<union> fst ` rec_view ` set rs" by simp
  with s'(1) hs(1) show ?thesis by metis
qed

end

section \<open>The local index is a vector store\<close>

definition index_ok :: "'f local_index \<Rightarrow> bool" where
  "index_ok ix \<longleftrightarrow> length (vectors ix) = length (manifest ix)
     \<and> (\<forall>v \<in> set (vectors ix). length v = vec_dim ix) \<and> distinct (map entry_id (manifest ix))"

definition index_view :: "'f local_index \<Rightarrow> string \<rightharpoonup> 'f list \<times> metadata" where
  "index_view ix = map_of (zip (map entry_id (manifest ix)) (zip (vectors ix) (map entry_metadata (manifest ix))))"

definition batch_fits :: "nat \<Rightarrow> 'n vec_record list \<Rightarrow> bool" where
  "batch_fits n rs \<longleftrightarrow> distinct (map rec_id rs) \<and> (\<forall>r \<in> set rs. length (rec_values r) = n)"

definition record_view :: "('n, 'f, 's) numpy \<Rightarrow> 'n vec_record \<Rightarrow> string \<times> 'f list \<times> metadata" where
  "record_view np r = (rec_id r, map (np_f32 np) (rec_values r), entry_metadata (record_entry r))"

lemma fst_record_view [simp]: "fst (record_view np r) = rec_id r"
  by (simp add: record_view_def)

lemma record_entry_id [simp]: "entry_id (record_entry r) = rec_id r"
  by (simp add: record_entry_def)

lemma entry_id_comp [simp]: "entry_id \<circ> record_entry = rec_id"
  by (rule ext) simp

lemma distinct_append_new:
  "distinct ks \<Longrightarrow> distinct (map f rs) \<Longrightarrow> distinct (ks @ map f (filter (\<lambda>r. f r \<notin> set ks) rs))"
  by (auto simp: distinct_map_filter)

lemma ids_existing_get:
  "distinct (map entry_id m) \<Longrightarrow>
     dict_get (ids_existing m) x = Some i \<longleftrightarrow> i < length m \<and> entry_id (m ! i) = x"
proof -
  have gen: "distinct (map entry_id m) \<Longrightarrow> (\<forall>e \<in> set m. dict_get d (entry_id e) = None) \<Longrightarrow>
      dict_get (fold (\<lambda>(i, e) d. dict_set d (entry_id e) i) (enumerate n m) d) x = Some i \<longleftrightarrow>
        dict_get d x = Some i \<or> (n \<le> i \<and> i < n + length m \<and> entry_id (m ! (i - n)) = x)" for d n
  proof (induction m arbitrary: d n)
    case (Cons e m)
    let ?d = "dict_set d (entry_id e) n"
    have "\<forall>e' \<in> set m. dict_get ?d (entry_id e') = None"
      using Cons.prems by (auto simp: dict_simps rev_image_eqI)
    then have "dict_get (fold (\<lambda>(i, e) d. dict_set d (entry_id e) i) (enumerate n (e # m)) d) x = Some i \<longleftrightarrow>
        dict_get ?d x = Some i \<or> (Suc n \<le> i \<and> i < Suc n + length m \<and> entry_id (m ! (i - Suc n)) = x)"
      using Cons.IH[of ?d "Suc n"] Cons.prems(1) by simp
    also have "\<dots> \<longleftrightarrow> dict_get d x = Some i
        \<or> (n \<le> i \<and> i < n + length (e # m) \<and> entry_id ((e # m) ! (i - n)) = x)"
      using Cons.prems(2) by (cases "i = n") (auto simp: dict_simps nth_Cons' Suc_le_eq)
    finally show ?case .
  qed auto
  assume "distinct (map entry_id m)"
  then show ?thesis using gen[of "[]" 0] by (simp add: ids_existing_def dict_simps)
qed

lemma ids_existing_None:
  "distinct (map entry_id m) \<Longrightarrow> dict_get (ids_existing m) x = None \<longleftrightarrow> x \<notin> entry_id ` set m"
  using ids_existing_get[of m x]
  by (metis image_iff in_set_conv_nth not_None_eq)

lemma map_of_zip_update:
  "distinct ks \<Longrightarrow> length xs = length ks \<Longrightarrow> i < length ks \<Longrightarrow>
     map_of (zip ks (xs[i := x])) = (map_of (zip ks xs))(ks ! i \<mapsto> x)"
proof (induction ks arbitrary: xs i)
  case (Cons k ks)
  then obtain y ys where xs: "xs = y # ys" by (cases xs) auto
  show ?case
  proof (cases i)
    case (Suc j)
    then have "ks ! j \<noteq> k" using Cons.prems(1,3) by auto
    with Suc xs Cons show ?thesis by (auto simp: fun_upd_twist)
  qed (simp add: xs fun_eq_iff)
qed simp

lemma ids_update:
  "i < length m \<Longrightarrow> entry_id (m ! i) = entry_id e \<Longrightarrow> map entry_id (m[i := e]) = map entry_id m"
  by (metis list_update_id map_update)

lemma index_view_update:
  assumes "index_ok ix" "i < length (manifest ix)" "entry_id (manifest ix ! i) = entry_id e"
  shows "index_view (ix\<lparr>vectors := (vectors ix)[i := v], manifest := (manifest ix)[i := e]\<rparr>)
    = (index_view ix)(entry_id e \<mapsto> (v, entry_metadata e))"
proof -
  note ids = ids_update[OF assms(2,3)]
  have "zip ((vectors ix)[i := v]) (map entry_metadata ((manifest ix)[i := e]))
      = (zip (vectors ix) (map entry_metadata (manifest ix)))[i := (v, entry_metadata e)]"
    by (simp add: zip_update map_update)
  then show ?thesis
    using assms map_of_zip_update[of "map entry_id (manifest ix)" "zip (vectors ix) (map entry_metadata (manifest ix))" i]
    by (simp add: index_view_def ids index_ok_def)
qed

lemma set_row_fits:
  "i < length (vectors ix) \<Longrightarrow> length v = vec_dim ix \<Longrightarrow>
     set_row i v ix = Inr (ix\<lparr>vectors := (vectors ix)[i := v]\<rparr>)"
  by (simp add: set_row_def)

lemma map_add_upd_left2: "k \<notin> dom g \<Longrightarrow> (f(k \<mapsto> x)) ++ g = (f ++ g)(k \<mapsto> x)"
  by (auto simp: map_add_def fun_eq_iff split: option.splits)

lemma map_of_record_Cons:
  "map_of (map (record_view np) (r # rs))
     = (map_of (map (record_view np) rs))(rec_id r \<mapsto> snd (record_view np r))"
  by (simp add: fun_eq_iff)

lemma upsert_loop:
  assumes "\<And>x i. dict_get ids x = Some i \<longleftrightarrow> i < length ks \<and> ks ! i = x"
    and "index_ok ix" and "map entry_id (manifest ix) = ks" and "batch_fits (vec_dim ix) rs"
  shows "\<exists>ix'. loopE (upsert_step np ids) rs (nv, ne) ix
      = (Inr (nv @ map rec_values (filter (\<lambda>r. rec_id r \<notin> set ks) rs),
              ne @ map record_entry (filter (\<lambda>r. rec_id r \<notin> set ks) rs)), ix')
    \<and> index_ok ix' \<and> vec_dim ix' = vec_dim ix \<and> map entry_id (manifest ix') = ks
    \<and> index_view ix' = index_view ix ++ map_of (map (record_view np) (filter (\<lambda>r. rec_id r \<in> set ks) rs))"
  using assms(2-4)
proof (induction rs arbitrary: nv ne ix)
  case Nil
  then show ?case by simp
next
  case (Cons r rs)
  have fits: "batch_fits (vec_dim ix) rs" "rec_id r \<notin> rec_id ` set rs" "length (rec_values r) = vec_dim ix"
    using Cons.prems(3) by (auto simp: batch_fits_def)
  show ?case
  proof (cases "rec_id r \<in> set ks")
    case False
    then have "dict_get ids (rec_id r) = None"
      using assms(1) by (metis nth_mem not_None_eq)
    then have "upsert_step np ids r (nv, ne) ix = (Inr (nv @ [rec_values r], ne @ [record_entry r]), ix)"
      by (simp add: upsert_step_def)
    with False Cons.IH[where nv = "nv @ [rec_values r]" and ne = "ne @ [record_entry r]",
        OF Cons.prems(1,2) fits(1)]
    show ?thesis by simp
  next
    case True
    then obtain i where i: "i < length ks" "ks ! i = rec_id r" by (metis in_set_conv_nth)
    then have get: "dict_get ids (rec_id r) = Some i" using assms(1) by blast
    let ?v = "map (np_f32 np) (rec_values r)"
    let ?ix = "ix\<lparr>vectors := (vectors ix)[i := ?v], manifest := (manifest ix)[i := record_entry r]\<rparr>"
    have im: "i < length (manifest ix)" "entry_id (manifest ix ! i) = entry_id (record_entry r)"
      using i Cons.prems(2) by (auto simp: nth_map[symmetric] simp del: nth_map)
    have step: "upsert_step np ids r (nv, ne) ix = (Inr (nv, ne), ?ix)"
      using get im fits(3) Cons.prems(1) by (simp add: upsert_step_def set_row_fits index_ok_def)
    note upd = index_view_update[OF Cons.prems(1) im, of ?v] ids_update[OF im]
    have "index_ok ?ix"
      using Cons.prems(1) fits(3) upd(2) set_update_subset_insert[of "vectors ix" i ?v]
      unfolding index_ok_def by auto
    moreover have "map entry_id (manifest ?ix) = ks" using upd(2) Cons.prems(2) by simp
    ultimately obtain ix' where ix': "loopE (upsert_step np ids) rs (nv, ne) ?ix
        = (Inr (nv @ map rec_values (filter (\<lambda>r. rec_id r \<notin> set ks) rs),
              ne @ map record_entry (filter (\<lambda>r. rec_id r \<notin> set ks) rs)), ix')"
      "index_ok ix'" "vec_dim ix' = vec_dim ?ix" "map entry_id (manifest ix') = ks"
      "index_view ix' = index_view ?ix ++ map_of (map (record_view np) (filter (\<lambda>r. rec_id r \<in> set ks) rs))"
      using Cons.IH[of ?ix nv ne] fits(1) by auto
    have "rec_id r \<notin> dom (map_of (map (record_view np) (filter (\<lambda>r. rec_id r \<in> set ks) rs)))"
      using fits(2) by (auto simp: dom_map_of_conv_image_fst image_image)
    from map_add_upd_left2[OF this]
    have view: "index_view ix' = index_view ix ++ map_of (map (record_view np) (filter (\<lambda>r. rec_id r \<in> set ks) (r # rs)))"
      unfolding filter.simps if_P[OF True] map_of_record_Cons map_add_upd ix'(5) upd(1)
      by (simp only: record_entry_id record_view_def snd_conv)
    have run: "loopE (upsert_step np ids) (r # rs) (nv, ne) ix
        = (Inr (nv @ map rec_values (filter (\<lambda>r. rec_id r \<notin> set ks) (r # rs)),
              ne @ map record_entry (filter (\<lambda>r. rec_id r \<notin> set ks) (r # rs))), ix')"
      using True step ix'(1) by simp
    have "vec_dim ix' = vec_dim ix" using ix'(3) by simp
    with run ix'(2,4) view show ?thesis by blast
  qed
qed

lemma index_view_append:
  assumes "index_ok ix" "length vs = length es" "entry_id ` set es \<inter> entry_id ` set (manifest ix) = {}"
  shows "index_view (ix\<lparr>vectors := vectors ix @ vs, manifest := manifest ix @ es\<rparr>)
    = index_view ix ++ map_of (zip (map entry_id es) (zip vs (map entry_metadata es)))"
proof -
  have "map_of (xs @ ys) = map_of xs ++ map_of ys" if "fst ` set xs \<inter> fst ` set ys = {}" for xs ys
    using that by (metis map_add_comm map_of_append dom_map_of_conv_image_fst)
  moreover have "fst ` set (zip xs ys) \<subseteq> set xs" for xs :: "string list" and ys :: "('a list \<times> metadata) list"
    by (auto dest: set_zip_leftD)
  from this[of "map entry_id (manifest ix)"] this[of "map entry_id es"]
  have "fst ` set (zip (map entry_id (manifest ix)) (zip (vectors ix) (map entry_metadata (manifest ix))))
      \<inter> fst ` set (zip (map entry_id es) (zip vs (map entry_metadata es))) = {}"
    using assms(3) unfolding set_map by blast
  ultimately show ?thesis using assms(1,2) by (simp add: index_view_def index_ok_def zip_append)
qed

lemma zip_record_view:
  "zip (map entry_id (map record_entry rs)) (zip (map (map (np_f32 np)) (map rec_values rs)) (map entry_metadata (map record_entry rs)))
     = map (record_view np) rs"
  by (induction rs) (simp_all add: record_view_def)

lemma map_of_partition:
  assumes "distinct (map rec_id rs)"
  shows "map_of (map (record_view np) (filter P rs)) ++ map_of (map (record_view np) (filter (\<lambda>r. \<not> P r) rs))
    = map_of (map (record_view np) rs)"
  using assms
proof (induction rs)
  case (Cons r rs)
  have fresh: "rec_id r \<notin> dom (map_of (map (record_view np) (filter Q rs)))" for Q
    using Cons.prems by (auto simp: dom_map_of_conv_image_fst image_image)
  have IH: "map_of (map (record_view np) (filter P rs)) ++ map_of (map (record_view np) (filter (\<lambda>r. \<not> P r) rs))
      = map_of (map (record_view np) rs)"
    using Cons by simp
  show ?case
  proof (cases "P r")
    case True
    then have "\<not> \<not> P r" by simp
    show ?thesis
      unfolding filter.simps if_P[OF True] if_not_P[OF \<open>\<not> \<not> P r\<close>] map_of_record_Cons
        map_add_upd_left2[OF fresh] IH ..
  next
    case False
    show ?thesis
      unfolding filter.simps if_not_P[OF False] if_P[OF False] map_of_record_Cons map_add_upd IH ..
  qed
qed simp

lemma append_block_fits:
  "block \<noteq> [] \<Longrightarrow> \<forall>v \<in> set block. length v = vec_dim ix \<Longrightarrow>
     append_block block es ix = Inr (ix\<lparr>vectors := vectors ix @ block, manifest := manifest ix @ es\<rparr>)"
  by (cases block) (auto simp: append_block_def)

lemma local_upsert_result:
  assumes "index_ok ix" "batch_fits (vec_dim ix) rs"
  shows "\<exists>ix'. local_upsert np rs (ix, d) = (Inr (), (ix', persist ix' d)) \<and> index_ok ix'
    \<and> vec_dim ix' = vec_dim ix \<and> index_view ix' = index_view ix ++ map_of (map (record_view np) rs)"
proof -
  let ?ks = "map entry_id (manifest ix)"
  let ?old = "filter (\<lambda>r. rec_id r \<in> set ?ks) rs" and ?new = "filter (\<lambda>r. rec_id r \<notin> set ?ks) rs"
  have ids: "dict_get (ids_existing (manifest ix)) x = Some i \<longleftrightarrow> i < length ?ks \<and> ?ks ! i = x" for x i
    using ids_existing_get[of "manifest ix" x i] assms(1) by (auto simp: index_ok_def)
  obtain ix' where loop: "loopE (upsert_step np (ids_existing (manifest ix))) rs ([], []) ix
        = (Inr (map rec_values ?new, map record_entry ?new), ix')"
    and ix': "index_ok ix'" "vec_dim ix' = vec_dim ix" "map entry_id (manifest ix') = ?ks"
      "index_view ix' = index_view ix ++ map_of (map (record_view np) ?old)"
    using upsert_loop[OF ids assms(1) refl assms(2), of np "[]" "[]"] by auto
  have dist: "distinct (map rec_id rs)" using assms(2) by (simp add: batch_fits_def)
  show ?thesis
  proof (cases "?new = []")
    case True
    then have "?old = rs" by (simp add: filter_empty_conv filter_id_conv)
    with True loop ix' show ?thesis by (simp add: local_upsert_def)
  next
    case False
    let ?block = "map (map (np_f32 np)) (map rec_values ?new)"
    let ?ix = "ix'\<lparr>vectors := vectors ix' @ ?block, manifest := manifest ix' @ map record_entry ?new\<rparr>"
    have widths: "\<forall>v \<in> set ?block. length v = vec_dim ix'"
      using assms(2) ix'(2) by (auto simp: batch_fits_def)
    have "append_block ?block (map record_entry ?new) ix' = Inr ?ix"
      using False widths by (intro append_block_fits) simp_all
    then have run: "local_upsert np rs (ix, d) = (Inr (), (?ix, persist ?ix d))"
      using loop False by (simp add: local_upsert_def)
    have disj: "entry_id ` set (map record_entry ?new) \<inter> entry_id ` set (manifest ix') = {}"
      using ix'(3) by (auto simp: image_image) (metis image_eqI list.set_map)
    have "index_view ?ix = index_view ix' ++ map_of (map (record_view np) ?new)"
      using index_view_append[OF ix'(1) _ disj, of ?block] zip_record_view[of ?new np] by simp
    then have view: "index_view ?ix = index_view ix ++ map_of (map (record_view np) rs)"
      using map_of_partition[OF dist, of np "\<lambda>r. rec_id r \<in> set ?ks"] ix'(4)
      by (metis map_add_assoc)
    have "map entry_id (manifest ?ix) = ?ks @ map rec_id ?new" by (simp add: ix'(3))
    moreover have "distinct (?ks @ map rec_id ?new)"
      using assms(1) by (intro distinct_append_new dist) (simp add: index_ok_def)
    ultimately have "distinct (map entry_id (manifest ?ix))" by simp
    then have "index_ok ?ix" using ix'(1) widths by (auto simp: index_ok_def)
    with run view ix'(2) show ?thesis by auto
  qed
qed


lemma dom_index_view: "index_ok ix \<Longrightarrow> dom (index_view ix) = entry_id ` set (manifest ix)"
  by (simp add: index_view_def index_ok_def dom_map_of_zip)

lemma index_view_nth:
  "index_ok ix \<Longrightarrow> i < length (manifest ix) \<Longrightarrow>
     index_view ix (entry_id (manifest ix ! i)) = Some (vectors ix ! i, entry_metadata (manifest ix ! i))"
  using map_of_zip_nth[of "map entry_id (manifest ix)" "zip (vectors ix) (map entry_metadata (manifest ix))" i]
  by (simp add: index_view_def index_ok_def)

text \<open>The ids whose metadata a filter accepts.\<close>

definition accepted :: "metadata option \<Rightarrow> 'f local_index \<Rightarrow> string set" where
  "accepted flt ix = {i \<in> dom (index_view ix). accepts flt (snd (the (index_view ix i)))}"

lemma accepted_None [simp]: "accepted None ix = dom (index_view ix)"
  by (auto simp: accepted_def accepts_def)

lemma sorted_by_score:
  "sorted (rev (map s (take k (sort_key (\<lambda>i. - (s i :: 'a :: linordered_ab_group_add)) xs))))"
  "x \<in> set (take k (sort_key (\<lambda>i. - s i) xs)) \<Longrightarrow> y \<in> set (drop k (sort_key (\<lambda>i. - s i) xs)) \<Longrightarrow> s y \<le> s x"
proof -
  let ?S = "sort_key (\<lambda>i. - s i) xs"
  have S: "sorted (map (\<lambda>i. - s i) (take k ?S @ drop k ?S))" by simp
  then show "x \<in> set (take k ?S) \<Longrightarrow> y \<in> set (drop k ?S) \<Longrightarrow> s y \<le> s x"
    unfolding map_append sorted_append by force
  from S have "sorted (map (\<lambda>i. - s i) (take k ?S))" unfolding map_append sorted_append by blast
  then show "sorted (rev (map s (take k ?S)))" by (simp add: sorted_wrt_rev sorted_wrt_map)
qed

lemma local_query_result:
  assumes "index_ok ix" "length q = vec_dim ix" "0 \<le> k"
  shows "\<exists>hs. local_query np q k flt ix = Inr hs
    \<and> length hs = min (nat k) (card (accepted flt ix)) \<and> distinct (map hit_id hs)
    \<and> sorted (rev (map hit_score hs))
    \<and> (\<forall>h \<in> set hs. hit_id h \<in> accepted flt ix
         \<and> (\<exists>v. index_view ix (hit_id h) = Some (v, hit_metadata h) \<and> hit_score h = row_score np q v))
    \<and> (\<forall>i v m h. index_view ix i = Some (v, m) \<longrightarrow> i \<in> accepted flt ix \<longrightarrow> i \<notin> hit_id ` set hs \<longrightarrow>
         h \<in> set hs \<longrightarrow> row_score np q v \<le> hit_score h)"
proof -
  let ?n = "length (manifest ix)" and ?id = "\<lambda>i. entry_id (manifest ix ! i)"
  let ?cand = "filter (\<lambda>i. accepts flt (entry_metadata (manifest ix ! i))) [0..<?n]"
  define s where "s i = map (row_score np q) (vectors ix) ! i" for i
  let ?S = "sort_key (\<lambda>i. - s i) ?cand"
  let ?T = "take (nat k) ?S"
  let ?mk = "\<lambda>i. \<lparr>hit_id = ?id i, hit_score = s i, hit_metadata = entry_metadata (manifest ix ! i)\<rparr>"
  let ?hs = "map ?mk ?T"
  have len: "length (vectors ix) = ?n" and ids: "distinct (map entry_id (manifest ix))"
    using assms(1) by (auto simp: index_ok_def)
  have query: "local_query np q k flt ix = Inr ?hs"
    using assms(2,3) len by (auto simp: local_query_def Let_def py_prefix_def s_def)
  have acc: "accepted flt ix = ?id ` set ?cand"
  proof -
    have "entry_id ` set (manifest ix) = ?id ` {..<?n}" by (auto simp: set_conv_nth)
    then show ?thesis
      using index_view_nth[OF assms(1)] by (auto simp: accepted_def dom_index_view[OF assms(1)] image_iff)
  qed
  have inj: "inj_on ?id (set ?cand)"
    using ids by (auto simp: inj_on_def distinct_conv_nth)
  have card: "card (accepted flt ix) = length ?cand"
    unfolding acc card_image[OF inj] by (rule distinct_card) simp
  have T: "set ?T \<subseteq> set ?cand" by (metis set_sort set_take_subset)
  have dist: "distinct (map hit_id ?hs)"
    using inj_on_subset[OF inj T] by (simp add: distinct_map comp_def)
  have score: "s i = row_score np q (vectors ix ! i)" if "i < ?n" for i using that len by (simp add: s_def)
  have rest: "row_score np q v \<le> hit_score h"
    if r: "index_view ix i = Some (v, m)" "i \<in> accepted flt ix" "i \<notin> hit_id ` set ?hs" "h \<in> set ?hs" for i v m h
  proof -
    obtain j where j: "j \<in> set ?cand" "i = ?id j" using r(2) acc by auto
    then have "j \<notin> set ?T" using r(3) by (auto simp: image_image)
    moreover have "j \<in> set (?T @ drop (nat k) ?S)" using j(1) by (simp only: append_take_drop_id set_sort)
    ultimately have "j \<in> set (drop (nat k) ?S)" unfolding set_append by blast
    moreover obtain x where "x \<in> set ?T" "h = ?mk x" using r(4) by auto
    ultimately have "s j \<le> hit_score h" using sorted_by_score(2)[of x "nat k" s ?cand j] by simp
    moreover have "v = vectors ix ! j" using r(1) j index_view_nth[OF assms(1), of j] by simp
    ultimately show ?thesis using score[of j] j(1) by simp
  qed
  have hits: "hit_id h \<in> accepted flt ix
      \<and> (\<exists>v. index_view ix (hit_id h) = Some (v, hit_metadata h) \<and> hit_score h = row_score np q v)"
    if h: "h \<in> set ?hs" for h
  proof -
    obtain j where j: "j \<in> set ?cand" "h = ?mk j" using h T by auto
    then show ?thesis using acc index_view_nth[OF assms(1), of j] score[of j] by auto
  qed
  have "sorted (rev (map hit_score ?hs))" using sorted_by_score(1)[of s "nat k" ?cand] by (simp add: comp_def)
  moreover have "length ?hs = min (nat k) (card (accepted flt ix))" unfolding card by (simp add: min.commute)
  ultimately show ?thesis using query dist hits rest by blast
qed

interpretation lvs: vector_store
  "local_upsert np" "\<lambda>q k s. local_query np q k None (fst s)" "\<lambda>s. index_ok (fst s)"
  "\<lambda>s rs. batch_fits (vec_dim (fst s)) rs" "\<lambda>s q. length q = vec_dim (fst s)" "\<lambda>s. index_view (fst s)"
  "record_view np" "\<lambda>q d. row_score np q (fst d)"
  for np :: "('n, 'f, 's :: linordered_ab_group_add) numpy"
proof
  fix s :: "'f local_index \<times> 'f disk" and rs :: "'n vec_record list"
  assume "index_ok (fst s)" "batch_fits (vec_dim (fst s)) rs"
  then show "\<exists>s'. local_upsert np rs s = (Inr (), s') \<and> index_ok (fst s')
      \<and> index_view (fst s') = index_view (fst s) ++ map_of (map (record_view np) rs)
      \<and> batch_fits (vec_dim (fst s')) = batch_fits (vec_dim (fst s))
      \<and> (\<lambda>q. length q = vec_dim (fst s')) = (\<lambda>q. length q = vec_dim (fst s))"
    using local_upsert_result[of "fst s" rs np "snd s"] by fastforce
next
  fix s :: "'f local_index \<times> 'f disk"
  show "finite (dom (index_view (fst s)))" by (simp add: index_view_def finite_dom_map_of)
next
  fix s :: "'f local_index \<times> 'f disk" and q :: "'n list" and k :: int
  assume "index_ok (fst s)" "length q = vec_dim (fst s)" "0 \<le> k"
  then obtain hs where "local_query np q k None (fst s) = Inr hs"
    "length hs = min (nat k) (card (dom (index_view (fst s))))" "distinct (map hit_id hs)"
    "sorted (rev (map hit_score hs))"
    "\<forall>h \<in> set hs. \<exists>v. index_view (fst s) (hit_id h) = Some (v, hit_metadata h) \<and> hit_score h = row_score np q v"
    "\<forall>i v m h. index_view (fst s) i = Some (v, m) \<longrightarrow> i \<notin> hit_id ` set hs \<longrightarrow> h \<in> set hs \<longrightarrow> row_score np q v \<le> hit_score h"
    using local_query_result[of "fst s" q k np None] by (auto simp: domI)
  then show "\<exists>hs. local_query np q k None (fst s) = Inr hs
      \<and> length hs = min (nat k) (card (dom (index_view (fst s)))) \<and> distinct (map hit_id hs)
      \<and> sorted (rev (map hit_score hs))
      \<and> (\<forall>h \<in> set hs. \<exists>d. index_view (fst s) (hit_id h) = Some d \<and> hit_score h = row_score np q (fst d))
      \<and> (\<forall>i d h. index_view (fst s) i = Some d \<longrightarrow> i \<notin> hit_id ` set hs \<longrightarrow> h \<in> set hs \<longrightarrow>
           row_score np q (fst d) \<le> hit_score h)"
    by fastforce
qed


section \<open>Reopening\<close>

lemma loopX_json_entry:
  "loopX json_entry (map entry_json m) acc = Inr (acc @ m)"
  by (induction m arbitrary: acc) (simp_all add: json_entry_def entry_json_def dict_get_def)

lemma json_ok_manifest:
  "\<forall>e \<in> set m. json_ok (JObj (entry_metadata e)) \<Longrightarrow> json_ok (JList (map entry_json m))"
  by (auto simp: entry_json_def dict_ok_def)

section \<open>Properties\<close>

text \<open>
  C30: The local index is a map from ids to vectors with metadata: an upsert of a batch with
  distinct ids and vectors of the index's width succeeds, overrides the entries of the batch
  and leaves all others, keeps the rows parallel to the manifest, and writes both files; doing
  it again changes nothing.
\<close>

theorem local_upsert_map:
  fixes np :: "('n, 'f, 's :: linordered_ab_group_add) numpy"
  assumes "index_ok ix" and "batch_fits (vec_dim ix) rs"
  shows "\<exists>ix' ix''. local_upsert np rs (ix, d) = (Inr (), (ix', persist ix' d)) \<and> index_ok ix'
    \<and> index_view ix' = index_view ix ++ map_of (map (record_view np) rs)
    \<and> local_upsert np rs (ix', persist ix' d) = (Inr (), (ix'', persist ix'' (persist ix' d)))
    \<and> index_view ix'' = index_view ix'"
proof -
  obtain ix' where ix': "local_upsert np rs (ix, d) = (Inr (), (ix', persist ix' d))" "index_ok ix'"
    "vec_dim ix' = vec_dim ix" "index_view ix' = index_view ix ++ map_of (map (record_view np) rs)"
    using local_upsert_result[OF assms] by blast
  moreover have "batch_fits (vec_dim ix') rs" using assms(2) ix'(3) by simp
  from local_upsert_result[OF ix'(2) this, of np "persist ix' d"] obtain ix'' where
    ix'': "local_upsert np rs (ix', persist ix' d) = (Inr (), (ix'', persist ix'' (persist ix' d)))" by blast
  moreover have "index_view ix'' = index_view ix'"
    using lvs.upsert_twice[of "(ix, d)" rs np] assms ix'(1) ix'' by auto
  ultimately show ?thesis by blast
qed

definition int_numpy :: "(int, int, int) numpy" where
  "int_numpy = \<lparr>np_f32 = (\<lambda>x. x), np_dot = (\<lambda>v q. sum_list (map2 (*) v q))\<rparr>"

definition index_xy :: "int local_index" where
  "index_xy = \<lparr>vec_dim = 2, vectors = [[1, 0], [0, 1]],
     manifest = [\<lparr>entry_id = ''x'', entry_metadata = []\<rparr>,
       \<lparr>entry_id = ''y'', entry_metadata = [(''category'', JStr ''term'')]\<rparr>]\<rparr>"

definition no_disk :: "int disk" where
  "no_disk = \<lparr>vectors_file = None, manifest_file = None\<rparr>"

definition batch_yz :: "int vec_record list" where
  "batch_yz = [\<lparr>rec_id = ''z'', rec_values = [1, 1], rec_metadata = None\<rparr>,
     \<lparr>rec_id = ''y'', rec_values = [0, 2], rec_metadata = Some []\<rparr>]"

lemma index_xy_ok: "index_ok index_xy" "batch_fits (vec_dim index_xy) batch_yz"
  by (simp_all add: index_ok_def index_xy_def batch_fits_def batch_yz_def)

theorem local_upsert_map_witness:
  "\<exists>ix'. fst (local_upsert int_numpy batch_yz (index_xy, no_disk)) = Inr ()
    \<and> fst (snd (local_upsert int_numpy batch_yz (index_xy, no_disk))) = ix'
    \<and> index_view ix' ''y'' = Some ([0, 2], []) \<and> index_view ix' ''x'' = Some ([1, 0], [])"
  using local_upsert_map[OF index_xy_ok, of int_numpy no_disk]
  by (auto simp: index_view_def index_xy_def batch_yz_def record_view_def record_entry_def int_numpy_def)

text \<open>
  C31: A query of the index's width with \<open>top_k\<close> not negative returns the best matches: as many
  as asked for or as there are entries whose metadata the filter accepts, with distinct ids,
  scores in descending order, each with the score and the metadata of its entry, and no
  accepted entry that is left out scores higher than one returned.
\<close>

theorem local_query_top:
  assumes "index_ok ix" and "length q = vec_dim ix" and "0 \<le> top_k"
  shows "\<exists>hs. local_query np q top_k flt ix = Inr hs
    \<and> length hs = min (nat top_k) (card (accepted flt ix)) \<and> distinct (map hit_id hs)
    \<and> sorted (rev (map hit_score hs))
    \<and> (\<forall>h \<in> set hs. hit_id h \<in> accepted flt ix
         \<and> (\<exists>v. index_view ix (hit_id h) = Some (v, hit_metadata h) \<and> hit_score h = row_score np q v))
    \<and> (\<forall>i v m h. index_view ix i = Some (v, m) \<longrightarrow> i \<in> accepted flt ix \<longrightarrow> i \<notin> hit_id ` set hs \<longrightarrow>
         h \<in> set hs \<longrightarrow> row_score np q v \<le> hit_score h)"
  using assms by (rule local_query_result)

theorem local_query_top_witness:
  "\<exists>h. local_query int_numpy [2, 1] 5 (Some [(''category'', JStr ''term'')]) index_xy = Inr [h]
     \<and> hit_id h = ''y'' \<and> hit_score h = 1"
proof -
  let ?f = "Some [(''category'', JStr ''term'')]"
  have acc: "accepted ?f index_xy = {''y''}"
    by (auto simp: accepted_def index_view_def index_xy_def accepts_def json_eq_def dict_get_def split: if_splits)
  obtain hs where hs: "local_query int_numpy [2, 1] 5 ?f index_xy = Inr hs" "length hs = 1"
    "\<forall>h \<in> set hs. hit_id h \<in> {''y''}
       \<and> (\<exists>v. index_view index_xy (hit_id h) = Some (v, hit_metadata h) \<and> hit_score h = row_score int_numpy [2, 1] v)"
    using local_query_top[OF index_xy_ok(1), of "[2, 1]" 5 int_numpy ?f] acc by (auto simp: index_xy_def)
  then obtain h where h: "hs = [h]" by (metis length_0_conv length_Suc_conv One_nat_def)
  have "index_view index_xy ''y'' = Some ([0, 1], [(''category'', JStr ''term'')])"
    by (simp add: index_view_def index_xy_def)
  with hs h show ?thesis by (auto simp: row_score_def int_numpy_def)
qed

text \<open>
  What an upsert writes is what a new process reads: an index opened on the files has the
  same vectors and manifest. (Metadata is JSON whose objects have distinct keys.)
\<close>

lemma reopen_persisted:
  assumes "\<forall>e \<in> set (manifest ix). json_ok (JObj (entry_metadata e))"
  shows "init_index n (persist ix d) = Inr ix"
  using loads_dumps[OF json_ok_manifest[OF assms]] loopX_json_entry[of "manifest ix" "[]"]
  by (simp add: init_index_def persist_def)

lemma reopen_persisted_example: "init_index 384 (persist index_xy no_disk) = Inr index_xy"
  by (rule reopen_persisted) (simp add: index_xy_def dict_ok_def)

text \<open>
  Distinct ids in a batch matter: a new id that comes twice in one batch is stored twice, so
  the manifest no longer has distinct ids and the earlier vector stays in the index.
\<close>

lemma upsert_duplicate_new_id:
  assumes "index_ok ix" and "rec_id r = rec_id r'" and "rec_id r \<notin> entry_id ` set (manifest ix)"
    and "length (rec_values r) = vec_dim ix" and "length (rec_values r') = vec_dim ix"
  shows "\<exists>ix'. local_upsert np [r, r'] (ix, d) = (Inr (), (ix', persist ix' d))
    \<and> vectors ix' = vectors ix @ [map (np_f32 np) (rec_values r), map (np_f32 np) (rec_values r')]
    \<and> map entry_id (manifest ix') = map entry_id (manifest ix) @ [rec_id r, rec_id r]
    \<and> \<not> index_ok ix'"
proof -
  have "dict_get (ids_existing (manifest ix)) (rec_id r) = None"
    using assms(1,3) ids_existing_None[of "manifest ix" "rec_id r"] by (simp add: index_ok_def)
  then have "local_upsert np [r, r'] (ix, d)
      = (let ix' = ix\<lparr>vectors := vectors ix @ [map (np_f32 np) (rec_values r), map (np_f32 np) (rec_values r')],
            manifest := manifest ix @ [record_entry r, record_entry r']\<rparr> in (Inr (), (ix', persist ix' d)))"
    using assms(2,4,5) by (simp add: local_upsert_def upsert_step_def append_block_def Let_def)
  then show ?thesis using assms(2) by (simp add: Let_def index_ok_def)
qed

lemma upsert_duplicate_new_id_example:
  "\<not> index_ok (fst (snd (local_upsert int_numpy
      [\<lparr>rec_id = ''z'', rec_values = [1, 1], rec_metadata = None\<rparr>,
       \<lparr>rec_id = ''z'', rec_values = [2, 2], rec_metadata = None\<rparr>] (index_xy, no_disk))))"
  using upsert_duplicate_new_id[OF index_xy_ok(1),
      of "\<lparr>rec_id = ''z'', rec_values = [1, 1], rec_metadata = None\<rparr>"
        "\<lparr>rec_id = ''z'', rec_values = [2, 2], rec_metadata = None\<rparr>" int_numpy no_disk]
  by (auto simp: index_xy_def)

end
