(* ===== verification/Embedder.thy ===== *)
theory Embedder
  imports Config
begin

text \<open>
  Model of \<open>ingestion/embedder.py\<close>. The Cohere client and the sentence-transformers model are
  not part of the repository: \<open>call\<close> is one request to the service, \<open>load\<close> the
  construction of the local model and \<open>encode\<close> its application. A vector is a value of a
  type parameter.
\<close>

section \<open>The Cohere backend\<close>

definition cohere_dimension :: nat where "cohere_dimension = 1024"
definition cohere_batch :: nat where "cohere_batch = 96"

text \<open>\<open>range(0, n, step)\<close>\<close>

definition range_step :: "nat \<Rightarrow> nat \<Rightarrow> nat list" where
  "range_step n step = map (\<lambda>k. k * step) [0..<(n + step - 1) div step]"

definition cohere_embed :: "(string list \<Rightarrow> ('w, 'v list) eff) \<Rightarrow> string list \<Rightarrow> ('w, 'v list) eff" where
  "cohere_embed call texts =
     loopE (\<lambda>i out. bindE (call (take cohere_batch (drop i texts))) (\<lambda>vs. retE (out @ vs)))
       (range_step (length texts) cohere_batch) []"

section \<open>The local backend\<close>

text \<open>
  The object, and the request that it sends for one chunk; \<open>client\<close> is Cohere's \<open>embed\<close>, with
  the API key of the client.
\<close>

record cohere_embedder =
  ce_api_key :: string
  ce_model :: string

definition cohere_init :: "settings \<Rightarrow> cohere_embedder" where
  "cohere_init s = \<lparr>ce_api_key = cohere_api_key s, ce_model = ''embed-english-v3.0''\<rparr>"

record embed_request =
  er_texts :: "string list"
  er_model :: string
  er_input_type :: string

definition cohere_embedder_embed ::
    "(string \<Rightarrow> embed_request \<Rightarrow> ('w, 'v list) eff) \<Rightarrow> cohere_embedder \<Rightarrow> string list \<Rightarrow> ('w, 'v list) eff" where
  "cohere_embedder_embed client ce texts =
     cohere_embed (\<lambda>chunk. client (ce_api_key ce)
       \<lparr>er_texts = chunk, er_model = ce_model ce, er_input_type = ''search_document''\<rparr>) texts"

definition local_dimension :: nat where "local_dimension = 384"

record 'm local_embedder =
  model_name :: string
  loaded :: "'m option"

definition make_local :: "string \<Rightarrow> 'm local_embedder" where
  "make_local name = \<lparr>model_name = name, loaded = None\<rparr>"

definition load_model ::
    "(string \<Rightarrow> ('w, 'm) eff) \<Rightarrow> ('m local_embedder \<times> 'w, 'm) eff" where
  "load_model load s = (case s of (e, w) \<Rightarrow>
     (case loaded e of
        Some m \<Rightarrow> (Inr m, s)
      | None \<Rightarrow> (case load (model_name e) w of
            (Inl x, w') \<Rightarrow> (Inl x, (e, w'))
          | (Inr m, w') \<Rightarrow> (Inr m, (e\<lparr>loaded := Some m\<rparr>, w')))))"

definition local_embed ::
    "(string \<Rightarrow> ('w, 'm) eff) \<Rightarrow> ('m \<Rightarrow> string list \<Rightarrow> exc + 'v list) \<Rightarrow> string list
       \<Rightarrow> ('m local_embedder \<times> 'w, 'v list) eff" where
  "local_embed load encode texts = bindE (load_model load) (\<lambda>m. liftE (encode m texts))"

section \<open>The choice of the backend\<close>

datatype embedder_kind = Cohere_Embedder | Local_Embedder string

fun dimension_of :: "embedder_kind \<Rightarrow> nat" where
  "dimension_of Cohere_Embedder = cohere_dimension"
| "dimension_of (Local_Embedder _) = local_dimension"

definition make_embedder :: "settings \<Rightarrow> embedder_kind" where
  "make_embedder s =
     (if usable_key (cohere_api_key s) then Cohere_Embedder else Local_Embedder ''all-MiniLM-L6-v2'')"

section \<open>Batches\<close>

lemma range_step_Suc:
  assumes "0 < step" "0 < n"
  shows "range_step n step = 0 # map (\<lambda>i. i + step) (range_step (n - step) step)"
proof -
  have "(n + step - 1) div step = Suc ((n - step + step - 1) div step)"
  proof (cases "n \<le> step")
    case True
    then have "(n + step - 1) div step = 1" using assms by (intro div_nat_eqI) auto
    then show ?thesis using True assms by simp
  next
    case False
    then have "n + step - 1 = (n - step + step - 1) + step" by simp
    then show ?thesis using assms by (metis div_add_self2 less_numeral_extra(3) add.commute plus_1_eq_Suc)
  qed
  then show ?thesis
    by (simp add: range_step_def upt_conv_Cons del: upt_Suc)
      (simp add: map_Suc_upt[symmetric] comp_def del: upt_Suc)
qed

lemma cohere_loop:
  assumes "\<And>ts w. length ts \<le> cohere_batch \<Longrightarrow> \<exists>w'. call ts w = (Inr (map f ts), w')"
  shows "\<exists>w'. loopE (\<lambda>i out. bindE (call (take cohere_batch (drop i texts))) (\<lambda>vs. retE (out @ vs)))
      (range_step (length texts) cohere_batch) acc w = (Inr (acc @ map f texts), w')"
proof (induction texts arbitrary: acc w rule: length_induct)
  case (1 texts)
  show ?case
  proof (cases "texts = []")
    case True
    then show ?thesis by (simp add: range_step_def cohere_batch_def)
  next
    case False
    let ?rest = "drop cohere_batch texts"
    obtain w' where w': "call (take cohere_batch texts) w = (Inr (map f (take cohere_batch texts)), w')"
      using assms[of "take cohere_batch texts" w] by auto
    have "length ?rest < length texts" using False by (simp add: cohere_batch_def)
    from 1[rule_format, OF this, of "acc @ map f (take cohere_batch texts)" w']
    obtain w'' where "loopE (\<lambda>i out. bindE (call (take cohere_batch (drop i ?rest))) (\<lambda>vs. retE (out @ vs)))
        (range_step (length ?rest) cohere_batch) (acc @ map f (take cohere_batch texts)) w'
        = (Inr (acc @ map f texts), w'')"
      by (metis append.assoc append_take_drop_id map_append)
    moreover have "range_step (length texts) cohere_batch
        = 0 # map (\<lambda>i. i + cohere_batch) (range_step (length ?rest) cohere_batch)"
      using range_step_Suc[of cohere_batch "length texts"] False by (simp add: cohere_batch_def)
    moreover have "bindE (call (take cohere_batch (drop 0 texts))) (\<lambda>vs. retE (acc @ vs)) w
        = (Inr (acc @ map f (take cohere_batch texts)), w')"
      by (simp add: bindE_def w' retE_def)
    ultimately show ?thesis by (auto simp: loopE_map add.commute)
  qed
qed


section \<open>Properties\<close>

text \<open>
  C35: Embedding through Cohere respects the service's limit of 96 texts for a request: with a
  service that answers every request of at most 96 texts with one vector for each, whatever it
  does with larger ones, the result is one vector for each text, in order.
\<close>

theorem cohere_embed_batches:
  assumes "\<And>ts w. length ts \<le> 96 \<Longrightarrow> \<exists>w'. call ts w = (Inr (map f ts), w')"
  shows "\<exists>w'. cohere_embed call texts w = (Inr (map f texts), w')"
  using cohere_loop[of call f texts "[]" w] assms by (simp add: cohere_embed_def cohere_batch_def)

definition demo_service :: "string list \<Rightarrow> (nat, nat list) eff" where
  "demo_service ts n =
     (if length ts \<le> 96 then (Inr (map length ts), Suc n) else (Inl (LibError ''too many texts''), n))"

theorem cohere_embed_batches_witness:
  "\<exists>w'. cohere_embed demo_service (replicate 97 ''ab'') 0 = (Inr (map length (replicate 97 ''ab'')), w')"
  by (rule cohere_embed_batches) (simp add: demo_service_def)

text \<open>
  The local model is loaded at most once: after an embedding that succeeded, further ones
  do not call the loader, whatever it would do, and use the model that was loaded first.
\<close>

lemma local_model_loaded_once:
  assumes "local_embed load encode texts (e, w) = (Inr vs, (e', w'))"
  shows "\<exists>m. loaded e' = Some m \<and> encode m texts = Inr vs
    \<and> local_embed load' encode texts' (e', v) = (encode m texts', (e', v))"
proof -
  from assms obtain m where "load_model load (e, w) = (Inr m, (e', w'))" "encode m texts = Inr vs"
    by (auto simp: local_embed_def bindE_Inr_iff liftE_apply)
  then have "loaded e' = Some m" "encode m texts = Inr vs"
    by (auto simp: load_model_def split: option.splits prod.splits sum.splits)
  then show ?thesis by (simp add: local_embed_def load_model_def bindE_def liftE_apply)
qed

lemma local_model_loaded_once_example:
  "local_embed (\<lambda>name n. (Inl (LibError ''offline''), n)) (\<lambda>m ts. Inr (map length ts)) [''x'']
      (\<lparr>model_name = ''all-MiniLM-L6-v2'', loaded = Some ()\<rparr>, 1)
    = (Inr [1], (\<lparr>model_name = ''all-MiniLM-L6-v2'', loaded = Some ()\<rparr>, 1))"
proof -
  let ?e = "\<lparr>model_name = ''all-MiniLM-L6-v2'', loaded = Some ()\<rparr>"
  let ?enc = "\<lambda>m ts. Inr (map length ts) :: exc + nat list"
  have "local_embed (\<lambda>name n. (Inr (), Suc n)) ?enc [''ab''] (make_local ''all-MiniLM-L6-v2'', 0::nat)
      = (Inr [2], (?e, 1))"
    by (simp add: local_embed_def load_model_def make_local_def bindE_def liftE_apply)
  from local_model_loaded_once[OF this, of "\<lambda>name n. (Inl (LibError ''offline''), n)" "[''x'']" 1]
  show ?thesis by auto
qed

text \<open>
  A blank key, a placeholder \<open>your_...\<close> and \<open>mock\<close>, also with white space around, select
  the local backend, and every other key selects Cohere; the dimension of the vectors follows
  the backend.
\<close>

lemma make_embedder_choice:
  "make_embedder s = Local_Embedder ''all-MiniLM-L6-v2'' \<longleftrightarrow>
     strip (cohere_api_key s) = [] \<or> startswith (strip (cohere_api_key s)) ''your_''
       \<or> strip (cohere_api_key s) = ''mock''"
  by (auto simp: make_embedder_def usable_key_def Let_def)

end
