(* ===== verification/Retrieval.thy ===== *)
theory Retrieval
  imports Database Vector_Store Prompts Embedder
begin

text \<open>
  Model of \<open>retrieval/tools.py\<close>: the three tools and their dispatch. The world of the tools is
  the pair of an environment \<open>'e\<close> (the embedder and the vector store, which are reached through
  the parameters \<open>emb\<close> and \<open>query\<close>) and the database. The result dictionaries are values of
  \<open>tool_output\<close>.

  The dash in the medium rationale, U+2014, is written as a hyphen.
\<close>

record clause_hit =
  ch_clause_id :: string
  ch_text :: string
  ch_page :: "int option"
  ch_risk_level :: "string option"
  ch_risk_rationale :: "string option"

record 's similar_hit =
  sh_clause_id :: string
  sh_contract_id :: string
  sh_category :: string
  sh_text :: string
  sh_score :: 's

datatype 's tool_output =
    Clauses "clause_hit list" nat
  | Results "'s similar_hit list"
  | Risk string string string string
  | Tool_Error string

definition on_db :: "(db, 'a) eff \<Rightarrow> ('e \<times> db, 'a) eff" where
  "on_db f w = (case f (snd w) of (r, d) \<Rightarrow> (r, (fst w, d)))"

definition on_env :: "('e, 'a) eff \<Rightarrow> ('e \<times> db, 'a) eff" where
  "on_env f w = (case f (fst w) of (r, e) \<Rightarrow> (r, (e, snd w)))"

section \<open>The tools\<close>

definition clause_hit_of :: "clause_row \<Rightarrow> clause_hit" where
  "clause_hit_of r = \<lparr>ch_clause_id = cr_clause_id r, ch_text = cr_text r, ch_page = cr_page r,
     ch_risk_level = cr_risk_level r, ch_risk_rationale = cr_risk_rationale r\<rparr>"

lemma clause_hit_id [simp]: "ch_clause_id \<circ> clause_hit_of = cr_clause_id"
  by (rule ext) (simp add: clause_hit_of_def)

definition extract_clauses :: "string \<Rightarrow> string \<Rightarrow> ('e \<times> db, 's tool_output) eff" where
  "extract_clauses cid category =
     bindE (on_db (session (db_call (\<lambda>t. (select_category cid category t, t)))))
       (\<lambda>rows. let clauses = map clause_hit_of rows in retE (Clauses clauses (length clauses)))"

definition similar_of :: "clause_row \<Rightarrow> 's \<Rightarrow> 's similar_hit" where
  "similar_of r score = \<lparr>sh_clause_id = cr_clause_id r, sh_contract_id = cr_contract_id r,
     sh_category = cr_category r, sh_text = cr_text r, sh_score = score\<rparr>"

text \<open>The dictionary \<open>{row.clause_id: row}\<close>: the last row of an id wins.\<close>

definition rows_by_id :: "clause_row list \<Rightarrow> (string, clause_row) pydict" where
  "rows_by_id rows = fold (\<lambda>r d. dict_set d (cr_clause_id r) r) rows []"

fun hydrate :: "(string, clause_row) pydict \<Rightarrow> 's hit list \<Rightarrow> 's similar_hit list" where
  "hydrate by_id [] = []"
| "hydrate by_id (m # ms) = (case dict_get by_id (hit_id m) of
      None \<Rightarrow> hydrate by_id ms
    | Some r \<Rightarrow> similar_of r (hit_score m) # hydrate by_id ms)"

definition search_similar_clauses ::
    "(string list \<Rightarrow> ('e, 'v list) eff) \<Rightarrow> ('v \<Rightarrow> int \<Rightarrow> ('e, 's hit list) eff)
       \<Rightarrow> string \<Rightarrow> int \<Rightarrow> ('e \<times> db, 's tool_output) eff" where
  "search_similar_clauses emb query q top_k =
     bindE (on_env (emb [q]))
       (\<lambda>vs. case vs of
          [v] \<Rightarrow> bindE (on_env (query v top_k))
            (\<lambda>matches. if matches = [] then retE (Results [])
              else bindE (on_db (session (db_call (\<lambda>t. (select_ids (map hit_id matches) t, t)))))
                (\<lambda>rows. retE (Results (hydrate (rows_by_id rows) matches))))
        | _ \<Rightarrow> raiseE (ValueError ''values to unpack (expected 1)''))"

definition default_top_k :: int where "default_top_k = 5"

definition high_signal_terms :: "string list" where
  "high_signal_terms = [''unlimited liability'', ''perpetual'', ''exclusive'', ''non-compete'',
     ''indemnify'', ''irrevocable'', ''without limitation'']"

definition medium_signal_terms :: "string list" where
  "medium_signal_terms = [''terminate'', ''breach'', ''damages'', ''liability'']"

definition risk_of :: "string \<Rightarrow> risk_level \<times> string" where
  "risk_of clause_text =
     (let text_lower = lower clause_text
      in if \<exists>t \<in> set high_signal_terms. contains text_lower t
         then (HIGH, ''Contains high-risk language (e.g. unlimited liability / non-compete / '' @
           ''perpetual obligation). Worth a senior lawyer'' @ [CHR 0x27] @ ''s review.'')
         else if \<exists>t \<in> set medium_signal_terms. contains text_lower t
         then (MEDIUM, ''Standard but consequential clause - verify the specific terms align '' @
           ''with our usual position.'')
         else (LOW, ''Routine language; no obvious red flags.''))"

definition score_clause_risk :: "string \<Rightarrow> ('e \<times> db, 's tool_output) eff" where
  "score_clause_risk i =
     bindE (on_db (session (db_call (\<lambda>t. (select_ids [i] t, t)))))
       (\<lambda>rows. case rows of
          [] \<Rightarrow> retE (Tool_Error (''clause not found: '' @ i))
        | row # _ \<Rightarrow>
            (case risk_of (cr_text row) of (level, rationale) \<Rightarrow>
               bindE (on_db (session (db_call (\<lambda>t. ((), update_risk (risk_value level) rationale i t)))))
                 (\<lambda>_. retE (Risk i (cr_category row) (risk_value level) rationale))))"

section \<open>Dispatch\<close>

definition tool_registry :: "string list" where
  "tool_registry = [''extract_clauses'', ''search_similar_clauses'', ''score_clause_risk'']"

text \<open>
  Binding of keyword arguments: an unknown one and a missing one without a default raise
  \<open>TypeError\<close>. An argument of another type than declared fails later, in the tool; the
  model raises at once, before any effect.
\<close>

definition bind_args :: "string list \<Rightarrow> string list \<Rightarrow> (string \<times> json) list \<Rightarrow> exc + unit" where
  "bind_args required optional args =
     (if (\<forall>k \<in> set (dict_keys args). k \<in> set required \<union> set optional)
         \<and> (\<forall>k \<in> set required. dict_get args k \<noteq> None)
      then Inr () else Inl TypeError)"

definition str_arg :: "(string \<times> json) list \<Rightarrow> string \<Rightarrow> exc + string" where
  "str_arg args k = (case dict_get args k of Some (JStr s) \<Rightarrow> Inr s | _ \<Rightarrow> Inl unmodelled)"

definition int_arg :: "(string \<times> json) list \<Rightarrow> string \<Rightarrow> int \<Rightarrow> exc + int" where
  "int_arg args k dflt = (case dict_get args k of
      None \<Rightarrow> Inr dflt | Some (JInt n) \<Rightarrow> Inr n | _ \<Rightarrow> Inl unmodelled)"

definition unknown_tool :: "string \<Rightarrow> exc" where
  "unknown_tool name = ValueError (''unknown tool: '' @ name @ ''. available: ['' @
     join '', '' (map (\<lambda>t. [CHR 0x27] @ t @ [CHR 0x27]) tool_registry) @ '']'')"

definition dispatch_tool ::
    "(string list \<Rightarrow> ('e, 'v list) eff) \<Rightarrow> ('v \<Rightarrow> int \<Rightarrow> ('e, 's hit list) eff)
       \<Rightarrow> string \<Rightarrow> (string \<times> json) list \<Rightarrow> ('e \<times> db, 's tool_output) eff" where
  "dispatch_tool emb query name args =
     (if name \<notin> set tool_registry then raiseE (unknown_tool name)
      else if name = ''extract_clauses'' then
        bindE (liftE (bindX (bind_args [''contract_id'', ''category''] [] args)
            (\<lambda>_. bindX (str_arg args ''contract_id'')
              (\<lambda>cid. bindX (str_arg args ''category'') (\<lambda>cat. Inr (cid, cat))))))
          (\<lambda>(cid, cat). extract_clauses cid cat)
      else if name = ''search_similar_clauses'' then
        bindE (liftE (bindX (bind_args [''query''] [''top_k''] args)
            (\<lambda>_. bindX (str_arg args ''query'')
              (\<lambda>q. bindX (int_arg args ''top_k'' default_top_k) (\<lambda>k. Inr (q, k))))))
          (\<lambda>(q, k). search_similar_clauses emb query q k)
      else
        bindE (liftE (bindX (bind_args [''clause_id''] [] args) (\<lambda>_. str_arg args ''clause_id'')))
          score_clause_risk)"


section \<open>Laws\<close>

lemma on_db_Inr: "on_db f (e, d) = (Inr a, (e', d')) \<longleftrightarrow> e' = e \<and> f d = (Inr a, d')"
  by (auto simp: on_db_def split: prod.splits)

lemma read_session_Inr:
  assumes "session (db_call (\<lambda>t. (f t, t))) d = (Inr a, d')"
  shows "a = f (db_tables d)" "db_tables d' = db_tables d"
proof -
  obtain d1 where "db_call (\<lambda>t. (f t, t)) d = (Inr a, d1)" and d1: "db_tables d' = db_tables d1"
    by (rule session_Inr[OF assms])
  from db_call_Inr[OF this(1)] d1 show "a = f (db_tables d)" "db_tables d' = db_tables d" by simp_all
qed

lemma write_session_Inr:
  assumes "session (db_call (\<lambda>t. ((), f t))) d = (Inr u, d')"
  shows "db_tables d' = f (db_tables d)"
proof -
  obtain d1 where "db_call (\<lambda>t. ((), f t)) d = (Inr u, d1)" and d1: "db_tables d' = db_tables d1"
    by (rule session_Inr[OF assms])
  from db_call_Inr[OF this(1)] d1 show ?thesis by simp
qed

lemma on_db_session_tables:
  "on_db (session body) w = (Inl x, w') \<Longrightarrow> db_tables (snd w') = db_tables (snd w) \<and> fst w' = fst w"
  by (auto simp: on_db_def split: prod.splits dest: session_Inl)

lemma extract_clauses_result:
  assumes "extract_clauses cid category (e, d) = (Inr out, (e', d'))"
  shows "out = (let rows = select_category cid category (db_tables d) in Clauses (map clause_hit_of rows) (length rows))"
    "e' = e" "db_tables d' = db_tables d"
proof -
  obtain rows where rows: "session (db_call (\<lambda>t. (select_category cid category t, t))) d = (Inr rows, d')"
    and out: "out = Clauses (map clause_hit_of rows) (length (map clause_hit_of rows))" and e: "e' = e"
    using assms by (auto simp: extract_clauses_def bindE_Inr_iff on_db_Inr retE_apply Let_def)
  note r = read_session_Inr[OF rows]
  from out r show "out = (let rows = select_category cid category (db_tables d)
      in Clauses (map clause_hit_of rows) (length rows))" by (simp add: Let_def)
  from e r show "e' = e" "db_tables d' = db_tables d" by simp_all
qed

lemma rows_by_id_Some:
  assumes "distinct (map cr_clause_id rows)"
  shows "dict_get (rows_by_id rows) i = Some r \<longleftrightarrow> r \<in> set rows \<and> cr_clause_id r = i"
proof -
  have "dict_get (fold (\<lambda>r d. dict_set d (cr_clause_id r) r) rows d) i
      = (case map_of (map (\<lambda>r. (cr_clause_id r, r)) rows) i of Some r \<Rightarrow> Some r | None \<Rightarrow> dict_get d i)" for d
    using assms
  proof (induction rows arbitrary: d)
    case (Cons r rows)
    then have "map_of (map (\<lambda>r. (cr_clause_id r, r)) rows) (cr_clause_id r) = None"
      by (auto simp: map_of_eq_None_iff image_image)
    with Cons show ?case by (auto simp: dict_simps split: option.splits)
  qed simp
  from this[of "[]"] have "dict_get (rows_by_id rows) i = map_of (map (\<lambda>r. (cr_clause_id r, r)) rows) i"
    by (simp add: rows_by_id_def dict_simps split: option.splits)
  moreover have "distinct (map fst (map (\<lambda>r. (cr_clause_id r, r)) rows))" using assms by (simp add: comp_def)
  note map_of_eq_Some_iff[OF this]
  ultimately show ?thesis by auto
qed

lemma hydrate_ids:
  "map sh_clause_id (hydrate d ms) = map hit_id (filter (\<lambda>m. dict_get d (hit_id m) \<noteq> None) ms)"
  if "\<And>i r. dict_get d i = Some r \<Longrightarrow> cr_clause_id r = i"
  using that by (induction ms) (auto simp: similar_of_def split: option.splits)

lemma hydrate_scores:
  "map sh_score (hydrate d ms) = map hit_score (filter (\<lambda>m. dict_get d (hit_id m) \<noteq> None) ms)"
  by (induction ms) (auto simp: similar_of_def split: option.splits)

lemma hydrate_set:
  "h \<in> set (hydrate d ms) \<longleftrightarrow> (\<exists>m \<in> set ms. \<exists>r. dict_get d (hit_id m) = Some r \<and> h = similar_of r (hit_score m))"
  by (induction ms) (auto split: option.splits)

lemma sorted_rev_filter: "sorted (rev (map f ms)) \<Longrightarrow> sorted (rev (map f (filter P ms)))"
  by (simp add: rev_map rev_filter sorted_filter)

lemma update_risk_fields:
  "map cr_clause_id (clause_rows (update_risk lvl why i t)) = map cr_clause_id (clause_rows t)"
  "contract_rows (update_risk lvl why i t) = contract_rows t"
  by (simp_all add: update_risk_def comp_def if_distrib cong: if_cong)

lemma select_ids_update_risk:
  "select_ids [i] (update_risk lvl why i t)
     = map (\<lambda>r. r\<lparr>cr_risk_level := Some lvl, cr_risk_rationale := Some why\<rparr>) (select_ids [i] t)"
  by (simp add: select_ids_def update_risk_def filter_map comp_def)

lemma update_risk_twice: "update_risk lvl why i (update_risk lvl why i t) = update_risk lvl why i t"
  by (simp add: update_risk_def comp_def)

lemma score_cases:
  assumes "score_clause_risk i (e, d) = (Inr out, (e', d'))"
  shows "e' = e \<and> (case select_ids [i] (db_tables d) of
      [] \<Rightarrow> out = Tool_Error (''clause not found: '' @ i) \<and> db_tables d' = db_tables d
    | r # _ \<Rightarrow> out = Risk i (cr_category r) (risk_value (fst (risk_of (cr_text r)))) (snd (risk_of (cr_text r)))
        \<and> db_tables d' = update_risk (risk_value (fst (risk_of (cr_text r)))) (snd (risk_of (cr_text r))) i (db_tables d))"
proof -
  obtain rows d1 where rows: "session (db_call (\<lambda>t. (select_ids [i] t, t))) d = (Inr rows, d1)"
    and rest: "(case rows of [] \<Rightarrow> retE (Tool_Error (''clause not found: '' @ i))
        | row # _ \<Rightarrow> (case risk_of (cr_text row) of (level, rationale) \<Rightarrow>
               bindE (on_db (session (db_call (\<lambda>t. ((), update_risk (risk_value level) rationale i t)))))
                 (\<lambda>_. retE (Risk i (cr_category row) (risk_value level) rationale)))) (e, d1) = (Inr out, (e', d'))"
    using assms by (auto simp: score_clause_risk_def bindE_Inr_iff on_db_Inr)
  have r: "rows = select_ids [i] (db_tables d)" "db_tables d1 = db_tables d"
    using read_session_Inr[OF rows] by auto
  show ?thesis
  proof (cases rows)
    case Nil
    with rest r show ?thesis by (simp add: retE_apply)
  next
    case (Cons row rs)
    then have sel: "select_ids [i] (db_tables d) = row # rs" using r(1) by simp
    from rest show ?thesis
      unfolding Cons sel
      by (auto simp: r(2) bindE_Inr_iff on_db_Inr retE_apply case_prod_unfold dest!: write_session_Inr)
  qed
qed


lemma search_result:
  assumes "distinct (map cr_clause_id (clause_rows (db_tables d)))"
    and "emb [q] e = (Inr [v], e1)" and "query v top_k e1 = (Inr ms, e2)"
    and "search_similar_clauses emb query q top_k (e, d) = (Inr out, (e', d'))"
  shows "\<exists>rs. out = Results rs \<and> e' = e2 \<and> db_tables d' = db_tables d
    \<and> (let kept = filter (\<lambda>m. hit_id m \<in> cr_clause_id ` set (clause_rows (db_tables d))) ms
       in map sh_clause_id rs = map hit_id kept \<and> map sh_score rs = map hit_score kept)
    \<and> (\<forall>h \<in> set rs. \<exists>r \<in> set (clause_rows (db_tables d)). h = similar_of r (sh_score h))"
proof (cases "ms = []")
  case True
  then show ?thesis
    using assms(2-4) by (auto simp: search_similar_clauses_def bindE_def on_env_def retE_apply)
next
  case False
  obtain rows where rows: "session (db_call (\<lambda>t. (select_ids (map hit_id ms) t, t))) d = (Inr rows, d')"
    and out: "out = Results (hydrate (rows_by_id rows) ms)" "e' = e2"
    using assms(2-4) False
    by (auto simp: search_similar_clauses_def bindE_Inr_iff on_env_def on_db_Inr retE_apply)
  note r = read_session_Inr[OF rows]
  have dist: "distinct (map cr_clause_id rows)"
    unfolding r(1) select_ids_def using assms(1) by (rule distinct_map_filter)
  note get = rows_by_id_Some[OF dist]
  have kept: "filter (\<lambda>m. dict_get (rows_by_id rows) (hit_id m) \<noteq> None) ms
      = filter (\<lambda>m. hit_id m \<in> cr_clause_id ` set (clause_rows (db_tables d))) ms"
  proof (rule filter_cong[OF refl])
    fix m assume "m \<in> set ms"
    then have "(\<exists>r \<in> set rows. cr_clause_id r = hit_id m)
        \<longleftrightarrow> hit_id m \<in> cr_clause_id ` set (clause_rows (db_tables d))"
      by (simp add: r(1) select_ids_def image_iff) metis
    then show "(dict_get (rows_by_id rows) (hit_id m) \<noteq> None) =
        (hit_id m \<in> cr_clause_id ` set (clause_rows (db_tables d)))"
      using get[of "hit_id m"] by (metis not_None_eq)
  qed
  have "map sh_clause_id (hydrate (rows_by_id rows) ms)
      = map hit_id (filter (\<lambda>m. hit_id m \<in> cr_clause_id ` set (clause_rows (db_tables d))) ms)"
    unfolding kept[symmetric] by (rule hydrate_ids) (simp add: get)
  moreover have "map sh_score (hydrate (rows_by_id rows) ms)
      = map hit_score (filter (\<lambda>m. hit_id m \<in> cr_clause_id ` set (clause_rows (db_tables d))) ms)"
    unfolding kept[symmetric] by (rule hydrate_scores)
  moreover have "\<exists>r \<in> set (clause_rows (db_tables d)). h = similar_of r (sh_score h)"
    if h: "h \<in> set (hydrate (rows_by_id rows) ms)" for h
  proof -
    obtain m row where "m \<in> set ms"
      and row: "dict_get (rows_by_id rows) (hit_id m) = Some row" "h = similar_of row (hit_score m)"
      using h unfolding hydrate_set by blast
    then have "row \<in> set rows" using get by blast
    then show ?thesis using row(2) by (auto simp: r(1) select_ids_def similar_of_def)
  qed
  ultimately show ?thesis
    using out r(2) by (simp add: Let_def)
qed

section \<open>Properties\<close>

text \<open>
  \<open>extract_clauses\<close> returns exactly the clauses of the contract that have the category,
  each once and in the order of their ids, with their number; it changes no table.
\<close>

lemma extract_clauses_correct:
  assumes "tables_ok (db_tables d)" and "extract_clauses cid category (e, d) = (Inr out, (e', d'))"
  shows "\<exists>cs. out = Clauses cs (length cs)
    \<and> set cs = clause_hit_of ` {r \<in> set (clause_rows (db_tables d)). cr_contract_id r = cid \<and> cr_category r = category}
    \<and> sorted (map ch_clause_id cs) \<and> distinct (map ch_clause_id cs)
    \<and> e' = e \<and> db_tables d' = db_tables d"
proof -
  let ?rows = "select_category cid category (db_tables d)"
  note r = extract_clauses_result[OF assms(2)]
  let ?sel = "filter (\<lambda>r. cr_contract_id r = cid \<and> cr_category r = category) (clause_rows (db_tables d))"
  have ids: "map ch_clause_id (map clause_hit_of ?rows) = map cr_clause_id ?rows" by simp
  have "inj_on cr_clause_id (set ?sel)" "distinct ?sel"
    using assms(1) by (auto simp: tables_ok_def distinct_map inj_on_def)
  then have "distinct (map cr_clause_id ?rows)"
    by (simp add: select_category_def distinct_map)
  moreover have "sorted (map cr_clause_id ?rows)" by (simp add: select_category_def)
  ultimately show ?thesis using r ids by (auto simp: select_category_def)
qed

text \<open>A database with two clauses of one contract, for the witnesses.\<close>

definition clause_b :: clause_row where
  "clause_b = \<lparr>cr_clause_id = ''c-2'', cr_contract_id = ''c'', cr_category = ''term'',
     cr_text = ''Perpetual licence'', cr_page = None, cr_risk_level = None, cr_risk_rationale = None,
     cr_vector_id = None, cr_embedded_at = None\<rparr>"

definition clause_a :: clause_row where
  "clause_a = clause_b\<lparr>cr_clause_id := ''c-1'', cr_text := ''One year''\<rparr>"

definition db_two :: db where
  "db_two = \<lparr>db_tables = \<lparr>clause_rows = [clause_b, clause_a], contract_rows = []\<rparr>, db_faults = []\<rparr>"

lemma db_two_ok: "tables_ok (db_tables db_two)" "distinct (map cr_clause_id (clause_rows (db_tables db_two)))"
  by (simp_all add: tables_ok_def db_two_def clause_a_def clause_b_def)

lemma session_read_two: "session (db_call (\<lambda>t. (f t, t))) db_two = (Inr (f (db_tables db_two)), db_two)"
  by (simp add: session_def bindE_def db_call_def db_two_def retE_apply Let_def)

lemma extract_clauses_correct_example:
  "\<exists>cs. fst (extract_clauses ''c'' ''term'' ((), db_two)) = Inr (Clauses cs (length cs) :: int tool_output)
     \<and> set cs = {clause_hit_of clause_a, clause_hit_of clause_b} \<and> sorted (map ch_clause_id cs)"
proof -
  obtain out :: "int tool_output" where run: "extract_clauses ''c'' ''term'' ((), db_two) = (Inr out, ((), db_two))"
    by (simp add: extract_clauses_def bindE_def on_db_def session_read_two retE_apply Let_def)
  have "{r \<in> set (clause_rows (db_tables db_two)). cr_contract_id r = ''c'' \<and> cr_category r = ''term''}
      = {clause_a, clause_b}"
    by (auto simp: db_two_def clause_a_def clause_b_def)
  with extract_clauses_correct[OF db_two_ok(1) run] run show ?thesis by auto
qed

text \<open>
  A search keeps the order and the scores of the vector store: its results are the matches
  that still have a clause row, in the order of the store, each with the text, contract and
  category of its row and the score of its match; matches without a row are dropped.
\<close>

lemma search_hydrates_in_order:
  assumes "distinct (map cr_clause_id (clause_rows (db_tables d)))"
    and "emb [q] e = (Inr [v], e1)" and "query v top_k e1 = (Inr ms, e2)"
    and "search_similar_clauses emb query q top_k (e, d) = (Inr out, (e', d'))"
  shows "\<exists>rs. out = Results rs \<and> e' = e2 \<and> db_tables d' = db_tables d
    \<and> (let kept = filter (\<lambda>m. hit_id m \<in> cr_clause_id ` set (clause_rows (db_tables d))) ms
       in map sh_clause_id rs = map hit_id kept \<and> map sh_score rs = map hit_score kept)
    \<and> (\<forall>h \<in> set rs. \<exists>r \<in> set (clause_rows (db_tables d)). h = similar_of r (sh_score h))"
  using assms by (rule search_result)

lemma search_hydrates_in_order_example:
  "\<exists>rs. fst (search_similar_clauses (\<lambda>ts e. (Inr (map length ts), e))
      (\<lambda>v k e. (Inr [\<lparr>hit_id = ''c-2'', hit_score = (9::int), hit_metadata = []\<rparr>,
                    \<lparr>hit_id = ''gone'', hit_score = 5, hit_metadata = []\<rparr>], e)) ''q'' 5 ((), db_two))
    = Inr (Results rs) \<and> map sh_clause_id rs = [''c-2''] \<and> map sh_score rs = [9]"
proof -
  let ?emb = "\<lambda>ts e. (Inr (map length ts), e) :: (exc + nat list) \<times> unit"
  let ?ms = "[\<lparr>hit_id = ''c-2'', hit_score = (9::int), hit_metadata = []\<rparr>,
      \<lparr>hit_id = ''gone'', hit_score = 5, hit_metadata = []\<rparr>]"
  let ?query = "\<lambda>v k e. (Inr ?ms, e) :: (exc + int hit list) \<times> unit"
  have emb: "?emb [''q''] () = (Inr [1], ())" by simp
  have qu: "?query 1 5 () = (Inr ?ms, ())" by simp
  obtain out where run: "search_similar_clauses ?emb ?query ''q'' 5 ((), db_two) = (Inr out, ((), db_two))"
    by (simp add: search_similar_clauses_def bindE_def on_db_def on_env_def session_read_two retE_apply)
  note res = search_hydrates_in_order[where emb = ?emb and query = ?query, OF db_two_ok(2) emb qu run]
  have "filter (\<lambda>m. hit_id m \<in> cr_clause_id ` set (clause_rows (db_tables db_two))) ?ms
      = [\<lparr>hit_id = ''c-2'', hit_score = 9, hit_metadata = []\<rparr>]"
    by (simp add: db_two_def clause_a_def clause_b_def)
  with res run show ?thesis by (auto simp: Let_def)
qed


lemma risk_of_level:
  "risk_value (fst (risk_of txt)) =
     (if \<exists>t \<in> {''unlimited liability'', ''perpetual'', ''exclusive'', ''non-compete'', ''indemnify'', ''irrevocable'',
          ''without limitation''}. \<exists>u v. lower txt = u @ t @ v then ''high''
      else if \<exists>t \<in> {''terminate'', ''breach'', ''damages'', ''liability''}. \<exists>u v. lower txt = u @ t @ v then ''medium''
      else ''low'')"
  unfolding risk_of_def Let_def contains_iff
  by (simp add: high_signal_terms_def medium_signal_terms_def)

text \<open>
  C34: \<open>score_clause_risk\<close> reports an id that no row has, and then changes nothing. Otherwise it rates
  the text of the first row of the clause: high exactly when it contains one of the high-signal terms
  in any letter case, else medium when it contains a medium one, else low. The clause table keeps its
  length and order; every row of the clause has the rating and its rationale and is otherwise the
  same, every row of another clause is the same, and so are the contracts. Scoring again
  returns the same result and changes nothing more.
\<close>

theorem score_clause_risk_correct:
  assumes "score_clause_risk i (e, d) = (Inr out, (e', d'))"
    and "score_clause_risk i (e', d') = (Inr out', (e'', d''))"
  shows "e' = e \<and> contract_rows (db_tables d') = contract_rows (db_tables d)
    \<and> length (clause_rows (db_tables d')) = length (clause_rows (db_tables d))
    \<and> (\<forall>j < length (clause_rows (db_tables d)). cr_clause_id (clause_rows (db_tables d) ! j) \<noteq> i \<longrightarrow>
         clause_rows (db_tables d') ! j = clause_rows (db_tables d) ! j)
    \<and> (case find (\<lambda>r. cr_clause_id r = i) (clause_rows (db_tables d)) of
         None \<Rightarrow> out = Tool_Error (''clause not found: '' @ i)
       | Some r \<Rightarrow> \<exists>lvl why. out = Risk i (cr_category r) lvl why
           \<and> lvl = (if \<exists>t \<in> {''unlimited liability'', ''perpetual'', ''exclusive'', ''non-compete'', ''indemnify'',
                    ''irrevocable'', ''without limitation''}. \<exists>u v. lower (cr_text r) = u @ t @ v then ''high''
                else if \<exists>t \<in> {''terminate'', ''breach'', ''damages'', ''liability''}.
                    \<exists>u v. lower (cr_text r) = u @ t @ v then ''medium''
                else ''low'')
           \<and> (\<forall>j < length (clause_rows (db_tables d)). cr_clause_id (clause_rows (db_tables d) ! j) = i \<longrightarrow>
                clause_rows (db_tables d') ! j = (clause_rows (db_tables d) ! j)
                  \<lparr>cr_risk_level := Some lvl, cr_risk_rationale := Some why\<rparr>))
    \<and> out' = out \<and> db_tables d'' = db_tables d'"
proof -
  note 1 = score_cases[OF assms(1)] and 2 = score_cases[OF assms(2)]
  let ?rows = "clause_rows (db_tables d)"
  show ?thesis
  proof (cases "select_ids [i] (db_tables d)")
    case Nil
    then have none: "cr_clause_id r \<noteq> i" if "r \<in> set ?rows" for r
      using that by (auto simp: select_ids_def filter_empty_conv)
    then have "find (\<lambda>r. cr_clause_id r = i) ?rows = None" by (auto simp: find_None_iff)
    with 1 2 Nil show ?thesis by simp
  next
    case (Cons r rs)
    let ?lvl = "risk_value (fst (risk_of (cr_text r)))" and ?why = "snd (risk_of (cr_text r))"
    have d': "db_tables d' = update_risk ?lvl ?why i (db_tables d)" and out: "out = Risk i (cr_category r) ?lvl ?why"
      and e': "e' = e"
      using 1 Cons by auto
    have "select_ids [i] (db_tables d') = (r\<lparr>cr_risk_level := Some ?lvl, cr_risk_rationale := Some ?why\<rparr>)
        # map (\<lambda>r. r\<lparr>cr_risk_level := Some ?lvl, cr_risk_rationale := Some ?why\<rparr>) rs"
      unfolding d' select_ids_update_risk Cons by simp
    then have again: "out' = out" "db_tables d'' = db_tables d'"
      using 2 out by (simp_all add: d' update_risk_twice)
    have found: "find (\<lambda>r. cr_clause_id r = i) ?rows = Some r"
    proof -
      have "filter (\<lambda>r. cr_clause_id r = i) xs = r # rs \<Longrightarrow> find (\<lambda>r. cr_clause_id r = i) xs = Some r" for xs
        by (induction xs) (auto split: if_splits)
      then show ?thesis using Cons by (simp add: select_ids_def)
    qed
    have rows: "clause_rows (db_tables d') = map (\<lambda>r. if cr_clause_id r = i
        then r\<lparr>cr_risk_level := Some ?lvl, cr_risk_rationale := Some ?why\<rparr> else r) ?rows"
      and contracts: "contract_rows (db_tables d') = contract_rows (db_tables d)"
      by (simp_all add: d' update_risk_def)
    have "\<exists>lvl why. out = Risk i (cr_category r) lvl why \<and> lvl = ?lvl
        \<and> (\<forall>j < length ?rows. cr_clause_id (?rows ! j) = i \<longrightarrow> clause_rows (db_tables d') ! j
            = (?rows ! j)\<lparr>cr_risk_level := Some lvl, cr_risk_rationale := Some why\<rparr>)"
      using out by (simp add: rows)
    then show ?thesis unfolding found risk_of_level option.case using e' contracts again by (simp add: rows)
  qed
qed

lemma session_write_ok:
  "db_faults d = [] \<Longrightarrow> session (db_call (\<lambda>t. ((), f t))) d = (Inr (), d\<lparr>db_tables := f (db_tables d)\<rparr>)"
  by (simp add: session_def bindE_def db_call_def retE_apply Let_def)

lemma session_read_ok:
  "db_faults d = [] \<Longrightarrow> session (db_call (\<lambda>t. (f t, t))) d = (Inr (f (db_tables d)), d)"
  by (simp add: session_def bindE_def db_call_def retE_apply Let_def)

theorem score_clause_risk_correct_witness:
  "\<exists>why d'. score_clause_risk ''c-2'' ((), db_two) = (Inr (Risk ''c-2'' ''term'' ''high'' why :: int tool_output), ((), d'))
     \<and> fst (score_clause_risk ''c-2'' ((), d')) = Inr (Risk ''c-2'' ''term'' ''high'' why :: int tool_output)"
proof -
  have sel: "select_ids [''c-2''] (db_tables db_two) = [clause_b]"
    by (simp add: select_ids_def db_two_def clause_a_def clause_b_def)
  have "fst (risk_of ''Perpetual licence'') = HIGH" by code_simp
  then obtain why where risk: "risk_of ''Perpetual licence'' = (HIGH, why)"
    by (cases "risk_of ''Perpetual licence''") simp
  define d' where "d' = db_two\<lparr>db_tables := update_risk ''high'' why ''c-2'' (db_tables db_two)\<rparr>"
  have "db_faults db_two = []" "db_faults d' = []" by (simp_all add: db_two_def d'_def)
  note ok = session_write_ok[OF this(1)] session_write_ok[OF this(2)] session_read_ok[OF this(1)] session_read_ok[OF this(2)]
  have run: "score_clause_risk ''c-2'' ((), db_two) = (Inr (Risk ''c-2'' ''term'' ''high'' why :: int tool_output), ((), d'))"
    by (simp add: score_clause_risk_def bindE_def on_db_def ok sel risk retE_apply clause_b_def d'_def)
  have sel': "select_ids [''c-2''] (db_tables d') = [clause_b\<lparr>cr_risk_level := Some ''high'', cr_risk_rationale := Some why\<rparr>]"
    by (simp add: d'_def select_ids_update_risk sel)
  obtain out d'' where run': "score_clause_risk ''c-2'' ((), d') = (Inr (out :: int tool_output), ((), d''))"
    by (simp add: score_clause_risk_def bindE_def on_db_def ok sel' risk retE_apply clause_b_def)
  from score_clause_risk_correct[OF run run'] run run' show ?thesis by auto
qed

text \<open>
  A tool call with a name that is not registered raises \<open>ValueError\<close> and has no effect. The
  registered names are those of the definitions sent to the model, and the category parameter
  tells the model exactly the values of \<open>ClauseCategory\<close>.
\<close>

lemma tools_match_definitions:
  assumes "name \<notin> set tool_registry"
  shows "dispatch_tool emb query name args w = (Inl (unknown_tool name), w)
    \<and> map tool_name TOOL_DEFINITIONS = tool_registry
    \<and> par_description (tool_parameters (hd TOOL_DEFINITIONS) ! 1)
        = ''The clause category to extract. Must be one of: '' @ join '', '' (map kind_value all_kinds)"
  using assms
  by (simp add: dispatch_tool_def raiseE_apply TOOL_DEFINITIONS_def tool_registry_def all_kinds_def)

lemma tools_match_definitions_example:
  "dispatch_tool (\<lambda>ts e. (Inr [()], e)) (\<lambda>v k e. (Inr [], e)) ''drop_table'' [] ((), db_two)
     = (Inl (unknown_tool ''drop_table'') :: exc + int tool_output, ((), db_two))"
  by (rule conjunct1[OF tools_match_definitions]) (simp add: tool_registry_def)

end
