(* ===== verification/Agent_Tools.thy ===== *)
theory Agent_Tools
  imports Agent_Loop Retrieval
begin

text \<open>
  The agent of \<open>agents/loop.py\<close> with the tools of \<open>retrieval/tools.py\<close>: the composition that
  answers a request. The language model is the parameter \<open>chat\<close>; it decides which tools are
  called with which arguments, so what holds here holds for every model.
\<close>

section \<open>The tools\<close>

text \<open>What the tools must not change: the contracts, and the clauses up to their rating.\<close>

definition unrated :: "clause_row \<Rightarrow> clause_row" where
  "unrated r = r\<lparr>cr_risk_level := None, cr_risk_rationale := None\<rparr>"

definition content :: "tables \<Rightarrow> clause_row list \<times> contract_row list" where
  "content t = (map unrated (clause_rows t), contract_rows t)"

text \<open>A stored rating is the one of the stored text.\<close>

definition rating :: "clause_row \<Rightarrow> string option \<times> string option" where
  "rating r = (cr_risk_level r, cr_risk_rationale r)"

definition ratings_ok :: "tables \<Rightarrow> bool" where
  "ratings_ok t \<longleftrightarrow> (\<forall>r \<in> set (clause_rows t). rating r = (None, None)
     \<or> rating r = (Some (risk_value (fst (risk_of (cr_text r)))), Some (snd (risk_of (cr_text r)))))"

definition only_rated :: "tables \<Rightarrow> 'e \<times> db \<Rightarrow> bool" where
  "only_rated t0 w \<longleftrightarrow> content (db_tables (snd w)) = content t0 \<and> ratings_ok (db_tables (snd w))
     \<and> distinct (map cr_clause_id (clause_rows (db_tables (snd w))))"

lemma content_update_risk: "content (update_risk lvl why i t) = content t"
  by (simp add: content_def update_risk_def unrated_def comp_def if_distrib cong: if_cong)

lemma ratings_update_risk:
  assumes "ratings_ok t" "distinct (map cr_clause_id (clause_rows t))" "select_ids [i] t = row # rs"
  shows "ratings_ok (update_risk (risk_value (fst (risk_of (cr_text row)))) (snd (risk_of (cr_text row))) i t)"
proof -
  have "row \<in> set (clause_rows t)" "cr_clause_id row = i"
    using assms(3) by (auto simp: select_ids_def filter_eq_Cons_iff)
  then have "r = row" if "r \<in> set (clause_rows t)" "cr_clause_id r = i" for r
    using assms(2) that by (auto simp: distinct_map inj_on_def)
  then show ?thesis
    using assms(1) by (auto simp: ratings_ok_def update_risk_def rating_def)
qed

lemma read_session_tables:
  assumes "session (db_call (\<lambda>t. (f t, t))) d = (r, d')"
  shows "db_tables d' = db_tables d"
proof (cases r)
  case (Inl x)
  with assms show ?thesis by (simp add: session_Inl)
next
  case (Inr a)
  with assms show ?thesis by (simp add: read_session_Inr(2)[of f d a d'])
qed

lemma score_tables:
  assumes "score_clause_risk i (e, d) = (r, (e', d'))"
  shows "db_tables d' = db_tables d \<or> (\<exists>row rs. select_ids [i] (db_tables d) = row # rs
    \<and> db_tables d' = update_risk (risk_value (fst (risk_of (cr_text row)))) (snd (risk_of (cr_text row))) i (db_tables d))"
proof (cases r)
  case (Inr out)
  with score_cases[of i e d out e' d'] assms show ?thesis by (auto split: list.splits)
next
  case (Inl x)
  then show ?thesis
    using assms
    by (auto simp: score_clause_risk_def bindE_Inl_iff on_db_Inr retE_apply case_prod_unfold
        split: list.splits dest!: on_db_session_tables read_session_tables)
      (auto simp: neq_Nil_conv dest!: on_db_session_tables read_session_tables)
qed

lemma keeps_read: "keepsE (only_rated t0) (on_db (session (db_call (\<lambda>t. (f t, t)))))"
  unfolding keepsE_def only_rated_def on_db_def by (auto split: prod.splits dest!: read_session_tables)

lemma keeps_env: "keepsE (only_rated t0) (on_env f)"
  unfolding keepsE_def only_rated_def on_env_def by (auto split: prod.splits)

lemma keeps_score: "keepsE (only_rated t0) (score_clause_risk i)"
  unfolding keepsE_def only_rated_def
  by (auto dest!: score_tables simp: content_update_risk ratings_update_risk update_risk_fields)

lemma keeps_extract: "keepsE (only_rated t0) (extract_clauses cid cat)"
  unfolding extract_clauses_def Let_def by (intro keepsE_intros keeps_read)

lemma keeps_search: "keepsE (only_rated t0) (search_similar_clauses emb query q k)"
proof -
  have "keepsE (only_rated t0) (if ms = [] then retE (Results [])
      else bindE (on_db (session (db_call (\<lambda>t. (select_ids (map hit_id ms) t, t)))))
        (\<lambda>rows. retE (Results (hydrate (rows_by_id rows) ms))))" for ms
    by (cases "ms = []") (simp_all add: keepsE_intros keeps_read)
  then have "keepsE (only_rated t0) (case vs of
      [v] \<Rightarrow> bindE (on_env (query v k)) (\<lambda>ms. if ms = [] then retE (Results [])
              else bindE (on_db (session (db_call (\<lambda>t. (select_ids (map hit_id ms) t, t)))))
                (\<lambda>rows. retE (Results (hydrate (rows_by_id rows) ms))))
    | _ \<Rightarrow> raiseE (ValueError ''values to unpack (expected 1)''))" for vs
    by (auto intro!: keepsE_intros keeps_env split: list.splits)
  then show ?thesis unfolding search_similar_clauses_def by (intro keepsE_bindE keeps_env)
qed

lemma keeps_dispatch: "keepsE (only_rated t0) (dispatch_tool emb query name args)"
  unfolding dispatch_tool_def
  by (auto intro!: keepsE_intros keeps_score keeps_extract keeps_search split: prod.splits)

section \<open>The agent\<close>

definition contract_agent ::
    "settings \<Rightarrow> ('s tool_output request \<Rightarrow> ('e \<times> db, response) eff) \<Rightarrow> (string list \<Rightarrow> ('e, 'v list) eff)
       \<Rightarrow> ('v \<Rightarrow> int \<Rightarrow> ('e, 's hit list) eff) \<Rightarrow> ('s tool_output \<Rightarrow> string)
       \<Rightarrow> ((string \<times> json) list \<Rightarrow> string) \<Rightarrow> (exc \<Rightarrow> string) \<Rightarrow> ('e \<times> db, 's tool_output) agent" where
  "contract_agent s chat emb query show_out show_args show_exc =
     \<lparr>ag_model = cohere_model s, ag_chat = chat, ag_dispatch = dispatch_tool emb query,
      ag_show = show_out, ag_show_args = show_args, ag_exc_str = show_exc\<rparr>"

lemma keeps_emit: "keepsE (\<lambda>s. I (fst s)) (emit ev)"
  by (simp add: keepsE_def emit_def)

lemma keeps_quietly: "keepsE I f \<Longrightarrow> keepsE (\<lambda>s. I (fst s)) (quietly f)"
  unfolding keepsE_def quietly_def by (auto split: prod.splits)

lemma keeps_attempt: "keepsE I f \<Longrightarrow> keepsE I (attempt n f)"
  by (induction n) (auto intro!: keepsE_intros)


lemma keeps_agent_iter:
  assumes "\<And>rq. keepsE I (ag_chat A rq)" "\<And>name args. keepsE I (ag_dispatch A name args)"
  shows "keepsE (\<lambda>s. I (fst s)) (agent_iter A n h m res)"
proof (induction n arbitrary: m res)
  case 0
  show ?case by (auto intro!: keepsE_intros keeps_emit)
next
  case (Suc n)
  have tool: "keepsE (\<lambda>s. I (fst s)) (run_tool A tc acc)" for tc acc
    unfolding run_tool_def by (intro keepsE_intros keeps_emit keeps_quietly assms(2))
  have "keepsE (\<lambda>s. I (fst s)) (quietly (call_cohere A m h res))"
    unfolding call_cohere_def by (intro keeps_quietly keeps_attempt assms(1))
  with Suc tool show ?case
    by (simp only: agent_iter.simps) (auto intro!: keepsE_intros keeps_emit)
qed

section \<open>Properties\<close>

text \<open>
  C12: Whatever the language model answers, a review or follow-up leaves the stored contracts
  and clauses as they are, apart from the risk rating: no row is added, removed or rewritten,
  and every rating that is stored afterwards is the one of the stored text. This holds also
  for runs that fail or are cancelled. (Clause ids are unique, as ids that contain a content hash are.)
\<close>

theorem agent_changes_only_ratings:
  assumes "\<And>rq e d r e' d'. chat rq (e, d) = (r, (e', d')) \<Longrightarrow> d' = d"
    and "ratings_ok (db_tables d)" and "distinct (map cr_clause_id (clause_rows (db_tables d)))"
    and "agent_run (contract_agent s chat emb query show_out show_args show_exc) q ((e, d), evs) = (r, ((e', d'), evs'))"
  shows "content (db_tables d') = content (db_tables d) \<and> ratings_ok (db_tables d')"
proof -
  let ?I = "only_rated (db_tables d)" and ?A = "contract_agent s chat emb query show_out show_args show_exc"
  have "keepsE ?I (ag_chat ?A rq)" for rq
    using assms(1) unfolding keepsE_def only_rated_def by (force simp: contract_agent_def)
  moreover have "keepsE ?I (ag_dispatch ?A name args)" for name args
    by (simp add: contract_agent_def keeps_dispatch)
  ultimately have "keepsE (\<lambda>s. ?I (fst s)) (agent_run ?A q)"
    unfolding agent_run_def by (rule keeps_agent_iter)
  from keepsE_D[OF this _ assms(4)] assms(2,3) show ?thesis by (simp add: only_rated_def)
qed

text \<open>A model that asks for a rating and then answers.\<close>

definition scripted_chat :: "int tool_output request \<Rightarrow> (unit \<times> db, response) eff" where
  "scripted_chat rq w = (Inr (if rq_tool_results rq = None
      then \<lparr>rs_tool_calls = [\<lparr>tc_name = ''score_clause_risk'', tc_parameters = [(''clause_id'', JStr ''c-2'')]\<rparr>],
            rs_text = []\<rparr>
      else \<lparr>rs_tool_calls = [], rs_text = ''done''\<rparr>), w)"

definition scripted_run :: "(exc + unit) \<times> ((unit \<times> db) \<times> agent_event list)" where
  "scripted_run = agent_run (contract_agent default_settings scripted_chat (\<lambda>ts e. (Inr ([] :: int list), e)) (\<lambda>v k e. (Inr [], e))
     (\<lambda>out. []) (\<lambda>args. []) (\<lambda>x. [])) ''review'' (((), db_two), [])"

lemma scripted_rates:
  "map (\<lambda>r. (cr_clause_id r, cr_risk_level r)) (clause_rows (db_tables (snd (fst (snd scripted_run)))))
     = [(''c-2'', Some ''high''), (''c-1'', None)]"
  by code_simp

theorem agent_changes_only_ratings_witness:
  "ratings_ok (db_tables (snd (fst (snd scripted_run))))
     \<and> map cr_risk_level (clause_rows (db_tables (snd (fst (snd scripted_run))))) \<noteq> map cr_risk_level (clause_rows (db_tables db_two))"
proof -
  have chat: "scripted_chat rq (e, d) = (r, (e', d')) \<Longrightarrow> d' = d" for rq e d r e' d'
    by (simp add: scripted_chat_def)
  have ok: "ratings_ok (db_tables db_two)" "distinct (map cr_clause_id (clause_rows (db_tables db_two)))"
    by (simp_all add: ratings_ok_def rating_def db_two_def clause_a_def clause_b_def)
  obtain r e d evs where run: "scripted_run = (r, ((e, d), evs))" by (metis surj_pair)
  have "content (db_tables d) = content (db_tables db_two) \<and> ratings_ok (db_tables d)"
    by (rule agent_changes_only_ratings[OF _ ok run[unfolded scripted_run_def]]) (rule chat)
  then have "ratings_ok (db_tables (snd (fst (snd scripted_run))))" by (simp add: run)
  moreover have "map cr_risk_level (clause_rows (db_tables (snd (fst (snd scripted_run))))) = [Some ''high'', None]"
    using arg_cong[OF scripted_rates, of "map snd"] by (simp add: comp_def)
  moreover have "map cr_risk_level (clause_rows (db_tables db_two)) = [None, None]"
    by (simp add: db_two_def clause_a_def clause_b_def)
  ultimately show ?thesis by simp
qed

end
