(* ===== verification/Parser.thy ===== *)
theory Parser
  imports Hashlib Json_Codec
begin

text \<open>
  Model of \<open>ingestion/parser.py\<close>: category tags, content-addressed ids, and the walk over the
  CUAD file that produces the contracts. The file is its JSON text; every subscription, \<open>.get\<close>
  and iteration of the walk can raise on a value of another shape. \<open>parse_cuad\<close> is a
  generator: the contracts it yields, in order, and the exception that ends it, if one does.

  \<open>start_of\<close> stands for pydantic's validation of the field \<open>answer_start: int | None\<close>.
\<close>

section \<open>Category tags\<close>

definition related_to :: string where
  "related_to = ''related to '' @ [CHR 0x22]"

text \<open>
  The leftmost match of \<open>related to "([^"]+)"\<close>, ignoring case. Its group takes all characters
  up to the next quotation mark, so there is at most one way to match at a position.
\<close>

fun search_category :: "string \<Rightarrow> string option" where
  "search_category [] = None"
| "search_category (c # cs) =
     (let rest = drop (length related_to) (c # cs);
          tag = takeWhile (\<lambda>d. d \<noteq> CHR 0x22) rest;
          after = drop (length tag) rest
      in if startswith (lower (c # cs)) related_to \<and> tag \<noteq> [] \<and> after \<noteq> []
         then Some tag else search_category cs)"

definition is_tag_char :: "char \<Rightarrow> bool" where
  "is_tag_char c \<longleftrightarrow> 97 \<le> code c \<and> code c \<le> 122 \<or> is_digit c"

text \<open>\<open>re.sub("[^a-z0-9]+", "_", s)\<close>\<close>

function collapse :: "string \<Rightarrow> string" where
  "collapse [] = []"
| "collapse (c # cs) =
     (if is_tag_char c then c # collapse cs
      else CHR ''_'' # collapse (dropWhile (\<lambda>d. \<not> is_tag_char d) cs))"
  by pat_completeness auto
termination by (relation "measure length") (auto simp: le_imp_less_Suc length_dropWhile_le)

definition slug :: "string \<Rightarrow> string" where
  "slug raw = strip_by (\<lambda>c. c = CHR ''_'') (collapse (lower raw))"

definition normalize_category :: "string \<Rightarrow> string" where
  "normalize_category question =
     slug (case search_category question of Some tag \<Rightarrow> tag | None \<Rightarrow> take 60 question)"

section \<open>Identifiers\<close>

definition contract_id_of :: "string \<Rightarrow> string" where
  "contract_id_of title = take 16 (hexdigest (sha1 (utf8 title)))"

definition clause_id_of :: "string \<Rightarrow> string \<Rightarrow> string \<Rightarrow> string" where
  "clause_id_of cid category txt =
     (let digest = hexdigest (sha1 (utf8 (cid @ ''|'' @ category @ ''|'' @ txt)))
      in cid @ ''-'' @ take 10 digest)"

section \<open>The walk\<close>

record parsed_clause =
  clause_id :: string
  clause_contract :: string
  clause_category :: string
  clause_text :: string
  answer_start :: "int option"

record parsed_contract =
  contract_id :: string
  filename :: string
  clauses :: "parsed_clause list"

text \<open>\<open>(v or "").strip()\<close> of the result of a \<open>.get\<close>\<close>

fun stripped_text :: "json option \<Rightarrow> exc + string" where
  "stripped_text None = Inr (strip [])"
| "stripped_text (Some v) =
     (if \<not> json_truthy v then Inr (strip [])
      else (case v of JStr s \<Rightarrow> Inr (strip s) | _ \<Rightarrow> Inl AttributeError))"

definition parse_answer ::
    "(json option \<Rightarrow> exc + int option) \<Rightarrow> string \<Rightarrow> string \<Rightarrow> json
       \<Rightarrow> parsed_clause list \<Rightarrow> exc + parsed_clause list" where
  "parse_answer start_of cid category ans acc =
     bindX (bindX (json_get ans ''text'') stripped_text)
       (\<lambda>txt. if txt = [] then Inr acc
         else bindX (bindX (json_get ans ''answer_start'') start_of)
           (\<lambda>start. Inr (acc @
             [\<lparr>clause_id = clause_id_of cid category txt, clause_contract = cid,
               clause_category = category, clause_text = txt, answer_start = start\<rparr>])))"

text \<open>\<open>_normalize_category(v)\<close> and \<open>_contract_id(v)\<close> of a value of any type.\<close>

fun category_of :: "json \<Rightarrow> exc + string" where
  "category_of (JStr q) = Inr (normalize_category q)"
| "category_of _ = Inl TypeError"

fun title_of :: "json \<Rightarrow> exc + string" where
  "title_of (JStr t) = Inr t"
| "title_of _ = Inl AttributeError"

definition parse_qa ::
    "(json option \<Rightarrow> exc + int option) \<Rightarrow> string \<Rightarrow> json
       \<Rightarrow> parsed_clause list \<Rightarrow> exc + parsed_clause list" where
  "parse_qa start_of cid qa acc =
     bindX (bindX (json_index qa ''question'') category_of)
       (\<lambda>category. bindX (json_get qa ''answers'')
         (\<lambda>answers. bindX (json_iter (case answers of None \<Rightarrow> JList [] | Some v \<Rightarrow> v))
           (\<lambda>xs. loopX (parse_answer start_of cid category) xs acc)))"

definition parse_paragraph ::
    "(json option \<Rightarrow> exc + int option) \<Rightarrow> string \<Rightarrow> json
       \<Rightarrow> parsed_clause list \<Rightarrow> exc + parsed_clause list" where
  "parse_paragraph start_of cid paragraph acc =
     bindX (bindX (json_index paragraph ''qas'') json_iter)
       (\<lambda>qas. loopX (parse_qa start_of cid) qas acc)"

fun dedup :: "parsed_clause list \<Rightarrow> string set \<Rightarrow> parsed_clause list \<Rightarrow> parsed_clause list" where
  "dedup [] seen unique = unique"
| "dedup (c # cs) seen unique =
     (if clause_id c \<in> seen then dedup cs seen unique
      else dedup cs (insert (clause_id c) seen) (unique @ [c]))"

definition parse_entry :: "(json option \<Rightarrow> exc + int option) \<Rightarrow> json \<Rightarrow> exc + parsed_contract" where
  "parse_entry start_of entry =
     bindX (bindX (json_index entry ''title'') title_of)
       (\<lambda>title. let cid = contract_id_of title in
         bindX (bindX (json_index entry ''paragraphs'') json_iter)
           (\<lambda>paragraphs. bindX (loopX (parse_paragraph start_of cid) paragraphs [])
             (\<lambda>cs. Inr \<lparr>contract_id = cid, filename = title, clauses = dedup cs {} []\<rparr>)))"

fun parse_entries ::
    "(json option \<Rightarrow> exc + int option) \<Rightarrow> json list \<Rightarrow> parsed_contract list \<times> exc option" where
  "parse_entries start_of [] = ([], None)"
| "parse_entries start_of (e # es) = (case parse_entry start_of e of
      Inl x \<Rightarrow> ([], Some x)
    | Inr c \<Rightarrow> (case parse_entries start_of es of (cs, x) \<Rightarrow> (c # cs, x)))"

definition parse_cuad ::
    "(json option \<Rightarrow> exc + int option) \<Rightarrow> string \<Rightarrow> parsed_contract list \<times> exc option" where
  "parse_cuad start_of cuad_json =
     (case bindX (bindX (json_loads cuad_json) (\<lambda>raw. json_index raw ''data'')) json_iter of
        Inl e \<Rightarrow> ([], Some e)
      | Inr entries \<Rightarrow> parse_entries start_of entries)"

section \<open>Tags\<close>

lemma collapse_chars: "c \<in> set (collapse s) \<Longrightarrow> is_tag_char c \<or> c = CHR ''_''"
  by (induction s rule: collapse.induct) (auto split: if_splits)

lemma underscore_not_tag [simp]: "\<not> is_tag_char (CHR ''_'')"
  by (simp add: is_tag_char_def is_digit_def code_def)

lemma collapse_tag_hd: "s \<noteq> [] \<Longrightarrow> is_tag_char (hd s) \<Longrightarrow> hd (collapse s) = hd s \<and> collapse s \<noteq> []"
  by (cases s) auto

lemma dropWhile_tag_hd:
  "dropWhile (\<lambda>d. \<not> is_tag_char d) s \<noteq> [] \<Longrightarrow> is_tag_char (hd (dropWhile (\<lambda>d. \<not> is_tag_char d) s))"
  using hd_dropWhile[of "\<lambda>d. \<not> is_tag_char d" s] by simp

lemma collapse_single: "\<not> contains (collapse s) ''__''"
proof (induction s rule: collapse.induct)
  case 1
  then show ?case by simp
next
  case (2 c cs)
  show ?case
  proof (cases "is_tag_char c")
    case True
    then have "c \<noteq> CHR ''_''" by auto
    then show ?thesis using 2 True by simp
  next
    case False
    let ?r = "dropWhile (\<lambda>d. \<not> is_tag_char d) cs"
    have "\<not> startswith (collapse ?r) ''_''"
    proof (cases "?r = []")
      case False
      then have "is_tag_char (hd ?r)" by (rule dropWhile_tag_hd)
      with False collapse_tag_hd[OF False] show ?thesis by (cases "collapse ?r") auto
    next
      case True
      show ?thesis unfolding True by simp
    qed
    then show ?thesis using 2 False by simp
  qed
qed

lemma contains_strip_by: "contains (strip_by p s) t \<Longrightarrow> contains s t"
proof -
  assume "contains (strip_by p s) t"
  then obtain u v where uv: "strip_by p s = u @ t @ v" by (auto simp: contains_iff)
  obtain a where a: "dropWhile p s = a @ rev [] @ rev (takeWhile p (rev (dropWhile p s)))"
    and a': "a = strip_by p s"
    by (metis append_Nil rev.simps(1) rev_append rev_rev_ident strip_by_def takeWhile_dropWhile_id)
  have "s = takeWhile p s @ dropWhile p s" by simp
  then have "s = (takeWhile p s @ u) @ t @ (v @ rev (takeWhile p (rev (dropWhile p s))))"
    using a a' uv by simp
  then show "contains s t" unfolding contains_iff by blast
qed

definition is_slug :: "string \<Rightarrow> bool" where
  "is_slug s \<longleftrightarrow> (\<forall>c \<in> set s. is_tag_char c \<or> c = CHR ''_'') \<and> \<not> contains s ''__''
     \<and> (s = [] \<or> is_tag_char (hd s) \<and> is_tag_char (last s))"

lemma is_slug_slug: "is_slug (slug raw)"
proof -
  let ?s = "slug raw" and ?p = "\<lambda>c. c = CHR ''_''"
  have chars: "\<forall>c \<in> set ?s. is_tag_char c \<or> c = CHR ''_''"
    using set_strip_by[of ?p "collapse (lower raw)"] collapse_chars unfolding slug_def by blast
  have "?s = [] \<or> is_tag_char (hd ?s) \<and> is_tag_char (last ?s)"
    using strip_by_ends[of ?p "collapse (lower raw)"] chars unfolding slug_def
    by (metis hd_in_set last_in_set)
  then show ?thesis
    using chars contains_strip_by[of ?p "collapse (lower raw)" "''__''"] collapse_single
    unfolding is_slug_def slug_def by blast
qed


lemma lower_char_id: "is_tag_char c \<or> c = CHR ''_'' \<Longrightarrow> lower_char c = c"
  by (auto simp: lower_char_def Let_def is_tag_char_def is_digit_def code_def)

lemma collapse_id:
  "\<forall>c \<in> set s. is_tag_char c \<or> c = CHR ''_'' \<Longrightarrow> \<not> contains s ''__'' \<Longrightarrow>
     s = [] \<or> is_tag_char (last s) \<Longrightarrow> collapse s = s"
proof (induction s rule: collapse.induct)
  case 1
  then show ?case by simp
next
  case (2 c cs)
  show ?case
  proof (cases "is_tag_char c")
    case True
    then show ?thesis using 2 by (cases "cs = []") simp_all
  next
    case False
    then have c: "c = CHR ''_''" using 2(3) by simp
    then obtain d ds where cs: "cs = d # ds" using 2(5) by (cases cs) auto
    then have d: "is_tag_char d" using 2(3,4) c by auto
    have "collapse (dropWhile (\<lambda>d. \<not> is_tag_char d) cs) = dropWhile (\<lambda>d. \<not> is_tag_char d) cs"
      using 2(2)[OF False] 2(3-5) cs d by simp
    then show ?thesis using c cs d by simp
  qed
qed

lemma slug_id: "is_slug s \<Longrightarrow> slug s = s"
proof -
  assume s: "is_slug s"
  then have "lower s = s" unfolding lower_def is_slug_def by (auto intro: map_idI lower_char_id)
  moreover have "collapse s = s" using s unfolding is_slug_def by (intro collapse_id) auto
  moreover have "strip_by (\<lambda>c. c = CHR ''_'') s = s"
    using s unfolding is_slug_def by (intro strip_by_id) auto
  ultimately show ?thesis by (simp add: slug_def)
qed

text \<open>Lower-casing neither makes nor removes a quotation mark.\<close>

lemma lower_char_quote: "lower_char c = CHR 0x22 \<longleftrightarrow> c = CHR 0x22"
proof
  assume l: "lower_char c = CHR 0x22"
  show "c = CHR 0x22"
  proof (rule ccontr)
    assume "c \<noteq> CHR 0x22"
    then have m: "65 \<le> code c \<and> code c \<le> 90 \<or> 192 \<le> code c \<and> code c \<le> 222"
      and "char_of (code c + 32) = CHR 0x22"
      using l by (auto simp: lower_char_def Let_def split: if_splits)
    then have "code (char_of (code c + 32)) = 34" by simp
    moreover have "code (char_of (code c + 32)) = code c + 32" using m by (auto simp: code_def)
    ultimately show False using m by auto
  qed
qed (simp add: lower_char_def code_def)

lemma not_startswith_related_to:
  assumes "CHR 0x22 \<notin> set w" and "12 \<le> length w"
  shows "\<not> startswith (lower (w @ t)) related_to"
proof
  assume "startswith (lower (w @ t)) related_to"
  then obtain u where "lower (w @ t) = related_to @ u" by (auto simp: startswith_iff)
  then have "take 12 (lower (w @ t)) = related_to" by (simp add: related_to_def)
  then have "lower (take 12 w) = related_to" using assms(2) by (simp add: lower_def take_map)
  then have "CHR 0x22 \<in> set (lower (take 12 w))" by (simp add: related_to_def)
  then obtain c where "c \<in> set (take 12 w)" "lower_char c = CHR 0x22" unfolding lower_def by auto
  then show False using assms(1) lower_char_quote by (metis in_set_takeD)
qed

lemma search_category_first:
  assumes "CHR 0x22 \<notin> set pre" "lower m = related_to" "t \<noteq> []" "CHR 0x22 \<notin> set t"
  shows "search_category (pre @ m @ t @ CHR 0x22 # post) = Some t"
  using assms(1)
proof (induction pre)
  case Nil
  have "length (lower m) = 12" using assms(2) by (simp add: related_to_def)
  then have len: "length m = 12" by (simp add: lower_def)
  then obtain c m' where m: "m = c # m'" by (cases m) auto
  have "takeWhile (\<lambda>d. d \<noteq> CHR 0x22) (t @ CHR 0x22 # post) = t"
    using assms(4) by (subst takeWhile_append2) auto
  moreover have "startswith (lower (m @ t @ CHR 0x22 # post)) related_to"
    using assms(2) by (simp add: startswith_iff lower_def)
  ultimately show ?case using m len assms(3) by (simp add: Let_def related_to_def)
next
  case (Cons c pre)
  have "lower m ! 11 = CHR 0x22" "length (lower m) = 12" using assms(2) by (simp_all add: related_to_def)
  then have m: "m ! 11 = CHR 0x22" "length m = 12" by (simp_all add: lower_def lower_char_quote)
  then have split: "m = take 11 m @ [CHR 0x22]"
    using id_take_nth_drop[of 11 m] by simp
  have "lower (take 11 m) = take 11 related_to" using assms(2) unfolding lower_def by (metis take_map)
  then have "CHR 0x22 \<notin> set (lower (take 11 m))" by (simp add: related_to_def)
  then have noq: "CHR 0x22 \<notin> set (take 11 m)"
    using lower_char_quote[of "CHR 0x22"] by (metis image_eqI list.set_map lower_def)
  then have "\<not> startswith (lower ((c # pre @ take 11 m) @ CHR 0x22 # t @ CHR 0x22 # post)) related_to"
    using Cons.prems m(2) by (intro not_startswith_related_to) auto
  then have "\<not> startswith (lower (c # pre @ m @ t @ CHR 0x22 # post)) related_to"
    using arg_cong[OF split, of "\<lambda>m. lower (c # pre @ m @ t @ CHR 0x22 # post)"] by simp
  then show ?case using Cons by (simp add: Let_def)
qed


section \<open>What a well-formed file says\<close>

text \<open>
  A file is well formed when it presents titles, each with paragraphs of questions, each
  with its answer spans (the text and where it starts); objects may have further members.
\<close>

type_synonym cuad_doc = "(string \<times> (string \<times> (string \<times> int) list) list list) list"

definition presents_answer :: "json \<Rightarrow> string \<times> int \<Rightarrow> bool" where
  "presents_answer j a \<longleftrightarrow>
     json_get j ''text'' = Inr (Some (JStr (fst a))) \<and>
     json_get j ''answer_start'' = Inr (Some (JInt (snd a)))"

definition presents_list :: "(json \<Rightarrow> 'b \<Rightarrow> bool) \<Rightarrow> exc + json \<Rightarrow> 'b list \<Rightarrow> bool" where
  "presents_list R r ys \<longleftrightarrow>
     (case r of Inr (JList xs) \<Rightarrow> list_all2 R xs ys | _ \<Rightarrow> False)"

definition presents_qa :: "json \<Rightarrow> string \<times> (string \<times> int) list \<Rightarrow> bool" where
  "presents_qa j q \<longleftrightarrow>
     json_index j ''question'' = Inr (JStr (fst q)) \<and>
     presents_list presents_answer (json_index j ''answers'') (snd q)"

definition presents_paragraph :: "json \<Rightarrow> (string \<times> (string \<times> int) list) list \<Rightarrow> bool" where
  "presents_paragraph j qs \<longleftrightarrow> presents_list presents_qa (json_index j ''qas'') qs"

definition presents_entry :: "json \<Rightarrow> string \<times> (string \<times> (string \<times> int) list) list list \<Rightarrow> bool" where
  "presents_entry j e \<longleftrightarrow>
     json_index j ''title'' = Inr (JStr (fst e)) \<and>
     presents_list presents_paragraph (json_index j ''paragraphs'') (snd e)"

definition presents_doc :: "json \<Rightarrow> cuad_doc \<Rightarrow> bool" where
  "presents_doc j d \<longleftrightarrow> presents_list presents_entry (json_index j ''data'') d"

text \<open>The contracts of a document: its non-blank spans in order, the first of equal ids kept.\<close>

definition span_clause :: "string \<Rightarrow> string \<Rightarrow> string \<times> int \<Rightarrow> parsed_clause list" where
  "span_clause cid question a =
     (if strip (fst a) = [] then []
      else [\<lparr>clause_id = clause_id_of cid (normalize_category question) (strip (fst a)),
        clause_contract = cid, clause_category = normalize_category question,
        clause_text = strip (fst a), answer_start = Some (snd a)\<rparr>])"

fun first_of_id :: "parsed_clause list \<Rightarrow> parsed_clause list" where
  "first_of_id [] = []"
| "first_of_id (c # cs) = c # filter (\<lambda>d. clause_id d \<noteq> clause_id c) (first_of_id cs)"

definition contract_of :: "string \<times> (string \<times> (string \<times> int) list) list list \<Rightarrow> parsed_contract" where
  "contract_of e =
     (let cid = contract_id_of (fst e)
      in \<lparr>contract_id = cid, filename = fst e,
          clauses = first_of_id (concat (map (\<lambda>(q, as). concat (map (span_clause cid q) as)) (concat (snd e))))\<rparr>)"

lemma dedup_filter:
  "dedup cs seen unique = unique @ filter (\<lambda>c. clause_id c \<notin> seen) (first_of_id cs)"
proof (induction cs seen unique rule: dedup.induct)
  case (2 c cs seen unique)
  show ?case
  proof (cases "clause_id c \<in> seen")
    case True
    then have "filter (\<lambda>d. clause_id d \<notin> seen) (filter (\<lambda>d. clause_id d \<noteq> clause_id c) (first_of_id cs))
        = filter (\<lambda>d. clause_id d \<notin> seen) (first_of_id cs)"
      unfolding filter_filter by (intro filter_cong) auto
    with True 2(1)[OF True] show ?thesis by simp
  next
    case False
    have "(\<lambda>d. clause_id d \<notin> seen \<and> clause_id d \<noteq> clause_id c) = (\<lambda>d. clause_id d \<notin> insert (clause_id c) seen)"
      by auto
    with False 2(2) show ?thesis by simp
  qed
qed simp

lemma dedup_first: "dedup cs {} [] = first_of_id cs"
  by (simp add: dedup_filter)

lemma set_first_of_id: "set (first_of_id cs) \<subseteq> set cs"
  by (induction cs) auto

lemma distinct_first_of_id: "distinct (map clause_id (first_of_id cs))"
  by (induction cs) (auto simp: distinct_map intro: inj_on_subset)

lemma ids_first_of_id: "clause_id ` set (first_of_id cs) = clause_id ` set cs"
proof (induction cs)
  case (Cons c cs)
  have "clause_id ` set (first_of_id (c # cs))
      = insert (clause_id c) (clause_id ` set (first_of_id cs) - {clause_id c})" by auto
  then show ?case by (simp add: Cons.IH)
qed simp

lemma loopX_all2:
  assumes "list_all2 R xs ys" and "\<And>x y acc. R x y \<Longrightarrow> f x acc = Inr (acc @ g y)"
  shows "loopX f xs acc = Inr (acc @ concat (map g ys))"
  using assms(1) by (induction xs ys arbitrary: acc rule: list_all2_induct) (auto simp: assms(2))

lemma presents_listE:
  assumes "presents_list R r ys"
  obtains xs where "r = Inr (JList xs)" "list_all2 R xs ys"
  using assms by (auto simp: presents_list_def split: sum.splits json.splits)

lemma json_index_get: "json_index j k = Inr v \<Longrightarrow> json_get j k = Inr (Some v)"
  by (cases j) (auto split: option.splits)

text \<open>Documented validation of \<open>int | None\<close>: an integer is kept.\<close>

definition keeps_int :: "(json option \<Rightarrow> exc + int option) \<Rightarrow> bool" where
  "keeps_int start_of \<longleftrightarrow> (\<forall>n. start_of (Some (JInt n)) = Inr (Some n))"

lemma parse_answer_presented:
  "keeps_int start_of \<Longrightarrow> presents_answer j a \<Longrightarrow>
     parse_answer start_of cid (normalize_category q) j acc = Inr (acc @ span_clause cid q a)"
  by (auto simp: presents_answer_def parse_answer_def span_clause_def keeps_int_def strip_def strip_by_def)

lemma parse_qa_presented:
  assumes "keeps_int start_of" and "presents_qa j q"
  shows "parse_qa start_of cid j acc = Inr (acc @ concat (map (span_clause cid (fst q)) (snd q)))"
proof -
  obtain xs where xs: "json_index j ''answers'' = Inr (JList xs)" "list_all2 presents_answer xs (snd q)"
    using assms by (auto simp: presents_qa_def elim: presents_listE)
  have "loopX (parse_answer start_of cid (normalize_category (fst q))) xs acc
      = Inr (acc @ concat (map (span_clause cid (fst q)) (snd q)))"
    by (rule loopX_all2[OF xs(2)]) (rule parse_answer_presented[OF assms(1)])
  then show ?thesis using assms json_index_get[OF xs(1)] by (simp add: parse_qa_def presents_qa_def)
qed

lemma parse_paragraph_presented:
  assumes "keeps_int start_of" and "presents_paragraph j qs"
  shows "parse_paragraph start_of cid j acc
    = Inr (acc @ concat (map (\<lambda>(q, as). concat (map (span_clause cid q) as)) qs))"
proof -
  obtain xs where xs: "json_index j ''qas'' = Inr (JList xs)" "list_all2 presents_qa xs qs"
    using assms by (auto simp: presents_paragraph_def elim: presents_listE)
  have "loopX (parse_qa start_of cid) xs acc
      = Inr (acc @ concat (map (\<lambda>(q, as). concat (map (span_clause cid q) as)) qs))"
    by (rule loopX_all2[OF xs(2)]) (simp add: parse_qa_presented[OF assms(1)] case_prod_unfold)
  then show ?thesis using xs by (simp add: parse_paragraph_def)
qed

lemma concat_map_concat: "concat (map f (concat xss)) = concat (map (\<lambda>xs. concat (map f xs)) xss)"
  by (induction xss) auto

lemma parse_entry_presented:
  assumes "keeps_int start_of" and "presents_entry j e"
  shows "parse_entry start_of j = Inr (contract_of e)"
proof -
  let ?cid = "contract_id_of (fst e)"
  obtain xs where xs: "json_index j ''paragraphs'' = Inr (JList xs)" "list_all2 presents_paragraph xs (snd e)"
    using assms by (auto simp: presents_entry_def elim: presents_listE)
  have "loopX (parse_paragraph start_of ?cid) xs []
      = Inr ([] @ concat (map (\<lambda>qs. concat (map (\<lambda>(q, as). concat (map (span_clause ?cid q) as)) qs)) (snd e)))"
    by (rule loopX_all2[OF xs(2)]) (rule parse_paragraph_presented[OF assms(1)])
  then show ?thesis
    using assms xs by (simp add: parse_entry_def presents_entry_def contract_of_def Let_def dedup_first
        concat_map_concat)
qed


section \<open>What every yielded contract satisfies\<close>

definition clause_ok :: "string \<Rightarrow> parsed_clause \<Rightarrow> bool" where
  "clause_ok cid c \<longleftrightarrow> clause_contract c = cid
     \<and> clause_id c = clause_id_of cid (clause_category c) (clause_text c)
     \<and> is_slug (clause_category c)
     \<and> clause_text c \<noteq> [] \<and> strip (clause_text c) = clause_text c"

definition contract_ok :: "parsed_contract \<Rightarrow> bool" where
  "contract_ok c \<longleftrightarrow> contract_id c = contract_id_of (filename c)
     \<and> distinct (map clause_id (clauses c)) \<and> (\<forall>d \<in> set (clauses c). clause_ok (contract_id c) d)"

lemma strip_idem: "strip (strip s) = strip s"
  unfolding strip_def by (rule strip_by_id) (rule strip_by_ends)

lemma is_slug_normalize: "is_slug (normalize_category q)"
  by (simp add: normalize_category_def is_slug_slug)

lemma stripped_text_strip: "stripped_text v = Inr t \<Longrightarrow> strip t = t"
  by (induction v rule: stripped_text.induct) (auto simp: strip_idem split: if_splits json.splits)

lemma parse_answer_ok:
  assumes "parse_answer start_of cid category ans acc = Inr acc'" "is_slug category"
    and "\<forall>c \<in> set acc. clause_ok cid c"
  shows "\<forall>c \<in> set acc'. clause_ok cid c"
  using assms by (auto simp: parse_answer_def bindX_Inr_iff clause_ok_def stripped_text_strip split: if_splits)

lemma parse_qa_ok:
  assumes "parse_qa start_of cid qa acc = Inr acc'" and "\<forall>c \<in> set acc. clause_ok cid c"
  shows "\<forall>c \<in> set acc'. clause_ok cid c"
proof -
  obtain v category xs where v: "category_of v = Inr category"
    and loop: "loopX (parse_answer start_of cid category) xs acc = Inr acc'"
    using assms(1) by (auto simp: parse_qa_def bindX_Inr_iff)
  have "is_slug category" using v by (cases v) (auto simp: is_slug_normalize)
  then show ?thesis
    using loopX_invariant[OF loop, where I = "\<lambda>acc. \<forall>c \<in> set acc. clause_ok cid c"] assms(2) parse_answer_ok
    by blast
qed

lemma parse_paragraph_ok:
  assumes "parse_paragraph start_of cid p acc = Inr acc'" and "\<forall>c \<in> set acc. clause_ok cid c"
  shows "\<forall>c \<in> set acc'. clause_ok cid c"
proof -
  obtain xs where loop: "loopX (parse_qa start_of cid) xs acc = Inr acc'"
    using assms(1) by (auto simp: parse_paragraph_def bindX_Inr_iff)
  show ?thesis
    using loopX_invariant[OF loop, where I = "\<lambda>acc. \<forall>c \<in> set acc. clause_ok cid c"] assms(2) parse_qa_ok
    by blast
qed

lemma parse_entry_ok: "parse_entry start_of e = Inr c \<Longrightarrow> contract_ok c"
proof -
  assume "parse_entry start_of e = Inr c"
  then obtain title ps cs where
    loop: "loopX (parse_paragraph start_of (contract_id_of title)) ps [] = Inr cs"
    and c: "c = \<lparr>contract_id = contract_id_of title, filename = title, clauses = first_of_id cs\<rparr>"
    by (auto simp: parse_entry_def bindX_Inr_iff Let_def dedup_first)
  have "\<forall>d \<in> set cs. clause_ok (contract_id_of title) d"
    using loopX_invariant[OF loop, where I = "\<lambda>acc. \<forall>c \<in> set acc. clause_ok (contract_id_of title) c"]
      parse_paragraph_ok by (metis empty_iff empty_set)
  then show "contract_ok c"
    using set_first_of_id[of cs] by (auto simp: contract_ok_def c distinct_first_of_id)
qed

lemma parse_entries_ok: "\<forall>c \<in> set (fst (parse_entries start_of es)). contract_ok c"
  by (induction es) (auto split: sum.splits prod.splits dest: parse_entry_ok)

lemma parse_cuad_ok: "c \<in> set (fst (parse_cuad start_of cuad_json)) \<Longrightarrow> contract_ok c"
  using parse_entries_ok by (auto simp: parse_cuad_def split: sum.splits)

lemma parse_entries_map:
  "list_all2 (\<lambda>e c. parse_entry start_of e = Inr c) es cs \<Longrightarrow>
     parse_entries start_of (es @ rest) =
       (cs @ fst (parse_entries start_of rest), snd (parse_entries start_of rest))"
  by (induction es cs rule: list_all2_induct) auto

section \<open>Properties\<close>

text \<open>
  C29: A category tag is a slug: lower-case letters and digits with single underscores inside,
  none at the ends. Normalising leaves a slug as it is, and a question that names its category
  in CUAD's phrase (in any letter case) gets the tag of the quoted name.
\<close>

theorem category_tags:
  assumes "CHR 0x22 \<notin> set pre" and "lower phrase = related_to" and "t \<noteq> []" and "CHR 0x22 \<notin> set t"
  shows "is_slug (normalize_category q)
    \<and> slug (normalize_category q) = normalize_category q
    \<and> normalize_category (pre @ phrase @ t @ CHR 0x22 # post) = slug t"
  using is_slug_normalize[of q] slug_id search_category_first[OF assms]
  by (simp add: normalize_category_def)

theorem category_tags_witness:
  "normalize_category (''parts Related To '' @ [CHR 0x22] @ ''Non-Compete!'' @ [CHR 0x22] @ '' that'')
     = ''non_compete''"
proof -
  have phrase: "lower (''Related To '' @ [CHR 0x22]) = related_to" by code_simp
  have "slug ''Non-Compete!'' = ''non_compete''" by code_simp
  then show ?thesis
    using category_tags[of "''parts ''" "''Related To '' @ [CHR 0x22]" "''Non-Compete!''" "[]" "'' that''", OF _ phrase]
    by simp
qed

text \<open>
  Ids have a fixed shape: a contract id is 16 hexadecimal digits, and a clause id is its
  contract's id, a hyphen and 10 hexadecimal digits, so the contract can be read off it.
\<close>

lemma id_shapes:
  "length (contract_id_of title) = 16 \<and> is_hex (contract_id_of title)
   \<and> (\<exists>h. clause_id_of cid category txt = cid @ ''-'' @ h \<and> length h = 10 \<and> is_hex h)
   \<and> take 16 (clause_id_of (contract_id_of title) category txt) = contract_id_of title"
proof -
  have len: "length (contract_id_of title) = 16" by (simp add: contract_id_of_def)
  then show ?thesis by (simp add: contract_id_of_def[of title] clause_id_of_def Let_def is_hex_take)
qed


text \<open>
  C27: A well-formed CUAD file is parsed without an exception to exactly its contracts: in the
  order of the file, each with its non-blank answer spans in order, stripped, tagged with the
  category of their question, and with the first span kept of those with equal ids.
\<close>

theorem parse_cuad_faithful:
  assumes "keeps_int start_of" and "json_loads cuad_json = Inr raw" and "presents_doc raw doc"
  shows "parse_cuad start_of cuad_json = (map contract_of doc, None)"
proof -
  obtain xs where xs: "json_index raw ''data'' = Inr (JList xs)" "list_all2 presents_entry xs doc"
    using assms(3) by (auto simp: presents_doc_def elim: presents_listE)
  have "list_all2 (\<lambda>e c. parse_entry start_of e = Inr c) xs (map contract_of doc)"
    using xs(2) parse_entry_presented[OF assms(1)] by (auto simp: list_all2_map2 elim: list_all2_mono)
  from parse_entries_map[OF this, of "[]"] show ?thesis
    using xs(1) assms(2) by (simp add: parse_cuad_def)
qed

definition demo_span :: "string \<Rightarrow> int \<Rightarrow> json" where
  "demo_span t n = JObj [(''text'', JStr t), (''answer_start'', JInt n)]"

definition demo_json :: json where
  "demo_json = JObj [(''version'', JStr ''1.0''), (''data'', JList
     [JObj [(''title'', JStr ''NDA.pdf''), (''paragraphs'', JList
       [JObj [(''qas'', JList
         [JObj [(''question'', JStr ''Term''),
           (''answers'', JList [demo_span '' one year '' 7, demo_span ''  '' 9, demo_span ''one year'' 40])]])]])]])]"

definition demo_doc :: cuad_doc where
  "demo_doc = [(''NDA.pdf'', [[(''Term'', [('' one year '', 7), (''  '', 9), (''one year'', 40)])]])]"

definition start_field :: "json option \<Rightarrow> exc + int option" where
  "start_field v = (case v of None \<Rightarrow> Inr None | Some JNull \<Rightarrow> Inr None | Some (JInt n) \<Rightarrow> Inr (Some n)
     | _ \<Rightarrow> Inl ValidationError)"

lemma keeps_int_start_field: "keeps_int start_field"
  by (simp add: keeps_int_def start_field_def)

lemma presents_demo: "presents_doc demo_json demo_doc"
  by (simp add: presents_doc_def presents_list_def presents_entry_def presents_paragraph_def
      presents_qa_def presents_answer_def demo_json_def demo_doc_def demo_span_def dict_get_def)

theorem parse_cuad_faithful_witness:
  "parse_cuad start_field (json_dumps demo_json) = (map contract_of demo_doc, None)
   \<and> map (\<lambda>c. map clause_text (clauses c)) (map contract_of demo_doc) = [[''one year'']]"
proof
  have "json_ok demo_json" by (simp add: demo_json_def demo_span_def dict_ok_def)
  then have "json_loads (json_dumps demo_json) = Inr demo_json" by (rule loads_dumps)
  then show "parse_cuad start_field (json_dumps demo_json) = (map contract_of demo_doc, None)"
    by (rule parse_cuad_faithful[OF keeps_int_start_field _ presents_demo])
  have "strip '' one year '' = ''one year''" "strip ''  '' = []" "strip ''one year'' = ''one year''"
    by code_simp+
  then show "map (\<lambda>c. map clause_text (clauses c)) (map contract_of demo_doc) = [[''one year'']]"
    by (simp add: demo_doc_def contract_of_def span_clause_def Let_def)
qed

text \<open>
  C28: Whatever the file holds, every contract that is yielded carries the id of its title, and
  its clauses have distinct ids, each the content address of the contract, the tag and the
  text; tags are slugs, and texts are stripped and not empty.
\<close>

theorem parsed_contracts_ok:
  assumes "c \<in> set (fst (parse_cuad start_of cuad_json))"
  shows "contract_id c = contract_id_of (filename c) \<and> distinct (map clause_id (clauses c))
    \<and> (\<forall>d \<in> set (clauses c). clause_ok (contract_id c) d)"
  using parse_cuad_ok[OF assms] unfolding contract_ok_def by blast

lemma demo_parsed: "contract_of (hd demo_doc) \<in> set (fst (parse_cuad start_field (json_dumps demo_json)))"
proof -
  have "json_ok demo_json" by (simp add: demo_json_def demo_span_def dict_ok_def)
  then have "json_loads (json_dumps demo_json) = Inr demo_json" by (rule loads_dumps)
  moreover have "presents_entry (JObj [(''title'', JStr ''NDA.pdf''), (''paragraphs'', JList
       [JObj [(''qas'', JList
         [JObj [(''question'', JStr ''Term''),
           (''answers'', JList [demo_span '' one year '' 7, demo_span ''  '' 9, demo_span ''one year'' 40])]])]])])
      (hd demo_doc)"
    by (simp add: presents_list_def presents_entry_def presents_paragraph_def
      presents_qa_def presents_answer_def demo_doc_def demo_span_def dict_get_def)
  note parse_entry_presented[OF keeps_int_start_field this]
  ultimately show ?thesis
    by (simp add: parse_cuad_def demo_json_def dict_get_def)
qed

theorem parsed_contracts_ok_witness:
  "distinct (map clause_id (clauses (contract_of (hd demo_doc))))"
  using parsed_contracts_ok[OF demo_parsed] by blast

text \<open>
  The parser is a stream: the first entry that cannot be parsed ends it with the exception
  of that entry, after all contracts before it have been yielded, and no later entry is read.
\<close>

lemma parse_cuad_stops_at_bad_entry:
  assumes "json_loads cuad_json = Inr (JObj d)" and "dict_get d ''data'' = Some (JList (es @ bad # rest))"
    and "list_all2 (\<lambda>e c. parse_entry start_of e = Inr c) es cs" and "parse_entry start_of bad = Inl x"
  shows "parse_cuad start_of cuad_json = (cs, Some x)"
  using assms parse_entries_map[OF assms(3), of "bad # rest"] by (simp add: parse_cuad_def)

lemma parse_cuad_stops_at_bad_entry_example:
  "parse_cuad start_field (json_dumps (JObj [(''data'', JList [JObj [(''paragraphs'', JList [])], JNull])]))
     = ([], Some KeyError)"
proof -
  let ?d = "[(''data'', JList ([] @ JObj [(''paragraphs'', JList [])] # [JNull]))]"
  have "json_ok (JObj ?d)" by (simp add: dict_ok_def)
  then have l: "json_loads (json_dumps (JObj ?d)) = Inr (JObj ?d)" by (rule loads_dumps)
  have g: "dict_get ?d ''data'' = Some (JList ([] @ JObj [(''paragraphs'', JList [])] # [JNull]))"
    by (simp add: dict_get_def)
  have "parse_entry start_field (JObj [(''paragraphs'', JList [])]) = Inl KeyError"
    by (simp add: parse_entry_def dict_get_def)
  from parse_cuad_stops_at_bad_entry[OF l g list_all2_Nil[THEN iffD2, OF refl] this] show ?thesis by simp
qed

end
