(* ===== verification/Dispatcher.thy ===== *)
theory Dispatcher
  imports Worker_Registry Json_Codec
begin

text \<open>
  Model of \<open>orchestration/dispatcher.py\<close>. A \<open>Task\<close> is the record \<open>task\<close>; its JSON text
  is made and read by pydantic, so \<open>dump\<close> (\<open>model_dump_json\<close>) and \<open>validate\<close>
  (\<open>model_validate_json\<close>) are parameters and \<open>codec_ok\<close> is the documented round trip of a
  task whose payload is JSON with distinct keys; \<open>dump_task\<close> and \<open>validate_task\<close> are a codec
  that has it.

  \<open>plan_tasks\<close> is the loop of \<open>dispatch_many\<close>: it reads the ring, groups the tasks by
  worker and fills the pipeline, and has no effect on the server. It takes the routing
  function as an argument, and its lemmas are proved for every \<open>key_router\<close>.
\<close>

record task =
  kind :: string
  routing_key :: string
  payload :: "(string \<times> json) list"
  task_id :: "string option"

definition worker_queue_key :: "string \<Rightarrow> string" where
  "worker_queue_key wid = ''queue:'' @ wid"

definition no_workers :: exc where
  "no_workers = NoWorkersAvailable ''ring is empty''"

definition dispatch ::
    "'w redis \<Rightarrow> (task \<Rightarrow> string) \<Rightarrow> hash_ring \<Rightarrow> task \<Rightarrow> ('w, string) eff" where
  "dispatch api dump r t =
     bindE (liftE (get_worker r (routing_key t)))
       (\<lambda>owner. case owner of
          None \<Rightarrow> raiseE (NoWorkersAvailable
            (''no workers in ring; cannot route task kind='' @ kind t @ '' key='' @ routing_key t))
        | Some wid \<Rightarrow>
            if wid = [] then raiseE (NoWorkersAvailable
              (''no workers in ring; cannot route task kind='' @ kind t @ '' key='' @ routing_key t))
            else bindE (rd_rpush api (worker_queue_key wid) (dump t)) (\<lambda>_. retE wid))"

text \<open>\<open>by_worker.setdefault(wid, []).append(task)\<close>\<close>

definition append_to :: "(string, 'a list) pydict \<Rightarrow> string \<Rightarrow> 'a \<Rightarrow> (string, 'a list) pydict" where
  "append_to d k x = dict_set d k ((case dict_get d k of None \<Rightarrow> [] | Some xs \<Rightarrow> xs) @ [x])"

fun plan_tasks ::
    "(string \<Rightarrow> exc + string option) \<Rightarrow> (task \<Rightarrow> string) \<Rightarrow> task list
       \<Rightarrow> (string, task list) pydict \<Rightarrow> (string \<times> string) list
       \<Rightarrow> exc + (string, task list) pydict \<times> (string \<times> string) list" where
  "plan_tasks route dump [] by_worker pipe = Inr (by_worker, pipe)"
| "plan_tasks route dump (t # ts) by_worker pipe =
     (case route (routing_key t) of
        Inl e \<Rightarrow> Inl e
      | Inr None \<Rightarrow> Inl no_workers
      | Inr (Some wid) \<Rightarrow>
          if wid = [] then Inl no_workers
          else plan_tasks route dump ts (append_to by_worker wid t)
                 (pipe @ [(worker_queue_key wid, dump t)]))"

definition dispatch_many ::
    "'w redis \<Rightarrow> (task \<Rightarrow> string) \<Rightarrow> hash_ring \<Rightarrow> task list
       \<Rightarrow> ('w, (string, task list) pydict) eff" where
  "dispatch_many api dump r ts =
     bindE (liftE (plan_tasks (get_worker r) dump ts [] []))
       (\<lambda>(by_worker, pipe). bindE (rd_rpush_pipeline api pipe) (\<lambda>_. retE by_worker))"

text \<open>
  \<open>decode_task\<close>: the payload comes as text or as bytes; the decoding of UTF-8 and the
  construction of a \<open>Task\<close> from keyword arguments are parameters.
\<close>

datatype raw_payload = Raw_Str string | Raw_Bytes "byte list"

definition decode_task ::
    "(byte list \<Rightarrow> exc + string) \<Rightarrow> ((string \<times> json) list \<Rightarrow> exc + task) \<Rightarrow> raw_payload \<Rightarrow> exc + task" where
  "decode_task decode_utf8 make_task raw =
     bindX (case raw of Raw_Bytes b \<Rightarrow> decode_utf8 b | Raw_Str s \<Rightarrow> Inr s)
       (\<lambda>s. bindX (json_loads s)
         (\<lambda>v. case v of JObj d \<Rightarrow> make_task d | _ \<Rightarrow> Inl TypeError))"

definition codec_ok :: "(task \<Rightarrow> string) \<Rightarrow> (string \<Rightarrow> exc + task) \<Rightarrow> bool" where
  "codec_ok dump validate \<longleftrightarrow> (\<forall>t. json_ok (JObj (payload t)) \<longrightarrow> validate (dump t) = Inr t)"

definition dump_task :: "task \<Rightarrow> string" where
  "dump_task t = json_dumps (JObj [(''kind'', JStr (kind t)), (''routing_key'', JStr (routing_key t)),
     (''payload'', JObj (payload t)), (''task_id'', case task_id t of None \<Rightarrow> JNull | Some i \<Rightarrow> JStr i)])"

fun task_of_json :: "json \<Rightarrow> exc + task" where
  "task_of_json (JObj [(_, JStr k), (_, JStr r), (_, JObj p), (_, JNull)]) =
     Inr \<lparr>kind = k, routing_key = r, payload = p, task_id = None\<rparr>"
| "task_of_json (JObj [(_, JStr k), (_, JStr r), (_, JObj p), (_, JStr i)]) =
     Inr \<lparr>kind = k, routing_key = r, payload = p, task_id = Some i\<rparr>"
| "task_of_json _ = Inl ValidationError"

definition validate_task :: "string \<Rightarrow> exc + task" where
  "validate_task s = bindX (json_loads s) task_of_json"

lemma codec_ok_json: "codec_ok dump_task validate_task"
  unfolding codec_ok_def
proof (intro allI impI)
  fix t :: task
  let ?v = "JObj [(''kind'', JStr (kind t)), (''routing_key'', JStr (routing_key t)),
     (''payload'', JObj (payload t)), (''task_id'', case task_id t of None \<Rightarrow> JNull | Some i \<Rightarrow> JStr i)]"
  assume "json_ok (JObj (payload t))"
  then have "json_ok ?v" by (simp add: dict_ok_def split: option.splits)
  then have "json_loads (dump_task t) = Inr ?v" unfolding dump_task_def by (rule loads_dumps)
  then show "validate_task (dump_task t) = Inr t"
    by (cases t) (simp add: validate_task_def split: option.splits)
qed

lemma decode_dump_task:
  assumes "json_ok (JObj (payload t))"
  shows "decode_task decode_utf8 (\<lambda>d. task_of_json (JObj d)) (Raw_Str (dump_task t)) = Inr t"
proof -
  have "validate_task (dump_task t) = Inr t"
    using codec_ok_json assms unfolding codec_ok_def by blast
  then obtain v where "json_loads (dump_task t) = Inr v" "task_of_json v = Inr t"
    by (auto simp: validate_task_def bindX_Inr_iff)
  then show ?thesis by (cases v) (simp_all add: decode_task_def)
qed

section \<open>Planning\<close>

lemma worker_queue_key_inj [simp]: "worker_queue_key w = worker_queue_key v \<longleftrightarrow> w = v"
  by (simp add: worker_queue_key_def)

text \<open>The worker a routing function gives a key, and the tasks of one worker.\<close>

definition owner_of :: "(string \<Rightarrow> exc + string option) \<Rightarrow> string \<Rightarrow> string" where
  "owner_of route k = (case route k of Inr (Some w) \<Rightarrow> w | _ \<Rightarrow> [])"

definition tasks_of :: "(string \<Rightarrow> exc + string option) \<Rightarrow> string \<Rightarrow> task list \<Rightarrow> task list" where
  "tasks_of route w ts = filter (\<lambda>t. owner_of route (routing_key t) = w) ts"

definition pipe_of :: "(string \<Rightarrow> exc + string option) \<Rightarrow> (task \<Rightarrow> string) \<Rightarrow> task list \<Rightarrow> (string \<times> string) list" where
  "pipe_of route dump ts =
     map (\<lambda>t. (worker_queue_key (owner_of route (routing_key t)), dump t)) ts"

lemma dict_get_append_to:
  "dict_get (append_to d k x) j =
     (if j = k then Some ((case dict_get d k of None \<Rightarrow> [] | Some xs \<Rightarrow> xs) @ [x]) else dict_get d j)"
  by (simp add: append_to_def dict_simps)

lemma dict_ok_append_to [simp]: "dict_ok d \<Longrightarrow> dict_ok (append_to d k x)"
  by (simp add: append_to_def)

context key_router
begin

lemma plan_tasks_result:
  assumes "ok r" "members r \<noteq> {}" "[] \<notin> members r"
  shows "\<exists>d'. plan_tasks (route r) dump ts d pipe = Inr (d', pipe @ pipe_of (route r) dump ts)
    \<and> (\<forall>w. dict_get d' w = (if tasks_of (route r) w ts = [] then dict_get d w
         else Some ((case dict_get d w of None \<Rightarrow> [] | Some xs \<Rightarrow> xs) @ tasks_of (route r) w ts)))"
proof (induction ts arbitrary: d pipe)
  case Nil
  then show ?case by (simp add: pipe_of_def tasks_of_def)
next
  case (Cons t ts)
  obtain w where w: "w \<in> members r" "route r (routing_key t) = Inr (Some w)"
    using route_some[OF assms(1,2)] by blast
  then have own: "owner_of (route r) (routing_key t) = w" and "w \<noteq> []"
    using assms(3) by (auto simp: owner_of_def)
  with Cons.IH[of "append_to d w t" "pipe @ [(worker_queue_key w, dump t)]"] w show ?case
    by (auto simp: pipe_of_def tasks_of_def dict_get_append_to)
qed

lemma plan_tasks_empty:
  "ok r \<Longrightarrow> members r = {} \<Longrightarrow> ts \<noteq> [] \<Longrightarrow> plan_tasks (route r) dump ts d pipe = Inl no_workers"
proof (cases ts)
  case (Cons t us)
  assume "ok r" "members r = {}"
  then have "route r (routing_key t) = Inr None" using route_none by blast
  with Cons show ?thesis by simp
qed simp

end

text \<open>A plan that raises leaves the server alone: nothing is sent before the whole plan is made.\<close>

lemma dispatch_many_cases:
  "dispatch_many api dump r ts w = (case plan_tasks (get_worker r) dump ts [] [] of
     Inl e \<Rightarrow> (Inl e, w)
   | Inr (d, pipe) \<Rightarrow> (case rd_rpush_pipeline api pipe w of
       (Inl e, w') \<Rightarrow> (Inl e, w') | (Inr _, w') \<Rightarrow> (Inr d, w')))"
  by (simp add: dispatch_many_def bindE_def eff_simps split: prod.splits sum.splits)

lemma dispatch_cases:
  assumes "get_worker r (routing_key t) = Inr (Some wid)" "wid \<noteq> []"
  shows "dispatch api dump r t w = (case rd_rpush api (worker_queue_key wid) (dump t) w of
     (Inl e, w') \<Rightarrow> (Inl e, w') | (Inr _, w') \<Rightarrow> (Inr wid, w'))"
  using assms by (simp add: dispatch_def bindE_def eff_simps split: prod.splits sum.splits)

lemma push_list_pipe_of:
  "push_list m (pipe_of route dump ts) (worker_queue_key w)
     = m (worker_queue_key w) @ map dump (tasks_of route w ts)"
  by (induction ts) (auto simp: push_list_def pipe_of_def tasks_of_def)

lemma tasks_of_filter:
  assumes "\<And>t. t \<in> set ts \<Longrightarrow> \<exists>wid. route (routing_key t) = Inr (Some wid)"
  shows "tasks_of route v ts = filter (\<lambda>t. route (routing_key t) = Inr (Some v)) ts"
  unfolding tasks_of_def by (rule filter_cong[OF refl]) (use assms in \<open>force simp: owner_of_def\<close>)

lemma push_list_other:
  "(\<And>w. k \<noteq> worker_queue_key w) \<Longrightarrow> push_list m (pipe_of route dump ts) k = m k"
  by (induction ts) (auto simp: push_list_def pipe_of_def)

lemma dispatch_each_queues:
  assumes "redis_queues api q"
    and "\<And>k. \<exists>wid. get_worker r k = Inr (Some wid) \<and> wid \<noteq> []"
    and "forE ts (\<lambda>t. bindE (dispatch api dump r t) (\<lambda>_. retE ())) w = (Inr (), w')"
  shows "q w' = push_list (q w) (pipe_of (get_worker r) dump ts)"
  using assms(3)
proof (induction ts arbitrary: w)
  case Nil
  then show ?case by (simp add: pipe_of_def push_list_def)
next
  case (Cons t ts)
  obtain wid where wid: "get_worker r (routing_key t) = Inr (Some wid)" "wid \<noteq> []"
    using assms(2) by blast
  have step: "bindE (dispatch api dump r t) (\<lambda>_. retE ()) w = (Inr (), v) \<longleftrightarrow>
      rd_rpush api (worker_queue_key wid) (dump t) w = (Inr (), v)" for v
    by (auto simp: bindE_Inr_iff dispatch_cases[OF wid] eff_simps split: prod.splits sum.splits)
  from Cons.prems obtain v where v: "rd_rpush api (worker_queue_key wid) (dump t) w = (Inr (), v)"
    and rest: "forE ts (\<lambda>t. bindE (dispatch api dump r t) (\<lambda>_. retE ())) v = (Inr (), w')"
    unfolding forE_Cons_Inr step by blast
  have "q w' = push_list (q v) (pipe_of (get_worker r) dump ts)" by (rule Cons.IH[OF rest])
  also have "q v = push_list (q w) [(worker_queue_key wid, dump t)]"
    by (rule redis_queues_rpush[OF assms(1) v])
  finally show ?case using wid by (simp add: push_list_append pipe_of_def owner_of_def)
qed

lemma usable_ring:
  assumes "ring_reach r" "workers r \<noteq> []" "[] \<notin> set (workers r)"
  shows "\<exists>wid. get_worker r k = Inr (Some wid) \<and> wid \<noteq> [] \<and> wid \<in> set (workers r)"
  using assms ring.route_some[OF ring_reach_ok[OF assms(1)], of k]
    set_workers[OF ring_reach_ok[OF assms(1)]]
  by (metis set_empty)

lemmas ring_plan = ring.plan_tasks_result[OF ring_reach_ok] ring.plan_tasks_empty[OF ring_reach_ok]

section \<open>Properties\<close>

text \<open>
  A dispatch that succeeds has appended the task's JSON to exactly one list, the queue
  of the worker that owns the routing key on the ring, and returns that worker. Tasks with
  the same routing key therefore go to the same queue.
\<close>

lemma dispatch_to_owner:
  assumes "redis_queues api q" and "dispatch api dump r t w = (Inr wid, w')"
  shows "get_worker r (routing_key t) = Inr (Some wid) \<and> wid \<noteq> []
    \<and> q w' (worker_queue_key wid) = q w (worker_queue_key wid) @ [dump t]
    \<and> (\<forall>k. k \<noteq> worker_queue_key wid \<longrightarrow> q w' k = q w k)"
proof -
  have owner: "get_worker r (routing_key t) = Inr (Some wid)" "wid \<noteq> []"
    using assms(2) by (auto simp: dispatch_def bindE_def eff_simps
        split: prod.splits sum.splits option.splits if_splits)
  then have "rd_rpush api (worker_queue_key wid) (dump t) w = (Inr (), w')"
    using assms(2) by (auto simp: dispatch_cases[OF owner] split: prod.splits sum.splits)
  with owner redis_queues_rpush[OF assms(1)] show ?thesis by (simp add: push_list_def)
qed

definition task_k :: task where
  "task_k = \<lparr>kind = ''ingest_contract'', routing_key = ''k'', payload = [], task_id = None\<rparr>"

lemma routing_key_k [simp]: "routing_key task_k = ''k''"
  by (simp add: task_k_def)

lemma owner_k: "get_worker ring_ab (routing_key task_k) = Inr (Some ''a'')"
  by (simp add: get_worker_ab)

lemma dispatch_mem_ab:
  "dispatch mem_redis routing_key ring_ab task_k m
     = (Inr ''a'', mem_push (worker_queue_key ''a'') ''k'' m)"
  unfolding dispatch_cases[OF owner_k list.distinct(2)] by simp

lemma usable_ab: "workers ring_ab \<noteq> []" "[] \<notin> set (workers ring_ab)"
proof -
  show "workers ring_ab \<noteq> []" using workers_ab by (metis empty_not_insert empty_set)
  show "[] \<notin> set (workers ring_ab)" unfolding workers_ab by simp
qed

lemma dispatch_many_mem_ab:
  "dispatch_many mem_redis routing_key ring_ab [task_k, task_k] m
     = (Inr (append_to (append_to [] ''a'' task_k) ''a'' task_k),
        mem_push (worker_queue_key ''a'') ''k'' (mem_push (worker_queue_key ''a'') ''k'' m))"
  by (simp add: dispatch_many_cases get_worker_ab)

lemma dispatch_to_owner_example:
  "mem_list (mem_push (worker_queue_key ''a'') ''k'' mem_ab) (worker_queue_key ''a'')
     = mem_list mem_ab (worker_queue_key ''a'') @ [''k'']"
  using dispatch_to_owner[OF mem_redis_queues dispatch_mem_ab] by (simp add: task_k_def)

text \<open>
  With no worker on the ring, \<open>dispatch\<close> and \<open>dispatch_many\<close> (of at least one task)
  raise \<open>NoWorkersAvailable\<close> and send nothing to the server.
\<close>

lemma dispatch_without_workers:
  assumes "ring_reach r" and "workers r = []" and "ts \<noteq> []"
  shows "(\<exists>m. dispatch api dump r t w = (Inl (NoWorkersAvailable m), w))
    \<and> dispatch_many api dump r ts w = (Inl (NoWorkersAvailable ''ring is empty''), w)"
proof -
  note ok = ring_reach_ok[OF assms(1)]
  have none: "ring_members r = {}" using set_workers[OF ok] assms(2) by simp
  then have "get_worker r (routing_key t) = Inr None" using ring.route_none[OF ok] by blast
  then show ?thesis
    using ring.plan_tasks_empty[OF ok none assms(3)]
    by (simp add: dispatch_def bindE_def dispatch_many_cases no_workers_def eff_simps)
qed

lemma dispatch_without_workers_example:
  "dispatch_many mem_redis routing_key (ring_init 150) [task_k] mem_ab
     = (Inl (NoWorkersAvailable ''ring is empty''), mem_ab)"
proof -
  have "workers (ring_init 150) = []" by (simp add: workers_def ring_init_def dict_values_def)
  then show ?thesis
    by (rule conjunct2[OF dispatch_without_workers[OF reach_init]]) simp
qed

text \<open>
  C20: When \<open>dispatch_many\<close> succeeds on a ring with workers (none named by the empty string),
  every worker's queue has grown by exactly the tasks the worker owns, in the order of the
  batch, lists that are no worker's queue are unchanged, and the returned dictionary maps each
  worker to these tasks.
\<close>

theorem dispatch_many_delivers:
  assumes "redis_queues api q" and "ring_reach r" and "workers r \<noteq> []" and "[] \<notin> set (workers r)"
    and "dispatch_many api dump r ts w = (Inr by_worker, w')"
  shows "q w' (worker_queue_key v) =
      q w (worker_queue_key v) @ map dump (filter (\<lambda>t. get_worker r (routing_key t) = Inr (Some v)) ts)
    \<and> dict_get by_worker v =
      (let us = filter (\<lambda>t. get_worker r (routing_key t) = Inr (Some v)) ts
       in if us = [] then None else Some us)
    \<and> (\<forall>k. (\<forall>u. k \<noteq> worker_queue_key u) \<longrightarrow> q w' k = q w k)"
proof -
  have mem: "ring_members r \<noteq> {}" "[] \<notin> ring_members r"
    using assms(2-4) set_workers[OF ring_reach_ok[OF assms(2)]] by (metis set_empty)+
  obtain d where plan: "plan_tasks (get_worker r) dump ts [] [] = Inr (d, pipe_of (get_worker r) dump ts)"
    and d: "\<And>w. dict_get d w =
      (if tasks_of (get_worker r) w ts = [] then None else Some (tasks_of (get_worker r) w ts))"
    using ring.plan_tasks_result[OF ring_reach_ok[OF assms(2)] mem, of dump ts "[]" "[]"]
    by (auto simp: dict_simps)
  have own: "tasks_of (get_worker r) v ts = filter (\<lambda>t. get_worker r (routing_key t) = Inr (Some v)) ts"
    by (rule tasks_of_filter) (use usable_ring[OF assms(2-4)] in blast)
  have "rd_rpush_pipeline api (pipe_of (get_worker r) dump ts) w = (Inr (), w')" "by_worker = d"
    using assms(5) by (auto simp: dispatch_many_cases plan split: prod.splits sum.splits)
  then show ?thesis
    using redis_queues_pipeline[OF assms(1)] by (simp add: push_list_pipe_of push_list_other own d)
qed

theorem dispatch_many_delivers_witness:
  "mem_list (snd (dispatch_many mem_redis routing_key ring_ab [task_k, task_k] mem_empty))
     (worker_queue_key ''a'') = [''k'', ''k'']"
proof -
  have "mem_list mem_empty (worker_queue_key ''a'') = []"
    by (simp add: mem_list_def mem_empty_def dict_simps)
  then show ?thesis
    using dispatch_many_delivers[OF mem_redis_queues ring_reach_ab usable_ab dispatch_many_mem_ab,
        of mem_empty "''a''"]
    by (simp add: dispatch_many_mem_ab get_worker_ab)
qed

text \<open>
  C21: Dispatching a batch with \<open>dispatch_many\<close> leaves the same queues as dispatching its
  tasks one by one.
\<close>

theorem dispatch_many_equals_sequence:
  assumes "redis_queues api q" and "ring_reach r" and "workers r \<noteq> []" and "[] \<notin> set (workers r)"
    and "dispatch_many api dump r ts w = (Inr by_worker, w1)"
    and "forE ts (\<lambda>t. bindE (dispatch api dump r t) (\<lambda>_. retE ())) w = (Inr (), w2)"
  shows "q w1 = q w2"
proof -
  have mem: "ring_members r \<noteq> {}" "[] \<notin> ring_members r"
    using assms(2-4) set_workers[OF ring_reach_ok[OF assms(2)]] by (metis set_empty)+
  obtain d where "plan_tasks (get_worker r) dump ts [] [] = Inr (d, pipe_of (get_worker r) dump ts)"
    using ring.plan_tasks_result[OF ring_reach_ok[OF assms(2)] mem, of dump ts "[]" "[]"] by auto
  then have "rd_rpush_pipeline api (pipe_of (get_worker r) dump ts) w = (Inr (), w1)"
    using assms(5) by (auto simp: dispatch_many_cases split: prod.splits sum.splits)
  then have "q w1 = push_list (q w) (pipe_of (get_worker r) dump ts)"
    by (rule redis_queues_pipeline[OF assms(1)])
  moreover have "q w2 = push_list (q w) (pipe_of (get_worker r) dump ts)"
    using usable_ring[OF assms(2-4)] by (intro dispatch_each_queues[OF assms(1) _ assms(6)]) blast
  ultimately show ?thesis by simp
qed

theorem dispatch_many_equals_sequence_witness:
  "mem_list (snd (dispatch_many mem_redis routing_key ring_ab [task_k, task_k] mem_empty))
     = mem_list (snd (forE [task_k, task_k]
         (\<lambda>t. bindE (dispatch mem_redis routing_key ring_ab t) (\<lambda>_. retE ())) mem_empty))"
proof -
  have "forE [task_k, task_k] (\<lambda>t. bindE (dispatch mem_redis routing_key ring_ab t) (\<lambda>_. retE ())) mem_empty
      = (Inr (), mem_push (worker_queue_key ''a'') ''k'' (mem_push (worker_queue_key ''a'') ''k'' mem_empty))"
    by (simp add: forE_Cons_Inr bindE_Inr_iff dispatch_mem_ab eff_simps)
  then show ?thesis
    using dispatch_many_equals_sequence[OF mem_redis_queues ring_reach_ab usable_ab
        dispatch_many_mem_ab, of mem_empty] dispatch_many_mem_ab[of mem_empty]
    by simp
qed

end
