(* ===== verification/Worker.thy ===== *)
theory Worker
  imports Dispatcher
begin

text \<open>
  Model of \<open>workers/task_queue.py\<close> and \<open>workers/worker.py\<close>.

  A worker pops its own queue and hands each task to the handler of the task's kind.
  \<open>stop\<close> reads the stop event that the signal handlers set; \<open>hb\<close> reads what has become
  of the background heartbeat task when the worker shuts down. \<open>run_loop\<close> is the
  \<open>while\<close> loop of \<open>Worker.run\<close>: \<open>None\<close> means that it runs forever. \<open>worker_trace\<close> is
  the step relation of the loop, with the list of tasks handled so far.
\<close>

definition task_pop ::
    "'w redis \<Rightarrow> (string \<Rightarrow> exc + task) \<Rightarrow> string \<Rightarrow> ('w, task option) eff" where
  "task_pop api validate wid =
     bindE (rd_blpop api (worker_queue_key wid))
       (\<lambda>result. case result of
          None \<Rightarrow> retE None
        | Some (_, p) \<Rightarrow> bindE (liftE (validate p)) (\<lambda>t. retE (Some t)))"

text \<open>One element of the asynchronous iterator \<open>iter_tasks\<close>.\<close>

partial_function (option) next_task ::
    "'w redis \<Rightarrow> (string \<Rightarrow> exc + task) \<Rightarrow> string \<Rightarrow> 'w \<Rightarrow> ((exc + task) \<times> 'w) option" where
  "next_task api validate wid w =
     (case task_pop api validate wid w of
        (Inl e, w') \<Rightarrow> Some (Inl e, w')
      | (Inr None, w') \<Rightarrow> next_task api validate wid w'
      | (Inr (Some t), w') \<Rightarrow> Some (Inr t, w'))"

definition queue_depth :: "'w redis \<Rightarrow> string \<Rightarrow> ('w, nat) eff" where
  "queue_depth api wid = rd_llen api (worker_queue_key wid)"

type_synonym 'w task_handler = "task \<Rightarrow> ('w, json) eff"

record 'w worker =
  worker_id :: string
  handlers :: "(string, 'w task_handler) pydict"

text \<open>The host name, the process id and the random hexadecimal digits are parameters.\<close>

definition default_worker_id :: "string \<Rightarrow> nat \<Rightarrow> string \<Rightarrow> string" where
  "default_worker_id hostname pid random_hex =
     hostname @ ''-'' @ str_nat pid @ ''-'' @ take 6 random_hex"

definition make_worker ::
    "string \<Rightarrow> string option \<Rightarrow> (string, 'w task_handler) pydict option \<Rightarrow> 'w worker" where
  "make_worker default_id wid hs =
     \<lparr>worker_id = (case wid of None \<Rightarrow> default_id | Some i \<Rightarrow> if i = [] then default_id else i),
      handlers = (case hs of None \<Rightarrow> [] | Some d \<Rightarrow> d)\<rparr>"

definition register_handler :: "'w worker \<Rightarrow> string \<Rightarrow> 'w task_handler \<Rightarrow> 'w worker" where
  "register_handler wk k h = wk\<lparr>handlers := dict_set (handlers wk) k h\<rparr>"

definition handle :: "'w worker \<Rightarrow> task \<Rightarrow> ('w, unit) eff" where
  "handle wk t =
     (case dict_get (handlers wk) (kind t) of
        None \<Rightarrow> retE ()
      | Some h \<Rightarrow> tryE (bindE (h t) (\<lambda>_. retE ())) (\<lambda>e. retE ()))"

partial_function (option) run_loop ::
    "'w redis \<Rightarrow> (string \<Rightarrow> exc + task) \<Rightarrow> ('w \<Rightarrow> bool) \<Rightarrow> 'w worker \<Rightarrow> 'w
       \<Rightarrow> ((exc + unit) \<times> 'w) option" where
  "run_loop api validate stop wk w =
     (if stop w then Some (Inr (), w)
      else
        (case task_pop api validate (worker_id wk) w of
           (Inl e, w') \<Rightarrow> Some (Inl e, w')
         | (Inr None, w') \<Rightarrow> run_loop api validate stop wk w'
         | (Inr (Some t), w') \<Rightarrow>
             (case handle wk t w' of
                (Inl e, w'') \<Rightarrow> Some (Inl e, w'')
              | (Inr _, w'') \<Rightarrow> run_loop api validate stop wk w'')))"

text \<open>
  \<open>hb_task.cancel()\<close> and \<open>await hb_task\<close>. A task that is cancelled before its first step
  never enters the \<open>try\<close> of the heartbeat loop; a running one deregisters and re-raises the
  cancellation, which is swallowed; one that has died re-raises its exception. The task gets
  its first step at an \<open>await\<close> of the worker: when the stop event is set at the first test of the
  loop, nothing is awaited between \<open>create_task\<close> and \<open>cancel\<close>, and the task has not started.
\<close>

datatype hb_status = Hb_Not_Started | Hb_Running | Hb_Failed exc

definition stop_heartbeat :: "'w redis \<Rightarrow> ('w \<Rightarrow> hb_status) \<Rightarrow> string \<Rightarrow> ('w, unit) eff" where
  "stop_heartbeat api hb wid w =
     (case hb w of
        Hb_Not_Started \<Rightarrow> (Inr (), w)
      | Hb_Running \<Rightarrow>
          (case deregister api wid w of
             (Inl e, w') \<Rightarrow> (if e = CancelledError then Inr () else Inl e, w')
           | (Inr _, w') \<Rightarrow> (Inr (), w'))
      | Hb_Failed e \<Rightarrow> (Inl e, w))"

definition worker_run ::
    "'w redis \<Rightarrow> (string \<Rightarrow> exc + task) \<Rightarrow> ('w \<Rightarrow> bool) \<Rightarrow> ('w \<Rightarrow> hb_status) \<Rightarrow> 'w worker \<Rightarrow> 'w
       \<Rightarrow> ((exc + unit) \<times> 'w) option" where
  "worker_run api validate stop hb wk w =
     (case register api (worker_id wk) w of
        (Inl e, w1) \<Rightarrow> Some (Inl e, w1)
      | (Inr _, w1) \<Rightarrow>
          (case run_loop api validate stop wk w1 of
             None \<Rightarrow> None
           | Some (r, w2) \<Rightarrow>
               Some (finallyE (\<lambda>v. (r, v))
                 (stop_heartbeat api (if stop w1 then (\<lambda>_. Hb_Not_Started) else hb) (worker_id wk)) w2)))"

section \<open>The steps of the loop\<close>

inductive worker_trace ::
    "'w redis \<Rightarrow> (string \<Rightarrow> exc + task) \<Rightarrow> ('w \<Rightarrow> bool) \<Rightarrow> 'w worker \<Rightarrow> 'w \<Rightarrow> task list \<Rightarrow> 'w \<Rightarrow> bool"
  for api validate stop wk where
  trace_refl: "worker_trace api validate stop wk w [] w"
| trace_idle:
    "\<not> stop w \<Longrightarrow> task_pop api validate (worker_id wk) w = (Inr None, w1) \<Longrightarrow>
     worker_trace api validate stop wk w1 ts w' \<Longrightarrow> worker_trace api validate stop wk w ts w'"
| trace_task:
    "\<not> stop w \<Longrightarrow> task_pop api validate (worker_id wk) w = (Inr (Some t), w1) \<Longrightarrow>
     handle wk t w1 = (Inr (), w2) \<Longrightarrow>
     worker_trace api validate stop wk w2 ts w' \<Longrightarrow> worker_trace api validate stop wk w (t # ts) w'"

inductive_cases trace_NilE: "worker_trace api validate stop wk w [] w'"
inductive_cases trace_ConsE: "worker_trace api validate stop wk w (t # ts) w'"

lemma trace_run_loop:
  "worker_trace api validate stop wk w ts w' \<Longrightarrow>
     run_loop api validate stop wk w = run_loop api validate stop wk w'"
proof (induction rule: worker_trace.induct)
  case (trace_refl w)
  show ?case by simp
next
  case (trace_idle w w1 ts w')
  then show ?case by (simp add: run_loop.simps[of _ _ _ _ w])
next
  case (trace_task w t w1 w2 ts w')
  then show ?case by (simp add: run_loop.simps[of _ _ _ _ w])
qed

lemma run_loop_trace:
  assumes "run_loop api validate stop wk w = Some (Inr (), w')"
  shows "stop w' \<and> (\<exists>ts. worker_trace api validate stop wk w ts w')"
proof -
  have "run_loop api validate stop wk w = Some rw \<Longrightarrow>
      fst rw = Inr () \<longrightarrow> stop (snd rw) \<and> (\<exists>ts. worker_trace api validate stop wk w ts (snd rw))"
    for rw
  proof (induction rule: run_loop.raw_induct[rotated, consumes 1])
    case (1 loop api validate stop wk w rw)
    show ?case
    proof (cases "stop w")
      case True
      with 1(2) show ?thesis using trace_refl[of api validate stop wk w] by auto
    next
      case False
      obtain r' w' where rw: "rw = (r', w')" by (cases rw)
      show ?thesis
      proof
        assume ok: "fst rw = Inr ()"
        from 1(2) False ok rw consider
          (idle) w1 where "task_pop api validate (worker_id wk) w = (Inr None, w1)"
            "loop api validate stop wk w1 = Some rw"
        | (task) t w1 w2 where "task_pop api validate (worker_id wk) w = (Inr (Some t), w1)"
            "handle wk t w1 = (Inr (), w2)" "loop api validate stop wk w2 = Some rw"
          by (auto split: prod.splits sum.splits option.splits)
        then show "stop (snd rw) \<and> (\<exists>ts. worker_trace api validate stop wk w ts (snd rw))"
        proof cases
          case idle
          with 1(1)[OF idle(2)] ok show ?thesis using trace_idle[where stop = stop and w = w, OF False idle(1)] by blast
        next
          case task
          with 1(1)[OF task(3)] ok show ?thesis using trace_task[where stop = stop and w = w, OF False task(1,2)] by blast
        qed
      qed
    qed
  qed
  from this[OF assms] show ?thesis by simp
qed

lemma task_pop_Some:
  "task_pop api validate wid w = (Inr (Some t), w') \<longleftrightarrow>
     (\<exists>k p. rd_blpop api (worker_queue_key wid) w = (Inr (Some (k, p)), w') \<and> validate p = Inr t)"
  by (auto simp: task_pop_def bindE_Inr_iff eff_simps split: option.splits prod.splits)

lemma task_pop_None:
  "task_pop api validate wid w = (Inr None, w') \<longleftrightarrow>
     rd_blpop api (worker_queue_key wid) w = (Inr None, w')"
  by (auto simp: task_pop_def bindE_Inr_iff eff_simps split: option.splits prod.splits)

text \<open>
  Handlers may dispatch further tasks, also to the worker's own queue, and other processes
  push to it while a handler runs: what they do to the queue is to append.
\<close>

definition handlers_add ::
    "(string list \<Rightarrow> bool) \<Rightarrow> ('w \<Rightarrow> string \<Rightarrow> string list) \<Rightarrow> 'w worker \<Rightarrow> bool" where
  "handlers_add P q wk \<longleftrightarrow>
     (\<forall>k h t w r w'. dict_get (handlers wk) k = Some h \<longrightarrow> h t w = (r, w') \<longrightarrow>
        (\<exists>xs. P xs \<and> q w' (worker_queue_key (worker_id wk)) = q w (worker_queue_key (worker_id wk)) @ xs))"

abbreviation handlers_append :: "('w \<Rightarrow> string \<Rightarrow> string list) \<Rightarrow> 'w worker \<Rightarrow> bool" where
  "handlers_append \<equiv> handlers_add (\<lambda>xs. True)"

abbreviation handlers_keep :: "('w \<Rightarrow> string \<Rightarrow> string list) \<Rightarrow> 'w worker \<Rightarrow> bool" where
  "handlers_keep \<equiv> handlers_add (\<lambda>xs. xs = [])"

lemma handle_result:
  assumes "handle wk t w = (r, w')"
  shows "(\<exists>e. r = Inl e \<and> \<not> catchable e) \<or> r = Inr ()"
  using assms
  by (auto simp: handle_def tryE_def bindE_def eff_simps
      split: option.splits prod.splits sum.splits if_splits)

lemma handle_append:
  assumes "handlers_add P q wk" "P []" "handle wk t w = (r, w')"
  shows "\<exists>xs. P xs \<and> q w' (worker_queue_key (worker_id wk)) = q w (worker_queue_key (worker_id wk)) @ xs"
proof (cases "dict_get (handlers wk) (kind t)")
  case None
  with assms(2,3) show ?thesis by (intro exI[of _ "[]"]) (simp add: handle_def eff_simps)
next
  case (Some h)
  with assms(3) have "h t w = (fst (h t w), w')"
    by (auto simp: handle_def tryE_def bindE_def eff_simps split: prod.splits sum.splits if_splits)
  with assms(1) Some show ?thesis unfolding handlers_add_def by blast
qed

lemma trace_consumes:
  assumes "redis_queues api q" "handlers_add P q wk" "P []" "\<And>xs ys. P xs \<Longrightarrow> P ys \<Longrightarrow> P (xs @ ys)"
  shows "worker_trace api validate stop wk w ts w' \<Longrightarrow>
    \<exists>ps xs. P xs \<and> q w (worker_queue_key (worker_id wk)) @ xs = ps @ q w' (worker_queue_key (worker_id wk))
      \<and> map validate ps = map Inr ts"
proof (induction rule: worker_trace.induct)
  case (trace_refl w)
  show ?case using assms(3) by (intro exI[of _ "[]"]) simp
next
  case (trace_idle w w1 ts w')
  then have "q w1 = q w"
    using redis_queues_blpop_None[OF assms(1)] unfolding task_pop_None by blast
  with trace_idle.IH show ?case by simp
next
  case (trace_task w t w1 w2 ts w')
  let ?k = "worker_queue_key (worker_id wk)"
  from trace_task.hyps(2) obtain k p where p: "rd_blpop api ?k w = (Inr (Some (k, p)), w1)" "validate p = Inr t"
    by (auto simp: task_pop_Some)
  have head: "q w ?k = p # q w1 ?k" using redis_queues_blpop_Some(2)[OF assms(1) p(1)] by simp
  obtain ys where ys: "P ys" "q w2 ?k = q w1 ?k @ ys"
    using handle_append[OF assms(2,3) trace_task.hyps(3)] by blast
  obtain ps xs where IH: "P xs" "q w2 ?k @ xs = ps @ q w' ?k" "map validate ps = map Inr ts"
    using trace_task.IH by blast
  have "q w ?k @ (ys @ xs) = (p # ps) @ q w' ?k" using head ys(2) IH(2) by simp
  with IH(1,3) p(2) ys(1) assms(4) show ?case by (intro exI[of _ "p # ps"] exI[of _ "ys @ xs"]) simp
qed

text \<open>
  When only the worker takes from its queue and nothing is added, a run of the loop that leaves
  the queue empty has handled exactly the queued tasks.
\<close>

lemma run_loop_drains:
  assumes "redis_queues api q" "handlers_keep q wk" "codec_ok dump validate"
    and "run_loop api validate stop wk w = Some (Inr (), w')"
    and "q w (worker_queue_key (worker_id wk)) = map dump ts" "q w' (worker_queue_key (worker_id wk)) = []"
    and "\<And>t. t \<in> set ts \<Longrightarrow> json_ok (JObj (payload t))"
  shows "worker_trace api validate stop wk w ts w'"
proof -
  obtain us where us: "worker_trace api validate stop wk w us w'"
    using run_loop_trace[OF assms(4)] by blast
  from trace_consumes[OF assms(1,2) _ _ us] assms(5,6)
  have "map validate (map dump ts) = map Inr us" by auto
  moreover have "map validate (map dump ts) = map Inr ts"
    using assms(3,7) by (simp add: codec_ok_def del: json_ok.simps)
  ultimately have "map Inr ts = map (Inr :: task \<Rightarrow> exc + task) us" by simp
  then show ?thesis using us by (simp add: inj_map_eq_map)
qed

section \<open>Properties\<close>

text \<open>
  A failing handler does not stop the worker: the only exceptions that leave \<open>_handle\<close>
  are those an \<open>except Exception\<close> does not catch (a cancellation, an exit); a task of a
  kind without a handler is dropped without any effect.
\<close>

lemma handle_contains_failures:
  "(handle wk t w = (Inl e, w') \<longrightarrow> \<not> catchable e)
   \<and> (dict_get (handlers wk) (kind t) = None \<longrightarrow> handle wk t w = (Inr (), w))
   \<and> (dict_get (handlers wk) (kind t) = Some h \<and> catchable e' \<and> h t w = (Inl e', v)
        \<longrightarrow> handle wk t w = (Inr (), v))"
  using handle_result[of wk t w "Inl e" w']
  by (auto simp: handle_def tryE_def bindE_def eff_simps)

definition worker_a :: "mem worker" where
  "worker_a = register_handler (make_worker ''host-1'' (Some ''a'') None) ''ingest_contract''
     (\<lambda>t m. (Inl (LibError ''database down''), m))"

lemma worker_a_simps [simp]:
  "worker_id worker_a = ''a''"
  "handlers worker_a = [(''ingest_contract'', \<lambda>t m. (Inl (LibError ''database down''), m))]"
  by (simp_all add: worker_a_def register_handler_def make_worker_def dict_set_def)

lemma handle_contains_failures_example: "handle worker_a task_k mem_empty = (Inr (), mem_empty)"
  using handle_contains_failures[of worker_a task_k mem_empty undefined mem_empty
      "\<lambda>t m. (Inl (LibError ''database down''), m)" "LibError ''database down''" mem_empty]
  by (simp add: dict_get_def task_k_def)

text \<open>
  C18: The loop of \<open>Worker.run\<close> returns normally exactly when, after some number of tasks, it
  finds the stop event set at the top of an iteration: the stop event is never ignored and
  never ends the loop in the middle of a task.
\<close>

theorem run_loop_stops:
  "run_loop api validate stop wk w = Some (Inr (), w')
     \<longleftrightarrow> stop w' \<and> (\<exists>ts. worker_trace api validate stop wk w ts w')"
proof
  assume "stop w' \<and> (\<exists>ts. worker_trace api validate stop wk w ts w')"
  then obtain ts where "stop w'" "worker_trace api validate stop wk w ts w'" by blast
  then show "run_loop api validate stop wk w = Some (Inr (), w')"
    by (simp add: trace_run_loop run_loop.simps[of _ _ _ _ w'])
qed (rule run_loop_trace)

text \<open>
  C17: A worker consumes its queue strictly in FIFO order: the payloads it has popped when the
  loop returns are a prefix of the queue it started with (extended by what others appended
  meanwhile), each one decodes to the task handled at that position, and the rest of the
  queue is still there. No task is skipped, duplicated or reordered.
\<close>

theorem worker_fifo:
  assumes "redis_queues api q" and "handlers_append q wk"
    and "run_loop api validate stop wk w = Some (Inr (), w')"
  shows "\<exists>ts ps xs. worker_trace api validate stop wk w ts w' \<and> map validate ps = map Inr ts
    \<and> q w (worker_queue_key (worker_id wk)) @ xs = ps @ q w' (worker_queue_key (worker_id wk))"
proof -
  obtain ts where ts: "worker_trace api validate stop wk w ts w'"
    using run_loop_trace[OF assms(3)] by blast
  with trace_consumes[OF assms(1,2) _ _ ts] show ?thesis by blast
qed

definition mem_queue_a :: mem where
  "mem_queue_a = mem_push (worker_queue_key ''a'') ''k'' mem_empty"

definition mem_drained_a :: mem where
  "mem_drained_a = mem_queue_a\<lparr>mem_lists := dict_set (mem_lists mem_queue_a) (worker_queue_key ''a'') []\<rparr>"

definition stop_when_drained :: "mem \<Rightarrow> bool" where
  "stop_when_drained m \<longleftrightarrow> mem_list m (worker_queue_key ''a'') = []"

lemma mem_list_queue_a: "mem_list mem_queue_a (worker_queue_key ''a'') = [''k'']"
  by (simp add: mem_queue_a_def mem_list_push push_list_def) (simp add: mem_list_def mem_empty_def dict_simps)

lemma stop_drained: "stop_when_drained mem_drained_a" "\<not> stop_when_drained mem_queue_a"
  by (simp_all add: stop_when_drained_def mem_list_queue_a)
    (simp add: mem_drained_a_def mem_list_def dict_simps)

lemma run_loop_a:
  "run_loop mem_redis (\<lambda>p. Inr task_k) stop_when_drained worker_a mem_queue_a = Some (Inr (), mem_drained_a)"
proof -
  have "task_pop mem_redis (\<lambda>p. Inr task_k) ''a'' mem_queue_a = (Inr (Some task_k), mem_drained_a)"
    by (simp add: task_pop_Some mem_list_queue_a mem_drained_a_def)
  moreover have "handle worker_a task_k mem_drained_a = (Inr (), mem_drained_a)"
    by (simp add: handle_def dict_get_def task_k_def tryE_def bindE_def retE_def)
  ultimately show ?thesis
    using stop_drained by (simp add: run_loop.simps[of _ _ _ _ mem_queue_a] run_loop.simps[of _ _ _ _ mem_drained_a])
qed

lemma handlers_append_a: "handlers_append mem_list worker_a"
  by (auto simp: handlers_add_def dict_get_def split: if_splits)

theorem worker_fifo_witness:
  "\<exists>ts ps xs. map (\<lambda>p. Inr task_k :: exc + task) ps = map Inr ts
     \<and> [''k''] @ xs = ps @ mem_list mem_drained_a (worker_queue_key ''a'')"
  using worker_fifo[OF mem_redis_queues handlers_append_a run_loop_a]
  by (simp add: mem_list_queue_a) blast

lemma stop_heartbeat_Inr:
  assumes "stop_heartbeat api hb wid w = (Inr (), w')" "redis_keys api keys"
    and "\<And>v'. deregister api wid w \<noteq> (Inl CancelledError, v')"
  shows "case hb w of Hb_Not_Started \<Rightarrow> w' = w
    | Hb_Running \<Rightarrow> live_workers keys w' = live_workers keys w - {wid} | Hb_Failed e \<Rightarrow> False"
proof (cases "hb w")
  case Hb_Running
  with assms(1,3) have "deregister api wid w = (Inr (), w')"
    by (auto simp: stop_heartbeat_def split: prod.splits sum.splits if_splits)
  from deregister_keys[OF assms(2) this] Hb_Running show ?thesis by (auto simp: live_workers_def)
qed (use assms(1) in \<open>simp_all add: stop_heartbeat_def\<close>)

text \<open>
  C19: When \<open>Worker.run\<close> returns normally, the worker is off the list of live workers if its
  heartbeat task was running: the next scan of the heartbeat keys does not list it, and all others
  are listed as before. But a worker that finds the stop event set at the first test of its loop
  leaves its registration behind: its heartbeat task is cancelled before it has started, nothing
  deregisters the worker, and it stays listed until the key expires.
\<close>

theorem worker_run_deregisters:
  assumes "redis_keys api keys"
    and "worker_run api validate stop hb wk w = Some (Inr (), w')"
    and "\<And>v v'. deregister api (worker_id wk) v \<noteq> (Inl CancelledError, v')"
  shows "\<exists>w1. register api (worker_id wk) w = (Inr (), w1)
    \<and> (if stop w1 then w' = w1 \<and> live_workers keys w' = insert (worker_id wk) (live_workers keys w)
       else \<exists>w2. run_loop api validate stop wk w1 = Some (Inr (), w2)
         \<and> (case hb w2 of Hb_Running \<Rightarrow> live_workers keys w' = live_workers keys w2 - {worker_id wk}
            | Hb_Not_Started \<Rightarrow> w' = w2 | Hb_Failed e \<Rightarrow> False))"
proof -
  obtain w1 r w2 where reg: "register api (worker_id wk) w = (Inr (), w1)"
    and loop: "run_loop api validate stop wk w1 = Some (r, w2)"
    and fin: "finallyE (\<lambda>v. (r, v)) (stop_heartbeat api (if stop w1 then (\<lambda>_. Hb_Not_Started) else hb) (worker_id wk)) w2
      = (Inr (), w')"
    using assms(2) by (auto simp: worker_run_def split: prod.splits sum.splits option.splits)
  from fin have r: "r = Inr ()"
    and shut: "stop_heartbeat api (if stop w1 then (\<lambda>_. Hb_Not_Started) else hb) (worker_id wk) w2 = (Inr (), w')"
    by (auto simp: finallyE_def split: prod.splits sum.splits)
  note ends = stop_heartbeat_Inr[OF shut assms(1,3)]
  have "live_workers keys w1 = insert (worker_id wk) (live_workers keys w)"
    using register_keys[OF assms(1) reg] by (auto simp: live_workers_def)
  moreover have "stop w1 \<Longrightarrow> w2 = w1" using loop by (simp add: run_loop.simps[of _ _ _ _ w1])
  ultimately show ?thesis using reg loop ends r by (cases "stop w1") auto
qed

text \<open>A run that handles one task before the stop event is set, and one that is stopped at once.\<close>

definition mem_started_a :: mem where
  "mem_started_a = snd (register mem_redis ''a'' mem_queue_a)"

definition mem_worked_a :: mem where
  "mem_worked_a = mem_started_a\<lparr>mem_lists := dict_set (mem_lists mem_started_a) (worker_queue_key ''a'') []\<rparr>"

lemma register_queue_a:
  "register mem_redis ''a'' mem_queue_a = (Inr (), mem_started_a)"
  "mem_list mem_started_a (worker_queue_key ''a'') = [''k'']" "mem_list mem_worked_a (worker_queue_key ''a'') = []"
  by code_simp+

lemma run_loop_started:
  "run_loop mem_redis (\<lambda>p. Inr task_k) stop_when_drained worker_a mem_started_a = Some (Inr (), mem_worked_a)"
proof -
  have "task_pop mem_redis (\<lambda>p. Inr task_k) ''a'' mem_started_a = (Inr (Some task_k), mem_worked_a)"
    by (simp add: task_pop_Some register_queue_a mem_worked_a_def)
  moreover have "handle worker_a task_k mem_worked_a = (Inr (), mem_worked_a)"
    by (simp add: handle_def dict_get_def task_k_def tryE_def bindE_def retE_def)
  ultimately show ?thesis
    using register_queue_a(2,3) by (simp add: stop_when_drained_def run_loop.simps[of _ _ _ _ mem_started_a]
        run_loop.simps[of _ _ _ _ mem_worked_a])
qed

lemma mem_deregister: "deregister mem_redis i v \<noteq> (Inl CancelledError, v')"
  by (simp add: deregister_def bindE_def)

theorem worker_run_deregisters_witness:
  "(\<exists>m. worker_run mem_redis (\<lambda>p. Inr task_k) stop_when_drained (\<lambda>m. Hb_Running) worker_a mem_queue_a
       = Some (Inr (), m) \<and> ''a'' \<notin> live_workers (\<lambda>m. set (mem_keys m)) m)
   \<and> (\<exists>m. worker_run mem_redis (\<lambda>p. Inr task_k) (\<lambda>m. True) (\<lambda>m. Hb_Running) worker_a mem_queue_a
       = Some (Inr (), m) \<and> ''a'' \<in> live_workers (\<lambda>m. set (mem_keys m)) m)"
proof
  obtain m where run: "worker_run mem_redis (\<lambda>p. Inr task_k) stop_when_drained (\<lambda>m. Hb_Running) worker_a mem_queue_a
      = Some (Inr (), m)"
    using register_queue_a run_loop_started
    by (simp add: worker_run_def stop_when_drained_def finallyE_def stop_heartbeat_def deregister_def bindE_def)
  with worker_run_deregisters[OF mem_redis_keys run mem_deregister] register_queue_a
  have "''a'' \<notin> live_workers (\<lambda>m. set (mem_keys m)) m" by (auto simp: stop_when_drained_def)
  with run show "\<exists>m. worker_run mem_redis (\<lambda>p. Inr task_k) stop_when_drained (\<lambda>m. Hb_Running) worker_a mem_queue_a
      = Some (Inr (), m) \<and> ''a'' \<notin> live_workers (\<lambda>m. set (mem_keys m)) m" by blast
next
  have run: "worker_run mem_redis (\<lambda>p. Inr task_k) (\<lambda>m. True) (\<lambda>m. Hb_Running) worker_a mem_queue_a
      = Some (Inr (), mem_started_a)"
    using register_queue_a(1) by (simp add: worker_run_def run_loop.simps finallyE_def stop_heartbeat_def)
  with worker_run_deregisters[OF mem_redis_keys run mem_deregister]
  show "\<exists>m. worker_run mem_redis (\<lambda>p. Inr task_k) (\<lambda>m. True) (\<lambda>m. Hb_Running) worker_a mem_queue_a
      = Some (Inr (), m) \<and> ''a'' \<in> live_workers (\<lambda>m. set (mem_keys m)) m" by auto
qed

text \<open>
  A payload that does not validate as a task ends the worker: \<open>pop\<close> raises outside the
  \<open>try\<close> of \<open>_handle\<close>, the loop stops with that exception although no stop was requested,
  and the payload is already removed from the queue.
\<close>

lemma invalid_payload_ends_worker:
  assumes "redis_queues api q" and "\<not> stop w"
    and "rd_blpop api (worker_queue_key (worker_id wk)) w = (Inr (Some (k, p)), w')"
    and "validate p = Inl e"
  shows "run_loop api validate stop wk w = Some (Inl e, w')
    \<and> q w (worker_queue_key (worker_id wk)) = p # q w' (worker_queue_key (worker_id wk))"
proof -
  have "task_pop api validate (worker_id wk) w = (Inl e, w')"
    using assms(3,4) by (simp add: task_pop_def bindE_def eff_simps)
  then show ?thesis
    using assms(2) redis_queues_blpop_Some(2)[OF assms(1,3)]
    by (simp add: run_loop.simps[of _ _ _ _ w])
qed

lemma invalid_payload_ends_worker_example:
  "run_loop mem_redis (\<lambda>p. Inl ValidationError) stop_when_drained worker_a mem_queue_a
     = Some (Inl ValidationError, mem_drained_a)"
proof -
  have pop: "rd_blpop mem_redis (worker_queue_key (worker_id worker_a)) mem_queue_a
      = (Inr (Some (worker_queue_key ''a'', ''k'')), mem_drained_a)"
    by (simp add: mem_list_queue_a mem_drained_a_def)
  show ?thesis
    using invalid_payload_ends_worker[where validate = "\<lambda>p. Inl ValidationError" and e = ValidationError,
        OF mem_redis_queues, where wk = worker_a and w = mem_queue_a and stop = stop_when_drained]
      stop_drained(2) pop by blast
qed

end
