(* ===== verification/Ingest.thy ===== *)
theory Ingest
  imports Retrieval Parser Worker
begin

text \<open>
  Model of \<open>scripts/ingest_worker.py\<close>, the handler of \<open>ingest_contract\<close> tasks, and of
  \<open>scripts/ingest.py\<close>, the driver that dispatches one task for each parsed contract.

  The handler runs on an environment, reached through \<open>emb\<close> and \<open>ups\<close> (the embedder and the
  vector store), and the database. \<open>now\<close> is the time of the statements. The payload comes from
  JSON: a missing key raises \<open>KeyError\<close>; a value of another type fails in the database client,
  the model raises for it before the statement.
\<close>

section \<open>The handler\<close>

definition as_str :: "json \<Rightarrow> exc + string" where
  "as_str v = (case v of JStr s \<Rightarrow> Inr s | _ \<Rightarrow> Inl unmodelled)"

definition str_field :: "json \<Rightarrow> string \<Rightarrow> exc + string" where
  "str_field c k = bindX (json_index c k) as_str"

definition clause_record :: "string \<Rightarrow> json \<times> 'n list \<Rightarrow> exc + 'n vec_record" where
  "clause_record cid cv =
     bindX (str_field (fst cv) ''clause_id'')
       (\<lambda>i. bindX (json_index (fst cv) ''category'')
         (\<lambda>cat. Inr \<lparr>rec_id = i, rec_values = snd cv,
            rec_metadata = Some [(''contract_id'', JStr cid), (''category'', cat)]\<rparr>))"

definition insert_clause :: "string \<Rightarrow> int \<Rightarrow> json \<Rightarrow> (db, unit) eff" where
  "insert_clause cid now c =
     bindE (liftE (bindX (str_field c ''clause_id'')
         (\<lambda>i. bindX (str_field c ''category'') (\<lambda>cat. bindX (str_field c ''text'') (\<lambda>t. Inr (i, cat, t))))))
       (\<lambda>(i, cat, t). db_call (\<lambda>ts. ((), upsert_clause i cid cat t i now ts)))"

definition payload_fields :: "(string \<times> json) list \<Rightarrow> exc + json \<times> json \<times> json" where
  "payload_fields p =
     bindX (json_index (JObj p) ''contract_id'')
       (\<lambda>cid. bindX (json_index (JObj p) ''filename'')
         (\<lambda>fn. bindX (json_index (JObj p) ''clauses'') (\<lambda>cl. Inr (cid, fn, cl))))"

text \<open>Steps 2 to 4, for a contract with clauses.\<close>

definition ingest_clauses ::
    "(string list \<Rightarrow> ('e, 'n list list) eff) \<Rightarrow> ('n vec_record list \<Rightarrow> ('e, unit) eff) \<Rightarrow> int
       \<Rightarrow> string \<Rightarrow> json list \<Rightarrow> ('e \<times> db, unit) eff" where
  "ingest_clauses emb ups now cid cs =
     bindE (liftE (collect (\<lambda>c. str_field c ''text'') cs))
       (\<lambda>texts. bindE (on_env (emb texts))
         (\<lambda>vectors. bindE (liftE (collect (clause_record cid) (zip cs vectors)))
           (\<lambda>records. bindE (on_env (ups records))
             (\<lambda>_. on_db (session (forE cs (insert_clause cid now)))))))"

definition handle_ingest_contract ::
    "(string list \<Rightarrow> ('e, 'n list list) eff) \<Rightarrow> ('n vec_record list \<Rightarrow> ('e, unit) eff) \<Rightarrow> int
       \<Rightarrow> task \<Rightarrow> ('e \<times> db, string \<times> nat) eff" where
  "handle_ingest_contract emb ups now t =
     bindE (liftE (payload_fields (payload t)))
       (\<lambda>(cid_v, fn_v, cl). bindE (liftE (bindX (as_str cid_v) (\<lambda>cid. bindX (as_str fn_v) (\<lambda>fn. Inr (cid, fn)))))
         (\<lambda>(cid, fn). bindE (on_db (session (db_call (\<lambda>ts. ((), upsert_contract cid fn now ts)))))
           (\<lambda>_. if \<not> json_truthy cl then retE (cid, 0)
             else bindE (liftE (json_iter cl))
               (\<lambda>cs. bindE (ingest_clauses emb ups now cid cs) (\<lambda>_. retE (cid, length cs))))))"

section \<open>The driver\<close>

definition clause_json :: "parsed_clause \<Rightarrow> json" where
  "clause_json c = JObj
     [(''clause_id'', JStr (clause_id c)), (''contract_id'', JStr (clause_contract c)),
      (''category'', JStr (clause_category c)), (''text'', JStr (clause_text c)),
      (''answer_start'', case answer_start c of None \<Rightarrow> JNull | Some n \<Rightarrow> JInt n)]"

definition ingest_task :: "parsed_contract \<Rightarrow> task" where
  "ingest_task c = \<lparr>kind = ''ingest_contract'', routing_key = contract_id c,
     payload = [(''contract_id'', JStr (contract_id c)), (''filename'', JStr (filename c)),
       (''clauses'', JList (map clause_json (clauses c)))],
     task_id = None\<rparr>"

definition limit_reached :: "int option \<Rightarrow> nat \<Rightarrow> bool" where
  "limit_reached limit n = (case limit of None \<Rightarrow> False | Some k \<Rightarrow> k \<noteq> 0 \<and> k \<le> int n)"

text \<open>
  The loop over the parsed contracts; the result is the number of tasks enqueued and whether
  the loop was left because the ring had no workers.
\<close>

fun enqueue_loop ::
    "'w redis \<Rightarrow> (task \<Rightarrow> string) \<Rightarrow> hash_ring \<Rightarrow> int option \<Rightarrow> exc option \<Rightarrow> parsed_contract list \<Rightarrow> nat
       \<Rightarrow> ('w, nat \<times> bool) eff" where
  "enqueue_loop api dump r limit end_exc [] n w =
     (case end_exc of None \<Rightarrow> (Inr (n, False), w) | Some e \<Rightarrow> (Inl e, w))"
| "enqueue_loop api dump r limit end_exc (c # cs) n w =
     (if limit_reached limit n then (Inr (n, False), w)
      else (case dispatch api dump r (ingest_task c) w of
          (Inl (NoWorkersAvailable m), w') \<Rightarrow> (Inr (n, True), w')
        | (Inl e, w') \<Rightarrow> (Inl e, w')
        | (Inr wid, w') \<Rightarrow> enqueue_loop api dump r limit end_exc cs (Suc n) w'))"

definition ingest_main ::
    "'w redis \<Rightarrow> (task \<Rightarrow> string) \<Rightarrow> parsed_contract list \<times> exc option \<Rightarrow> int option
       \<Rightarrow> (hash_ring \<times> 'w, nat \<times> bool) eff" where
  "ingest_main api dump parsed limit =
     bindE (on_world (sentinel_ping api))
       (\<lambda>ok. if \<not> ok then raiseE (SystemExit ''Redis Sentinel unreachable'')
         else bindE (refresh_ring api)
           (\<lambda>ws. if ws = [] then raiseE (SystemExit ''No live workers found'')
             else (\<lambda>s. on_world (enqueue_loop api dump (fst s) limit (snd parsed) (fst parsed) 0) s)))"

section \<open>Laws of the handler\<close>

lemma on_env_Inr: "on_env f (e, d) = (Inr a, (e', d')) \<longleftrightarrow> d' = d \<and> f e = (Inr a, e')"
  by (auto simp: on_env_def split: prod.splits)

lemma on_env_Inl: "on_env f (e, d) = (Inl x, (e', d')) \<longleftrightarrow> d' = d \<and> f e = (Inl x, e')"
  by (auto simp: on_env_def split: prod.splits)

lemma on_db_Inl: "on_db f (e, d) = (Inl x, (e', d')) \<longleftrightarrow> e' = e \<and> f d = (Inl x, d')"
  by (auto simp: on_db_def split: prod.splits)

lemma clause_json_fields:
  "str_field (clause_json c) ''clause_id'' = Inr (clause_id c)"
  "str_field (clause_json c) ''text'' = Inr (clause_text c)"
  "str_field (clause_json c) ''category'' = Inr (clause_category c)"
  "json_index (clause_json c) ''category'' = Inr (JStr (clause_category c))"
  by (simp_all add: str_field_def clause_json_def as_str_def dict_get_def)

lemma collect_texts: "collect (\<lambda>c. str_field c ''text'') (map clause_json cs) = Inr (map clause_text cs)"
  by (induction cs) (simp_all add: clause_json_fields)

definition contract_record :: "string \<Rightarrow> parsed_clause \<times> 'n list \<Rightarrow> 'n vec_record" where
  "contract_record cid cv = \<lparr>rec_id = clause_id (fst cv), rec_values = snd cv,
     rec_metadata = Some [(''contract_id'', JStr cid), (''category'', JStr (clause_category (fst cv)))]\<rparr>"

lemma collect_records:
  "collect (clause_record cid) (zip (map clause_json cs) vs) = Inr (map (contract_record cid) (zip cs vs))"
proof (induction cs arbitrary: vs)
  case (Cons c cs)
  then show ?case
    by (cases vs) (simp_all add: clause_record_def contract_record_def clause_json_fields)
qed simp

definition insert_row :: "string \<Rightarrow> int \<Rightarrow> parsed_clause \<Rightarrow> tables \<Rightarrow> tables" where
  "insert_row cid now c = upsert_clause (clause_id c) cid (clause_category c) (clause_text c) (clause_id c) now"

lemma insert_clauses_Inr:
  "forE (map clause_json cs) (insert_clause cid now) d = (Inr (), d') \<Longrightarrow>
     db_tables d' = fold (insert_row cid now) cs (db_tables d)"
proof (induction cs arbitrary: d)
  case (Cons c cs)
  then obtain d1 where "insert_clause cid now (clause_json c) d = (Inr (), d1)"
    and rest: "forE (map clause_json cs) (insert_clause cid now) d1 = (Inr (), d')"
    by (auto split: prod.splits sum.splits)
  then have "db_tables d1 = insert_row cid now c (db_tables d)"
    by (auto simp: insert_clause_def clause_json_fields bindE_Inr_iff liftE_apply insert_row_def dest: db_call_Inr)
  then show ?case using Cons.IH[OF rest] by simp
qed simp

lemma payload_ingest_task:
  "payload_fields (payload (ingest_task c))
     = Inr (JStr (contract_id c), JStr (filename c), JList (map clause_json (clauses c)))"
  by (simp add: payload_fields_def ingest_task_def dict_get_def)

lemma payload_ingest_ok: "json_ok (JObj (payload (ingest_task c)))"
  by (auto simp: ingest_task_def clause_json_def dict_ok_def split: option.splits)

text \<open>A run of the handler on the driver's task, step by step.\<close>

lemma handle_ingest_steps:
  assumes "handle_ingest_contract emb ups now (ingest_task c) (e, d) = (Inr out, (e', d'))"
  obtains d1 where "db_tables d1 = upsert_contract (contract_id c) (filename c) now (db_tables d)"
    and "out = (contract_id c, length (clauses c))"
    and "clauses c = [] \<and> e' = e \<and> d' = d1
      \<or> clauses c \<noteq> [] \<and> (\<exists>vs e1. emb (map clause_text (clauses c)) e = (Inr vs, e1)
           \<and> ups (map (contract_record (contract_id c)) (zip (clauses c) vs)) e1 = (Inr (), e')
           \<and> db_tables d' = fold (insert_row (contract_id c) now) (clauses c) (db_tables d1))"
proof -
  obtain d1 where s1: "session (db_call (\<lambda>ts. ((), upsert_contract (contract_id c) (filename c) now ts))) d = (Inr (), d1)"
    and rest: "(if \<not> json_truthy (JList (map clause_json (clauses c))) then retE (contract_id c, 0)
       else bindE (liftE (json_iter (JList (map clause_json (clauses c)))))
         (\<lambda>cs. bindE (ingest_clauses emb ups now (contract_id c) cs) (\<lambda>_. retE (contract_id c, length cs)))) (e, d1)
       = (Inr out, (e', d'))"
    using assms
    by (auto simp: handle_ingest_contract_def payload_ingest_task as_str_def bindE_Inr_iff liftE_apply on_db_Inr)
  note d1 = write_session_Inr[OF s1]
  show thesis
  proof (cases "clauses c = []")
    case True
    with rest show thesis by (intro that[OF d1]) (auto simp: retE_apply)
  next
    case False
    with rest obtain u where ing: "ingest_clauses emb ups now (contract_id c) (map clause_json (clauses c)) (e, d1) = (Inr u, (e', d'))"
      and out: "out = (contract_id c, length (clauses c))"
      by (auto simp: bindE_Inr_iff liftE_apply retE_apply)
    from ing obtain vs e1 where "emb (map clause_text (clauses c)) e = (Inr vs, e1)"
      "ups (map (contract_record (contract_id c)) (zip (clauses c) vs)) e1 = (Inr (), e')"
      and s2: "session (forE (map clause_json (clauses c)) (insert_clause (contract_id c) now)) d1 = (Inr (), d')"
      by (auto simp: ingest_clauses_def collect_texts collect_records bindE_Inr_iff liftE_apply on_env_Inr on_db_Inr)
    moreover from s2 obtain d2 where "forE (map clause_json (clauses c)) (insert_clause (contract_id c) now) d1 = (Inr (), d2)"
      "db_tables d' = db_tables d2" by (rule session_Inr)
    ultimately show thesis using False out insert_clauses_Inr by (intro that[OF d1]) auto
  qed
qed

lemma insert_row_contracts [simp]: "contract_rows (insert_row cid now c t) = contract_rows t"
  by (simp add: insert_row_def upsert_clause_def)

lemma fold_insert_row_contracts [simp]: "contract_rows (fold (insert_row cid now) cs t) = contract_rows t"
  by (induction cs arbitrary: t) simp_all

lemma insert_row_ok: "tables_ok t \<Longrightarrow> tables_ok (insert_row cid now c t)"
  by (simp add: insert_row_def upsert_clause_ok)

lemma fold_insert_row_ok: "tables_ok t \<Longrightarrow> tables_ok (fold (insert_row cid now) cs t)"
  by (induction cs arbitrary: t) (simp_all add: insert_row_ok)

text \<open>The row of a clause after an ingestion, from the row before.\<close>

definition stored_row :: "string \<Rightarrow> int \<Rightarrow> parsed_clause \<Rightarrow> clause_row option \<Rightarrow> clause_row" where
  "stored_row cid now c old = (case old of
      None \<Rightarrow> new_clause (clause_id c) cid (clause_category c) (clause_text c) (clause_id c) now
    | Some r \<Rightarrow> updated_clause (clause_text c) (clause_id c) now r)"

lemma insert_row_view:
  "tables_ok t \<Longrightarrow> clause_view (insert_row cid now c t) =
     (clause_view t)((cid, clause_id c) \<mapsto> stored_row cid now c (clause_view t (cid, clause_id c)))"
  by (simp add: insert_row_def upsert_clause_view stored_row_def)

text \<open>
  What an ingestion makes of the clause table, as an update of a map: the specification that
  the handler implements.
\<close>

definition ingested :: "int \<Rightarrow> string \<Rightarrow> parsed_clause list \<Rightarrow> (string \<times> string \<rightharpoonup> clause_row)
    \<Rightarrow> (string \<times> string \<rightharpoonup> clause_row)" where
  "ingested now cid cs m = (\<lambda>(ctr, i).
     if ctr = cid then
       (case find (\<lambda>c. clause_id c = i) cs of
          None \<Rightarrow> m (ctr, i) | Some c \<Rightarrow> Some (stored_row cid now c (m (ctr, i))))
     else m (ctr, i))"

lemma find_id_None: "find (\<lambda>c. clause_id c = i) cs = None \<longleftrightarrow> i \<notin> clause_id ` set cs"
  by (auto simp: find_None_iff)

lemma fold_insert_row_view:
  "tables_ok t \<Longrightarrow> distinct (map clause_id cs) \<Longrightarrow>
     clause_view (fold (insert_row cid now) cs t) = ingested now cid cs (clause_view t)"
proof (induction cs arbitrary: t)
  case Nil
  then show ?case by (auto simp: ingested_def)
next
  case (Cons c cs)
  have "find (\<lambda>x. clause_id x = clause_id c) cs = None"
    using Cons.prems(2) by (simp add: find_id_None)
  moreover have "clause_view (fold (insert_row cid now) (c # cs) t)
      = ingested now cid cs (clause_view (insert_row cid now c t))"
    using Cons by (simp add: insert_row_ok)
  ultimately show ?case using Cons.prems(1)
    by (auto simp: ingested_def insert_row_view fun_eq_iff split: option.splits)
qed

lemma stored_row_twice: "stored_row cid b c (Some (stored_row cid a c old)) = stored_row cid b c old"
  by (simp add: stored_row_def new_clause_def updated_clause_def split: option.splits)

lemma ingested_twice: "ingested b cid cs (ingested a cid cs m) = ingested b cid cs m"
  by (auto simp: ingested_def fun_eq_iff stored_row_twice split: option.splits)

lemma fold_insert_row_fresh:
  "tables_ok t \<Longrightarrow> distinct (map clause_id cs) \<Longrightarrow> (\<And>c. c \<in> set cs \<Longrightarrow> clause_view t (cid, clause_id c) = None) \<Longrightarrow>
     clause_rows (fold (insert_row cid now) cs t) = clause_rows t @ map (\<lambda>c. stored_row cid now c None) cs"
proof (induction cs arbitrary: t)
  case (Cons c cs)
  have "clause_view (insert_row cid now c t) (cid, clause_id d) = None" if "d \<in> set cs" for d
  proof -
    have "clause_id d \<in> clause_id ` set cs" using that by (rule imageI)
    then have "clause_id d \<noteq> clause_id c" using Cons.prems(2) by auto
    then show ?thesis using Cons.prems(1) Cons.prems(3)[of d] that by (simp add: insert_row_view)
  qed
  moreover have "clause_rows (insert_row cid now c t) = clause_rows t @ [stored_row cid now c None]"
    using Cons.prems(3)[of c] by (simp add: insert_row_def upsert_clause_alt stored_row_def)
  ultimately show ?case using Cons by (simp add: insert_row_ok)
qed simp

text \<open>An attempt that raises leaves the clause rows alone: only the last session writes them.\<close>

lemma on_env_db: "on_env f (e, d) = (r, (e', d')) \<Longrightarrow> d' = d"
  by (auto simp: on_env_def split: prod.splits)

lemma ingest_clauses_fails:
  "ingest_clauses emb ups now cid cs (e, d) = (Inl x, (e', d')) \<Longrightarrow> db_tables d' = db_tables d"
  by (auto simp: ingest_clauses_def bindE_Inl_iff liftE_apply on_db_Inl dest!: session_Inl dest: on_env_db)

lemma contract_session_clauses:
  "session (db_call (\<lambda>ts. ((), upsert_contract cid fn now ts))) d = (r, d') \<Longrightarrow>
     clause_rows (db_tables d') = clause_rows (db_tables d)"
  by (cases r) (auto dest: session_Inl write_session_Inr)

lemma on_db_state: "on_db f (e, d) = (r, (e', d')) \<longleftrightarrow> e' = e \<and> f d = (r, d')"
  by (auto simp: on_db_def split: prod.splits)

lemma handle_ingest_fails:
  assumes "handle_ingest_contract emb ups now t (e, d) = (Inl x, (e', d'))"
  shows "db_tables d' = db_tables d \<or> (\<exists>cid fn. db_tables d' = upsert_contract cid fn now (db_tables d))"
  using assms
  by (auto simp: handle_ingest_contract_def bindE_Inl_iff liftE_apply retE_apply on_db_state
      split: if_splits dest!: ingest_clauses_fails write_session_Inr session_Inl) blast

lemma handle_ingest_any:
  assumes "handle_ingest_contract emb ups now (ingest_task c) (e, d) = (r, (e', d'))"
    and "tables_ok (db_tables d)" and "distinct (map clause_id (clauses c))"
  shows "tables_ok (db_tables d') \<and> clause_view (db_tables d') =
    (case r of Inl _ \<Rightarrow> clause_view (db_tables d)
     | Inr _ \<Rightarrow> ingested now (contract_id c) (clauses c) (clause_view (db_tables d)))"
proof (cases r)
  case (Inl x)
  with handle_ingest_fails[of emb ups now "ingest_task c" e d x e' d'] assms(1,2) show ?thesis
    by (auto simp: upsert_contract_ok)
next
  case (Inr out)
  with assms(1) have "handle_ingest_contract emb ups now (ingest_task c) (e, d) = (Inr out, (e', d'))" by simp
  then obtain d1 where d1: "db_tables d1 = upsert_contract (contract_id c) (filename c) now (db_tables d)"
    and "clauses c = [] \<and> e' = e \<and> d' = d1
      \<or> clauses c \<noteq> [] \<and> (\<exists>vs e1. emb (map clause_text (clauses c)) e = (Inr vs, e1)
           \<and> ups (map (contract_record (contract_id c)) (zip (clauses c) vs)) e1 = (Inr (), e')
           \<and> db_tables d' = fold (insert_row (contract_id c) now) (clauses c) (db_tables d1))"
    by (rule handle_ingest_steps)
  then have "db_tables d' = fold (insert_row (contract_id c) now) (clauses c) (db_tables d1)" by auto
  then show ?thesis using Inr d1 assms(2,3)
    by (simp add: upsert_contract_ok fold_insert_row_ok fold_insert_row_view)
qed

section \<open>Laws of the driver\<close>

text \<open>PING and SCAN do not change the lists.\<close>

definition reads_keep :: "'w redis \<Rightarrow> ('w \<Rightarrow> string \<Rightarrow> string list) \<Rightarrow> bool" where
  "reads_keep api q \<longleftrightarrow> (\<forall>w r w'. rd_ping api w = (r, w') \<longrightarrow> q w' = q w)
     \<and> (\<forall>p w r w'. rd_scan api p w = (r, w') \<longrightarrow> q w' = q w)"

text \<open>The contracts that the driver reaches.\<close>

definition limited :: "int option \<Rightarrow> nat \<Rightarrow> 'a list \<Rightarrow> 'a list" where
  "limited limit n cs = (case limit of
      None \<Rightarrow> cs | Some k \<Rightarrow> if k = 0 then cs else take (nat (k - int n)) cs)"

lemma limited_reached: "limit_reached limit n \<Longrightarrow> limited limit n cs = []"
  by (auto simp: limit_reached_def limited_def split: option.splits)

lemma limited_Cons:
  "\<not> limit_reached limit n \<Longrightarrow> limited limit n (c # cs) = c # limited limit (Suc n) cs"
proof -
  assume "\<not> limit_reached limit n"
  moreover have "nat (k - int n) = Suc (nat (k - int (Suc n)))" if "\<not> k \<le> int n" for k
    using that by simp
  ultimately show ?thesis by (auto simp: limit_reached_def limited_def split: option.splits)
qed

lemma dispatch_Inr:
  "dispatch api dump r t w = (Inr wid, w') \<Longrightarrow>
     get_worker r (routing_key t) = Inr (Some wid) \<and> rd_rpush api (worker_queue_key wid) (dump t) w = (Inr (), w')"
  by (auto simp: dispatch_def bindE_Inr_iff eff_simps split: option.splits if_splits)

lemma enqueue_loop_pushes:
  assumes "redis_queues api q"
  shows "enqueue_loop api dump r limit ee cs n w = (Inr (m, False), w') \<Longrightarrow>
    m = n + length (limited limit n cs)
    \<and> (\<forall>c \<in> set (limited limit n cs). \<exists>wid. get_worker r (contract_id c) = Inr (Some wid))
    \<and> q w' = push_list (q w) (pipe_of (get_worker r) dump (map ingest_task (limited limit n cs)))"
proof (induction cs arbitrary: n w)
  case Nil
  then show ?case by (auto simp: limited_def pipe_of_def push_list_def split: option.splits)
next
  case (Cons c cs)
  show ?case
  proof (cases "limit_reached limit n")
    case True
    with Cons.prems show ?thesis by (simp add: limited_reached pipe_of_def push_list_def)
  next
    case False
    with Cons.prems obtain wid w1 where d: "dispatch api dump r (ingest_task c) w = (Inr wid, w1)"
      and rest: "enqueue_loop api dump r limit ee cs (Suc n) w1 = (Inr (m, False), w')"
      by (auto split: prod.splits sum.splits exc.splits)
    note own = dispatch_Inr[OF d]
    have "q w1 = push_list (q w) [(worker_queue_key wid, dump (ingest_task c))]"
      using own by (intro redis_queues_rpush[OF assms(1)]) simp
    with Cons.IH[OF rest] own False show ?thesis
      by (simp add: limited_Cons push_list_append pipe_of_def owner_of_def ingest_task_def)
  qed
qed

lemma on_world_state: "on_world f (s, w) = (r, (s', w')) \<longleftrightarrow> s' = s \<and> f w = (r, w')"
  by (auto simp: on_world_def split: prod.splits)

lemma ingest_main_Inr:
  assumes "ingest_main api dump parsed limit (r0, w) = (Inr (n, b), (r, w'))"
  obtains w1 w2 ws where "sentinel_ping api w = (Inr True, w1)"
    and "refresh_ring api (r0, w1) = (Inr ws, (r, w2))" and "ws \<noteq> []"
    and "enqueue_loop api dump r limit (snd parsed) (fst parsed) 0 w2 = (Inr (n, b), w')"
proof -
  from assms obtain w1 s ws where "sentinel_ping api w = (Inr True, w1)"
    and "refresh_ring api (r0, w1) = (Inr ws, s)" and "ws \<noteq> []"
    and "on_world (enqueue_loop api dump (fst s) limit (snd parsed) (fst parsed) 0) s = (Inr (n, b), (r, w'))"
    by (auto simp: ingest_main_def bindE_Inr_iff on_world_state eff_simps split: if_splits)
  then show thesis using that[of w1 ws "snd s"] by (cases s) (simp add: on_world_state)
qed

lemma reads_keep_ping: "reads_keep api q \<Longrightarrow> sentinel_ping api w = (r, w') \<Longrightarrow> q w' = q w"
  by (auto simp: reads_keep_def sentinel_ping_def tryE_def eff_simps split: prod.splits sum.splits if_splits)

lemma reads_keep_refresh: "reads_keep api q \<Longrightarrow> refresh_ring api (r, w) = (x, (r', w')) \<Longrightarrow> q w' = q w"
  by (auto simp: reads_keep_def refresh_ring_cases list_workers_def bindE_def eff_simps
      split: prod.splits sum.splits)

lemma ingest_main_pushes:
  assumes "redis_queues api q" and "reads_keep api q"
    and "ingest_main api dump parsed limit (r0, w) = (Inr (n, False), (r, w'))"
  shows "n = length (limited limit 0 (fst parsed))"
    and "q w' = push_list (q w) (pipe_of (get_worker r) dump (map ingest_task (limited limit 0 (fst parsed))))"
    and "t \<in> set (map ingest_task (limited limit 0 (fst parsed))) \<Longrightarrow>
      \<exists>wid. get_worker r (routing_key t) = Inr (Some wid)"
proof -
  obtain w1 w2 ws where reads: "sentinel_ping api w = (Inr True, w1)" "refresh_ring api (r0, w1) = (Inr ws, (r, w2))"
    and loop: "enqueue_loop api dump r limit (snd parsed) (fst parsed) 0 w2 = (Inr (n, False), w')"
    by (rule ingest_main_Inr[OF assms(3)])
  have q: "q w2 = q w"
    using reads_keep_ping[OF assms(2) reads(1)] reads_keep_refresh[OF assms(2) reads(2)] by simp
  note pushes = enqueue_loop_pushes[OF assms(1) loop]
  show "n = length (limited limit 0 (fst parsed))" using pushes by simp
  show "q w' = push_list (q w) (pipe_of (get_worker r) dump (map ingest_task (limited limit 0 (fst parsed))))"
    using pushes q by simp
  show "\<exists>wid. get_worker r (routing_key t) = Inr (Some wid)"
    if "t \<in> set (map ingest_task (limited limit 0 (fst parsed)))"
    using pushes that by (auto simp: ingest_task_def)
qed

section \<open>Properties of the handler\<close>

text \<open>
  C23: An ingestion task that succeeds turns the clause table into exactly the specified one:
  each clause of the contract has a row under its id with its text and vector id, the text of
  an existing row is replaced, and no other row changes. The primary keys stay unique, the
  contract has a row with its file name, the result counts the clauses, and the embedder got
  the clause texts and the vector store one record per clause and vector.
\<close>

theorem ingest_stores_clauses:
  assumes "tables_ok (db_tables d)" and "distinct (map clause_id (clauses c))"
    and "handle_ingest_contract emb ups now (ingest_task c) (e, d) = (Inr out, (e', d'))"
  shows "out = (contract_id c, length (clauses c)) \<and> tables_ok (db_tables d')
    \<and> clause_view (db_tables d') = ingested now (contract_id c) (clauses c) (clause_view (db_tables d))
    \<and> (\<exists>r \<in> set (contract_rows (db_tables d')). ct_contract_id r = contract_id c \<and> ct_filename r = filename c)
    \<and> (clauses c = [] \<and> e' = e \<or> clauses c \<noteq> [] \<and> (\<exists>vs e1. emb (map clause_text (clauses c)) e = (Inr vs, e1)
           \<and> ups (map (contract_record (contract_id c)) (zip (clauses c) vs)) e1 = (Inr (), e')))"
proof -
  obtain d1 where d1: "db_tables d1 = upsert_contract (contract_id c) (filename c) now (db_tables d)"
    and out: "out = (contract_id c, length (clauses c))"
    and env: "clauses c = [] \<and> e' = e \<and> d' = d1
      \<or> clauses c \<noteq> [] \<and> (\<exists>vs e1. emb (map clause_text (clauses c)) e = (Inr vs, e1)
           \<and> ups (map (contract_record (contract_id c)) (zip (clauses c) vs)) e1 = (Inr (), e')
           \<and> db_tables d' = fold (insert_row (contract_id c) now) (clauses c) (db_tables d1))"
    by (rule handle_ingest_steps[OF assms(3)])
  have "contract_rows (db_tables d') = contract_rows (db_tables d1)" using env by auto
  then have "\<exists>r \<in> set (contract_rows (db_tables d')). ct_contract_id r = contract_id c \<and> ct_filename r = filename c"
    using upsert_contract_row[of "contract_id c" "filename c" now] d1 by simp
  with out env handle_ingest_any[OF assms(3,1,2)] show ?thesis by auto
qed

text \<open>A small contract, and an environment whose embedder and vector store always succeed.\<close>

definition demo_clause :: parsed_clause where
  "demo_clause = \<lparr>clause_id = ''i'', clause_contract = ''c'', clause_category = ''term'',
     clause_text = ''two years'', answer_start = None\<rparr>"

definition demo_contract :: parsed_contract where
  "demo_contract = \<lparr>contract_id = ''c'', filename = ''f'', clauses = [demo_clause]\<rparr>"

definition demo_second :: parsed_contract where
  "demo_second = \<lparr>contract_id = ''d'', filename = ''g'',
     clauses = [\<lparr>clause_id = ''j'', clause_contract = ''d'', clause_category = ''term'', clause_text = ''t'', answer_start = None\<rparr>]\<rparr>"

definition demo_embed :: "string list \<Rightarrow> (int vec_record list, int list list) eff" where
  "demo_embed ts e = (Inr (map (\<lambda>t. [int (length t)]) ts), e)"

definition demo_upsert :: "int vec_record list \<Rightarrow> (int vec_record list, unit) eff" where
  "demo_upsert rs e = (Inr (), e @ rs)"

definition empty_db :: "exc option list \<Rightarrow> db" where
  "empty_db faults = \<lparr>db_tables = \<lparr>clause_rows = [], contract_rows = []\<rparr>, db_faults = faults\<rparr>"

lemma empty_db_ok: "tables_ok (db_tables (empty_db fs))" "clause_view (db_tables (empty_db fs)) = Map.empty"
  by (simp_all add: empty_db_def tables_ok_def clause_view_def)

lemma demo_ids: "distinct (map clause_id (clauses demo_contract))"
  by (simp add: demo_contract_def)

definition demo_ingest :: "int \<Rightarrow> int vec_record list \<times> db \<Rightarrow> (exc + string \<times> nat) \<times> (int vec_record list \<times> db)" where
  "demo_ingest now = handle_ingest_contract demo_embed demo_upsert now (ingest_task demo_contract)"

definition demo_rec :: "int vec_record" where
  "demo_rec = contract_record ''c'' (demo_clause, [9])"

definition demo_db :: "int \<Rightarrow> db" where
  "demo_db now = \<lparr>db_tables =
     \<lparr>clause_rows = [stored_row ''c'' now demo_clause None],
      contract_rows = [\<lparr>ct_contract_id = ''c'', ct_filename = ''f'', ct_ingested_at = now\<rparr>]\<rparr>, db_faults = []\<rparr>"

lemma demo_ingest_run: "demo_ingest 7 ([], empty_db []) = (Inr (''c'', 1), ([demo_rec], demo_db 7))"
  by code_simp

theorem ingest_stores_clauses_witness:
  "clause_view (db_tables (demo_db 7)) (''c'', ''i'') = Some (stored_row ''c'' 7 demo_clause None)"
  using ingest_stores_clauses[OF empty_db_ok(1) demo_ids demo_ingest_run[unfolded demo_ingest_def]]
  by (simp add: empty_db_ok ingested_def demo_contract_def demo_clause_def)

text \<open>
  C25: A failed ingestion writes no clause row: whatever the payload, and wherever the exception
  comes from (the payload, the embedder, the vector store, a statement or the commit), the
  clause rows are the ones from before, and the contract row is either untouched or the new one.
\<close>

theorem ingest_failure_atomic:
  assumes "handle_ingest_contract emb ups now t (e, d) = (Inl x, (e', d'))"
  shows "clause_rows (db_tables d') = clause_rows (db_tables d)
    \<and> (contract_rows (db_tables d') = contract_rows (db_tables d)
       \<or> (\<exists>cid fn. db_tables d' = upsert_contract cid fn now (db_tables d)))"
  using handle_ingest_fails[OF assms] by auto

definition demo_faults :: "exc option list" where
  "demo_faults = [None, None, None, Some (LibError ''commit'')]"

definition demo_half :: db where
  "demo_half = \<lparr>db_tables = \<lparr>clause_rows = [],
      contract_rows = [\<lparr>ct_contract_id = ''c'', ct_filename = ''f'', ct_ingested_at = 7\<rparr>]\<rparr>, db_faults = []\<rparr>"

lemma demo_ingest_fails:
  "demo_ingest 7 ([], empty_db demo_faults) = (Inl (LibError ''commit''), ([demo_rec], demo_half))"
  by code_simp

theorem ingest_failure_atomic_witness:
  "clause_rows (db_tables demo_half) = clause_rows (db_tables (empty_db demo_faults)) \<and> demo_faults \<noteq> []"
  using ingest_failure_atomic[OF demo_ingest_fails[unfolded demo_ingest_def]] by (simp add: demo_faults_def)

text \<open>
  C24: A task can be retried: after a first attempt with any outcome, a second one that
  succeeds leaves the clause table that a single successful run would have left, up to
  nothing but its own time stamp. In particular no clause is stored twice.
\<close>

theorem ingest_retry:
  assumes "tables_ok (db_tables d)" and "distinct (map clause_id (clauses c))"
    and "handle_ingest_contract emb ups before (ingest_task c) (e, d) = (r, (e1, d1))"
    and "handle_ingest_contract emb ups now (ingest_task c) (e1, d1) = (Inr out, (e2, d2))"
  shows "clause_view (db_tables d2) = ingested now (contract_id c) (clauses c) (clause_view (db_tables d))
    \<and> tables_ok (db_tables d2)"
proof -
  note first = handle_ingest_any[OF assms(3,1,2)]
  then have "tables_ok (db_tables d1)" ..
  from handle_ingest_any[OF assms(4) this assms(2)] first show ?thesis
    by (cases r) (simp_all add: ingested_twice)
qed

theorem ingest_retry_witness:
  "clause_view (db_tables (demo_db 8)) = ingested 8 ''c'' [demo_clause] Map.empty"
proof -
  have second: "demo_ingest 8 ([demo_rec], demo_half) = (Inr (''c'', 1), ([demo_rec, demo_rec], demo_db 8))"
    by code_simp
  from ingest_retry[OF empty_db_ok(1) demo_ids demo_ingest_fails[unfolded demo_ingest_def]
      second[unfolded demo_ingest_def]]
  show ?thesis by (simp add: empty_db_ok demo_contract_def)
qed

section \<open>Properties of the driver\<close>

text \<open>
  A run of the driver that does not abort enqueues the tasks of the parsed contracts up to
  the limit (no limit, or a limit of 0, means all; a negative one means none): each of them
  has an owner on the refreshed ring, every worker's queue grows by the tasks of the contracts
  it owns in the order of the file, and the count returned is their number.
\<close>

lemma ingest_main_delivers:
  assumes "redis_queues api q" and "reads_keep api q"
    and "ingest_main api dump parsed limit (r0, w) = (Inr (n, False), (r, w'))"
  shows "let ts = map ingest_task (limited limit 0 (fst parsed)) in
    n = length ts
    \<and> (\<forall>t \<in> set ts. \<exists>wid. get_worker r (routing_key t) = Inr (Some wid))
    \<and> q w' (worker_queue_key v) =
        q w (worker_queue_key v) @ map dump (filter (\<lambda>t. get_worker r (routing_key t) = Inr (Some v)) ts)"
proof -
  let ?ts = "map ingest_task (limited limit 0 (fst parsed))"
  note pushes = ingest_main_pushes[OF assms]
  have "tasks_of (get_worker r) v ?ts = filter (\<lambda>t. get_worker r (routing_key t) = Inr (Some v)) ?ts"
    by (rule tasks_of_filter) (rule pushes(3))
  with pushes show ?thesis unfolding Let_def length_map by (simp only: push_list_pipe_of) blast
qed

definition contract_k :: parsed_contract where
  "contract_k = \<lparr>contract_id = ''k'', filename = ''f'', clauses = [demo_clause]\<rparr>"

lemma mem_reads_keep: "reads_keep mem_redis mem_list"
  by (simp add: reads_keep_def mem_redis_def)

lemma replace_ab: "replace_workers (ring_init 1) [''a'', ''b''] = ring_ab"
  by (simp add: replace_workers_eq_adds ring_ab_def)

lemma routing_key_contract_k: "routing_key (ingest_task contract_k) = ''k''"
  by (simp add: ingest_task_def contract_k_def)

lemma dispatch_contract_k:
  "dispatch mem_redis dump ring_ab (ingest_task contract_k) m
     = (Inr ''a'', mem_push (worker_queue_key ''a'') (dump (ingest_task contract_k)) m)"
proof -
  have own: "get_worker ring_ab (routing_key (ingest_task contract_k)) = Inr (Some ''a'')"
    by (simp add: routing_key_contract_k get_worker_ab)
  show ?thesis unfolding dispatch_cases[OF own list.distinct(2)] by simp
qed

lemma ingest_main_mem:
  "ingest_main mem_redis dump ([contract_k, contract_k], None) (Some 1) (ring_init 1, mem_ab)
     = (Inr (1, False), (ring_ab, mem_push (worker_queue_key ''a'') (dump (ingest_task contract_k)) mem_ab))"
proof -
  have "sentinel_ping mem_redis mem_ab = (Inr True, mem_ab)"
    by (simp add: sentinel_ping_def tryE_def mem_redis_def)
  then have "on_world (sentinel_ping mem_redis) (ring_init 1, mem_ab) = (Inr True, (ring_init 1, mem_ab))"
    by (simp add: on_world_state)
  moreover have "enqueue_loop mem_redis dump ring_ab (Some 1) None [contract_k, contract_k] 0 mem_ab
      = (Inr (1, False), mem_push (worker_queue_key ''a'') (dump (ingest_task contract_k)) mem_ab)"
    by (simp add: dispatch_contract_k limit_reached_def)
  ultimately show ?thesis
    using refresh_mem_ab[of "ring_init 1"]
    by (simp add: ingest_main_def bindE_Inr replace_ab on_world_def del: enqueue_loop.simps)
qed

lemma ingest_main_delivers_example:
  "mem_list (mem_push (worker_queue_key ''a'') (dump_task (ingest_task contract_k)) mem_ab) (worker_queue_key ''a'')
     = mem_list mem_ab (worker_queue_key ''a'') @ [dump_task (ingest_task contract_k)] \<and> limited (Some 1) 0 [contract_k, contract_k] = [contract_k]"
  using ingest_main_delivers[OF mem_redis_queues mem_reads_keep ingest_main_mem[of dump_task], of "''a''"]
  by (simp add: limited_def Let_def routing_key_contract_k get_worker_ab)

text \<open>
  The driver refuses to run without Redis or without live workers: it exits before any
  task is sent.
\<close>

lemma ingest_main_refuses:
  assumes "reads_keep api q" and "sentinel_ping api w = (Inr ok, w1)"
    and "ok \<longrightarrow> refresh_ring api (r, w1) = (Inr [], (r', w2))"
  shows "\<exists>m s. ingest_main api dump parsed limit (r, w) = (Inl (SystemExit m), s) \<and> q (snd s) = q w"
proof -
  have ping: "on_world (sentinel_ping api) (r, w) = (Inr ok, (r, w1))"
    using assms(2) by (simp add: on_world_state)
  have q1: "q w1 = q w" by (rule reads_keep_ping[OF assms(1,2)])
  show ?thesis
  proof (cases ok)
    case True
    with assms(3) have "refresh_ring api (r, w1) = (Inr [], (r', w2))" by simp
    with True ping q1 reads_keep_refresh[OF assms(1) this] show ?thesis
      by (simp add: ingest_main_def eff_simps bindE_Inr)
  next
    case False
    with ping q1 show ?thesis by (simp add: ingest_main_def eff_simps)
  qed
qed

lemma ingest_main_refuses_example:
  "\<exists>m s. ingest_main mem_redis routing_key ([contract_k], None) None (ring_init 1, mem_empty)
     = (Inl (SystemExit m), s) \<and> mem_list (snd s) = mem_list mem_empty"
proof -
  have 1: "sentinel_ping mem_redis mem_empty = (Inr True, mem_empty)" by code_simp
  have 2: "refresh_ring mem_redis (ring_init 1, mem_empty) = (Inr [], (replace_workers (ring_init 1) [], mem_empty))"
    by code_simp
  show ?thesis by (rule ingest_main_refuses[OF mem_reads_keep 1]) (simp add: 2)
qed

end
