(* ===== verification/Cluster.thy ===== *)
theory Cluster
  imports Ingest Worker "HOL-Library.Sublist" "HOL-Library.Multiset"
begin

text \<open>
  The processes of the system over one Redis server: dispatchers, each with its own ring, and
  worker processes, each with its own id. \<open>cl_step\<close> interleaves their operations, which are those
  of \<open>Dispatcher\<close>, \<open>Worker_Registry\<close> and \<open>Worker\<close>; a worker is idle or has one task in its
  hands (\<open>cl_busy\<close>), as the loop of \<open>Worker.run\<close> pops the next task only when the last one
  has been handled, while its heartbeat is a task of its own. A process may crash at any time, and
  \<open>env\<close> is what else changes in the world (time, expiry of keys, other clients). A step is one command of the server that succeeds, or one handler.

  The label of a step says what happened; a history is the list of labels of a run.
\<close>

datatype event =
    Dispatched "(string \<times> task) list"
  | Refreshed "string list"
  | Started string
  | Beaten string
  | Departed string
  | Taken string task
  | Handled string task
  | Crashed string "task option"
  | Elapsed

record 'w cluster =
  cl_world :: 'w
  cl_rings :: "nat \<Rightarrow> hash_ring"
  cl_up :: "string set"
  cl_busy :: "string \<rightharpoonup> task"

definition owned :: "hash_ring \<Rightarrow> task \<Rightarrow> string \<times> task" where
  "owned r t = (owner_of (get_worker r) (routing_key t), t)"

inductive cl_step ::
    "'w redis \<Rightarrow> (task \<Rightarrow> string) \<Rightarrow> (string \<Rightarrow> exc + task) \<Rightarrow> ('w \<Rightarrow> 'w \<Rightarrow> bool)
       \<Rightarrow> (string \<Rightarrow> 'w worker) \<Rightarrow> 'w cluster \<Rightarrow> event \<Rightarrow> 'w cluster \<Rightarrow> bool"
  for api dump validate env wk where
  step_dispatch:
    "dispatch api dump (cl_rings s i) t (cl_world s) = (Inr wid, w') \<Longrightarrow>
     cl_step api dump validate env wk s (Dispatched [(wid, t)]) (s\<lparr>cl_world := w'\<rparr>)"
| step_dispatch_many:
    "dispatch_many api dump (cl_rings s i) ts (cl_world s) = (Inr by_worker, w') \<Longrightarrow>
     cl_step api dump validate env wk s (Dispatched (map (owned (cl_rings s i)) ts)) (s\<lparr>cl_world := w'\<rparr>)"
| step_refresh:
    "refresh_ring api (cl_rings s i, cl_world s) = (Inr ws, (r', w')) \<Longrightarrow>
     cl_step api dump validate env wk s (Refreshed ws) (s\<lparr>cl_world := w', cl_rings := (cl_rings s)(i := r')\<rparr>)"
| step_start:
    "wid \<notin> cl_up s \<Longrightarrow> register api wid (cl_world s) = (Inr (), w') \<Longrightarrow>
     cl_step api dump validate env wk s (Started wid) (s\<lparr>cl_world := w', cl_up := insert wid (cl_up s)\<rparr>)"
| step_beat:
    "wid \<in> cl_up s \<Longrightarrow> heartbeat api wid (cl_world s) = (Inr (), w') \<Longrightarrow>
     cl_step api dump validate env wk s (Beaten wid) (s\<lparr>cl_world := w'\<rparr>)"
| step_depart:
    "wid \<in> cl_up s \<Longrightarrow> cl_busy s wid = None \<Longrightarrow> deregister api wid (cl_world s) = (Inr (), w') \<Longrightarrow>
     cl_step api dump validate env wk s (Departed wid) (s\<lparr>cl_world := w', cl_up := cl_up s - {wid}\<rparr>)"
| step_idle:
    "wid \<in> cl_up s \<Longrightarrow> cl_busy s wid = None \<Longrightarrow>
     task_pop api validate wid (cl_world s) = (Inr None, w') \<Longrightarrow>
     cl_step api dump validate env wk s Elapsed (s\<lparr>cl_world := w'\<rparr>)"
| step_take:
    "wid \<in> cl_up s \<Longrightarrow> cl_busy s wid = None \<Longrightarrow>
     task_pop api validate wid (cl_world s) = (Inr (Some t), w') \<Longrightarrow>
     cl_step api dump validate env wk s (Taken wid t) (s\<lparr>cl_world := w', cl_busy := (cl_busy s)(wid := Some t)\<rparr>)"
| step_handle:
    "wid \<in> cl_up s \<Longrightarrow> cl_busy s wid = Some t \<Longrightarrow> handle (wk wid) t (cl_world s) = (Inr (), w') \<Longrightarrow>
     cl_step api dump validate env wk s (Handled wid t) (s\<lparr>cl_world := w', cl_busy := (cl_busy s)(wid := None)\<rparr>)"
| step_abort:
    "wid \<in> cl_up s \<Longrightarrow> cl_busy s wid = Some t \<Longrightarrow> handle (wk wid) t (cl_world s) = (Inl e, w') \<Longrightarrow>
     cl_step api dump validate env wk s (Crashed wid (Some t))
       (s\<lparr>cl_world := w', cl_up := cl_up s - {wid}, cl_busy := (cl_busy s)(wid := None)\<rparr>)"
| step_crash:
    "wid \<in> cl_up s \<Longrightarrow>
     cl_step api dump validate env wk s (Crashed wid (cl_busy s wid))
       (s\<lparr>cl_up := cl_up s - {wid}, cl_busy := (cl_busy s)(wid := None)\<rparr>)"
| step_elapse:
    "env (cl_world s) w' \<Longrightarrow>
     cl_step api dump validate env wk s Elapsed (s\<lparr>cl_world := w'\<rparr>)"

inductive cl_run ::
    "'w redis \<Rightarrow> (task \<Rightarrow> string) \<Rightarrow> (string \<Rightarrow> exc + task) \<Rightarrow> ('w \<Rightarrow> 'w \<Rightarrow> bool)
       \<Rightarrow> (string \<Rightarrow> 'w worker) \<Rightarrow> 'w cluster \<Rightarrow> event list \<Rightarrow> 'w cluster \<Rightarrow> bool"
  for api dump validate env wk where
  run_refl: "cl_run api dump validate env wk s [] s"
| run_step: "cl_run api dump validate env wk s es s1 \<Longrightarrow> cl_step api dump validate env wk s1 e s2 \<Longrightarrow>
     cl_run api dump validate env wk s (es @ [e]) s2"

section \<open>What a history says of a worker\<close>

fun sends :: "event \<Rightarrow> (string \<times> task) list" where
  "sends (Dispatched ps) = ps"
| "sends _ = []"

fun takes :: "event \<Rightarrow> (string \<times> task) list" where
  "takes (Taken wid t) = [(wid, t)]"
| "takes _ = []"

fun finishes :: "event \<Rightarrow> (string \<times> task) list" where
  "finishes (Handled wid t) = [(wid, t)]"
| "finishes _ = []"

fun drops :: "event \<Rightarrow> (string \<times> task) list" where
  "drops (Crashed wid (Some t)) = [(wid, t)]"
| "drops _ = []"

definition of_worker :: "string \<Rightarrow> (string \<times> task) list \<Rightarrow> task list" where
  "of_worker wid ps = map snd (filter (\<lambda>p. fst p = wid) ps)"

lemma of_worker_simps [simp]:
  "of_worker wid [] = []"
  "of_worker wid (p # ps) = (if fst p = wid then [snd p] else []) @ of_worker wid ps"
  "of_worker wid (ps @ qs) = of_worker wid ps @ of_worker wid qs"
  by (simp_all add: of_worker_def)

definition sent_to :: "string \<Rightarrow> event list \<Rightarrow> task list" where
  "sent_to wid es = of_worker wid (concat (map sends es))"

definition taken_by :: "string \<Rightarrow> event list \<Rightarrow> task list" where
  "taken_by wid es = of_worker wid (concat (map takes es))"

definition handled_by :: "string \<Rightarrow> event list \<Rightarrow> task list" where
  "handled_by wid es = of_worker wid (concat (map finishes es))"

definition lost_by :: "string \<Rightarrow> event list \<Rightarrow> task list" where
  "lost_by wid es = of_worker wid (concat (map drops es))"

definition in_hand :: "'w cluster \<Rightarrow> string \<Rightarrow> task list" where
  "in_hand s wid = (case cl_busy s wid of None \<Rightarrow> [] | Some t \<Rightarrow> [t])"

lemmas history_defs = sent_to_def taken_by_def handled_by_def lost_by_def

lemma history_snoc:
  "sent_to wid (es @ [e]) = sent_to wid es @ of_worker wid (sends e)"
  "taken_by wid (es @ [e]) = taken_by wid es @ of_worker wid (takes e)"
  "handled_by wid (es @ [e]) = handled_by wid es @ of_worker wid (finishes e)"
  "lost_by wid (es @ [e]) = lost_by wid es @ of_worker wid (drops e)"
  by (simp_all add: history_defs)

text \<open>
  The commands on keys, the handlers and the environment leave the task queues alone: the
  heartbeat keys have a prefix of their own.
\<close>

definition keys_apart :: "'w redis \<Rightarrow> ('w \<Rightarrow> string \<Rightarrow> string list) \<Rightarrow> bool" where
  "keys_apart api q \<longleftrightarrow>
     (\<forall>i v t w r w'. rd_set_ex api (hb_key i) v t w = (r, w') \<longrightarrow> q w' = q w)
   \<and> (\<forall>i w r w'. rd_delete api (hb_key i) w = (r, w') \<longrightarrow> q w' = q w)
   \<and> (\<forall>c m w r w'. rd_publish api c m w = (r, w') \<longrightarrow> q w' = q w)
   \<and> reads_keep api q"

definition quiet :: "('w \<Rightarrow> 'w \<Rightarrow> bool) \<Rightarrow> ('w \<Rightarrow> string \<Rightarrow> string list) \<Rightarrow> (string \<Rightarrow> 'w worker) \<Rightarrow> bool" where
  "quiet env q wk \<longleftrightarrow> (\<forall>w w'. env w w' \<longrightarrow> q w' = q w)
     \<and> (\<forall>i t w r w'. handle (wk i) t w = (r, w') \<longrightarrow> q w' = q w)"

lemma keys_apart_register: "keys_apart api q \<Longrightarrow> register api wid w = (Inr (), w') \<Longrightarrow> q w' = q w"
  by (auto simp: register_def bindE_Inr_iff keys_apart_def)

lemma keys_apart_heartbeat: "keys_apart api q \<Longrightarrow> heartbeat api wid w = (Inr (), w') \<Longrightarrow> q w' = q w"
  by (auto simp: heartbeat_def keys_apart_def)

lemma keys_apart_deregister: "keys_apart api q \<Longrightarrow> deregister api wid w = (Inr (), w') \<Longrightarrow> q w' = q w"
  by (auto simp: deregister_def bindE_Inr_iff keys_apart_def)

lemma keys_apart_refresh:
  "keys_apart api q \<Longrightarrow> refresh_ring api (r, w) = (x, (r', w')) \<Longrightarrow> q w' = q w"
  by (rule reads_keep_refresh) (simp_all add: keys_apart_def)

lemmas keys_apart_laws = keys_apart_register keys_apart_heartbeat keys_apart_deregister keys_apart_refresh

section \<open>The effect of a step on a queue\<close>

lemma dispatch_pushes:
  assumes "redis_queues api q" "dispatch api dump r t w = (Inr wid, w')"
  shows "q w' = push_list (q w) [(worker_queue_key wid, dump t)]"
proof -
  have owner: "get_worker r (routing_key t) = Inr (Some wid)" "wid \<noteq> []"
    using assms(2) by (auto simp: dispatch_def bindE_def eff_simps
        split: prod.splits sum.splits option.splits if_splits)
  then have "rd_rpush api (worker_queue_key wid) (dump t) w = (Inr (), w')"
    using assms(2) by (auto simp: dispatch_cases[OF owner] split: prod.splits sum.splits)
  then show ?thesis by (rule redis_queues_rpush[OF assms(1)])
qed

lemma plan_tasks_pipe:
  "plan_tasks route dump ts d pipe = Inr (d', pipe') \<Longrightarrow> pipe' = pipe @ pipe_of route dump ts"
  by (induction route dump ts d pipe rule: plan_tasks.induct)
    (auto simp: pipe_of_def owner_of_def split: sum.splits option.splits if_splits)

lemma dispatch_many_pushes:
  assumes "redis_queues api q" "dispatch_many api dump r ts w = (Inr d, w')"
  shows "q w' = push_list (q w) (pipe_of (get_worker r) dump ts)"
proof -
  obtain d' pipe where plan: "plan_tasks (get_worker r) dump ts [] [] = Inr (d', pipe)"
    and "rd_rpush_pipeline api pipe w = (Inr (), w')"
    using assms(2) by (auto simp: dispatch_many_cases split: sum.splits prod.splits)
  with plan_tasks_pipe[OF plan] redis_queues_pipeline[OF assms(1)] show ?thesis by simp
qed

lemma of_worker_owned: "of_worker wid (map (owned r) ts) = tasks_of (get_worker r) wid ts"
  by (induction ts) (simp_all add: owned_def tasks_of_def)

lemma step_queue:
  assumes "redis_queues api q" "keys_apart api q" "quiet env q wk"
    and "cl_step api dump validate env wk s e s'"
  shows "\<exists>ps. q (cl_world s) (worker_queue_key wid) @ map dump (of_worker wid (sends e))
      = ps @ q (cl_world s') (worker_queue_key wid) \<and> map validate ps = map Inr (of_worker wid (takes e))"
  using assms(4)
proof cases
  case (step_dispatch i t v w')
  with dispatch_pushes[OF assms(1) step_dispatch(3)] show ?thesis
    by (intro exI[of _ "[]"]) (simp add: push_list_def)
next
  case (step_dispatch_many i ts d w')
  with dispatch_many_pushes[OF assms(1) step_dispatch_many(3)] show ?thesis
    by (intro exI[of _ "[]"]) (simp add: push_list_pipe_of of_worker_owned)
next
  case (step_idle v w')
  with redis_queues_blpop_None[OF assms(1)] show ?thesis
    by (intro exI[of _ "[]"]) (simp add: task_pop_None)
next
  case (step_take v t w')
  then obtain k p where pop: "rd_blpop api (worker_queue_key v) (cl_world s) = (Inr (Some (k, p)), w')"
    and p: "validate p = Inr t" by (auto simp: task_pop_Some)
  note laws = redis_queues_blpop_Some[OF assms(1) pop]
  show ?thesis
  proof (cases "v = wid")
    case True
    with step_take p laws(2) show ?thesis by (intro exI[of _ "[p]"]) simp
  next
    case False
    with step_take laws(3)[of "worker_queue_key wid"] show ?thesis by (intro exI[of _ "[]"]) simp
  qed
next
  case (step_handle v t w')
  with assms(3) show ?thesis unfolding quiet_def by (intro exI[of _ "[]"]) simp
next
  case (step_abort v t x w')
  with assms(3) show ?thesis unfolding quiet_def by (intro exI[of _ "[]"]) simp
next
  case (step_elapse w')
  with assms(3) show ?thesis unfolding quiet_def by (intro exI[of _ "[]"]) simp
qed (auto dest: keys_apart_laws[OF assms(2)])

lemma run_queue:
  assumes "redis_queues api q" "keys_apart api q" "quiet env q wk"
    and "cl_run api dump validate env wk s es s'"
  shows "\<exists>ps. q (cl_world s) (worker_queue_key wid) @ map dump (sent_to wid es)
      = ps @ q (cl_world s') (worker_queue_key wid) \<and> map validate ps = map Inr (taken_by wid es)"
  using assms(4)
proof (induction rule: cl_run.induct)
  case (run_refl s)
  then show ?case by (simp add: history_defs)
next
  case (run_step s es s1 e s2)
  let ?k = "worker_queue_key wid"
  obtain ps where ps: "q (cl_world s) ?k @ map dump (sent_to wid es) = ps @ q (cl_world s1) ?k"
    "map validate ps = map Inr (taken_by wid es)" using run_step.IH by blast
  obtain qs where qs: "q (cl_world s1) ?k @ map dump (of_worker wid (sends e)) = qs @ q (cl_world s2) ?k"
    "map validate qs = map Inr (of_worker wid (takes e))" using step_queue[OF assms(1-3) run_step.hyps(2)] by blast
  have "q (cl_world s) ?k @ map dump (sent_to wid (es @ [e]))
      = (q (cl_world s) ?k @ map dump (sent_to wid es)) @ map dump (of_worker wid (sends e))"
    by (simp add: history_defs)
  also have "\<dots> = ps @ (q (cl_world s1) ?k @ map dump (of_worker wid (sends e)))" unfolding ps(1) by simp
  also have "\<dots> = (ps @ qs) @ q (cl_world s2) ?k" unfolding qs(1) by simp
  finally show ?case using ps(2) qs(2)
    by (intro exI[of _ "ps @ qs"]) (simp add: history_defs)
qed

lemma run_queue_tasks:
  assumes "redis_queues api q" "keys_apart api q" "quiet env q wk" "codec_ok dump validate"
    and "cl_run api dump validate env wk s es s'" "q (cl_world s) (worker_queue_key wid) = []"
    and "\<And>t. t \<in> set (sent_to wid es) \<Longrightarrow> json_ok (JObj (payload t))"
  obtains ts where "q (cl_world s') (worker_queue_key wid) = map dump ts" "sent_to wid es = taken_by wid es @ ts"
proof -
  obtain ps where ps: "map dump (sent_to wid es) = ps @ q (cl_world s') (worker_queue_key wid)"
    "map validate ps = map Inr (taken_by wid es)"
    using run_queue[OF assms(1-3,5), of wid] assms(6) by auto
  obtain us ts where ut: "sent_to wid es = us @ ts" "map dump us = ps" "map dump ts = q (cl_world s') (worker_queue_key wid)"
    using ps(1) by (metis map_eq_append_conv)
  have "map validate (map dump us) = map Inr us"
    using assms(4,7) ut(1) by (simp add: codec_ok_def del: json_ok.simps)
  with ps(2) ut(2) have "map Inr us = map (Inr :: task \<Rightarrow> exc + task) (taken_by wid es)" by simp
  then have "us = taken_by wid es" by (simp add: inj_map_eq_map)
  with ut that show thesis by metis
qed

section \<open>What becomes of a popped task\<close>

lemma step_hand:
  assumes "cl_step api dump validate env wk s e s'"
  shows "mset (in_hand s wid) + mset (of_worker wid (takes e))
      = mset (of_worker wid (finishes e)) + mset (of_worker wid (drops e)) + mset (in_hand s' wid)
    \<and> subseq (of_worker wid (finishes e) @ in_hand s' wid) (in_hand s wid @ of_worker wid (takes e))"
  using assms by cases (auto simp: in_hand_def split: option.splits)

lemma run_hand:
  assumes "cl_run api dump validate env wk s es s'" "cl_busy s wid = None"
  shows "mset (taken_by wid es) = mset (handled_by wid es) + mset (lost_by wid es) + mset (in_hand s' wid)
    \<and> subseq (handled_by wid es @ in_hand s' wid) (taken_by wid es)"
  using assms
proof (induction rule: cl_run.induct)
  case (run_refl s)
  then show ?case by (simp add: history_defs in_hand_def)
next
  case (run_step s es s1 e s2)
  note h = step_hand[OF run_step.hyps(2), of wid]
  have "subseq (handled_by wid es @ (of_worker wid (finishes e) @ in_hand s2 wid)) (handled_by wid es @ (in_hand s1 wid @ of_worker wid (takes e)))"
    using h by (intro list_emb_append_mono[OF subseq_order.order_refl]) simp
  moreover have "subseq ((handled_by wid es @ in_hand s1 wid) @ of_worker wid (takes e)) (taken_by wid es @ of_worker wid (takes e))"
    using run_step.IH[OF run_step.prems] by (intro list_emb_append_mono[OF _ subseq_order.order_refl]) simp
  ultimately have "subseq (handled_by wid (es @ [e]) @ in_hand s2 wid) (taken_by wid (es @ [e]))"
    by (metis append_assoc history_snoc subseq_order.order_trans)
  moreover have "mset (taken_by wid (es @ [e])) = mset (taken_by wid es) + mset (of_worker wid (takes e))"
    by (simp add: history_defs)
  ultimately show ?case using h run_step.IH[OF run_step.prems]
    by (auto simp: history_snoc ac_simps)
qed

lemma run_down:
  "cl_run api dump validate env wk s es s' \<Longrightarrow> wid \<notin> cl_up s \<Longrightarrow> Started wid \<notin> set es \<Longrightarrow>
     wid \<notin> cl_up s' \<and> taken_by wid es = [] \<and> handled_by wid es = []"
proof (induction rule: cl_run.induct)
  case (run_refl s)
  then show ?case by (simp add: history_defs)
next
  case (run_step s es s1 e s2)
  then have "wid \<notin> cl_up s1" "taken_by wid es = []" "handled_by wid es = []" "e \<noteq> Started wid" by auto
  with run_step.hyps(2) show ?case by cases (auto simp: history_defs)
qed

section \<open>Properties\<close>

text \<open>
  C8: No interleaving of dispatchers, workers, crashes and membership changes duplicates,
  reorders or misplaces a task: each task ever dispatched to a worker is in exactly one place,
  handled by that worker, lost with a crash of it while it was being handled, in its hands, or
  still in its queue; and what has been handled, is in hand and is queued follows the order of
  dispatch.
\<close>

theorem tasks_conserved:
  assumes "redis_queues api q" and "keys_apart api q" and "quiet env q wk" and "codec_ok dump validate"
    and "cl_run api dump validate env wk s es s'"
    and "q (cl_world s) (worker_queue_key wid) = []" and "cl_busy s wid = None"
    and "\<And>t. t \<in> set (sent_to wid es) \<Longrightarrow> json_ok (JObj (payload t))"
  shows "\<exists>ts. q (cl_world s') (worker_queue_key wid) = map dump ts
    \<and> mset (sent_to wid es) = mset (handled_by wid es) + mset (lost_by wid es) + mset (in_hand s' wid) + mset ts
    \<and> subseq (handled_by wid es @ in_hand s' wid @ ts) (sent_to wid es)"
proof -
  obtain ts where ts: "q (cl_world s') (worker_queue_key wid) = map dump ts" "sent_to wid es = taken_by wid es @ ts"
    by (rule run_queue_tasks[OF assms(1-6,8)])
  have "subseq ((handled_by wid es @ in_hand s' wid) @ ts) (taken_by wid es @ ts)"
    using run_hand[OF assms(5,7)] by (intro list_emb_append_mono[OF _ subseq_order.order_refl]) simp
  with ts run_hand[OF assms(5,7)] show ?thesis by auto
qed

definition mem_cluster :: "mem \<Rightarrow> string set \<Rightarrow> (string \<rightharpoonup> task) \<Rightarrow> mem cluster" where
  "mem_cluster m up busy = \<lparr>cl_world = m, cl_rings = (\<lambda>i. ring_ab), cl_up = up, cl_busy = busy\<rparr>"

lemma mem_cluster_simps [simp]:
  "cl_world (mem_cluster m up busy) = m" "cl_rings (mem_cluster m up busy) = (\<lambda>i. ring_ab)"
  "cl_up (mem_cluster m up busy) = up" "cl_busy (mem_cluster m up busy) = busy"
  by (simp_all add: mem_cluster_def)

lemma mem_cluster_update [simp]:
  "mem_cluster m up busy\<lparr>cl_world := m'\<rparr> = mem_cluster m' up busy"
  "mem_cluster m up busy\<lparr>cl_up := up'\<rparr> = mem_cluster m up' busy"
  "mem_cluster m up busy\<lparr>cl_busy := busy'\<rparr> = mem_cluster m up busy'"
  by (simp_all add: mem_cluster_def)

lemma mem_keys_apart: "keys_apart mem_redis mem_list"
  by (simp add: keys_apart_def mem_reads_keep) (auto simp: mem_list_def)

definition worker_named :: "string \<Rightarrow> mem worker" where
  "worker_named i = make_worker i None None"

lemma quiet_worker_named: "quiet (=) mem_list worker_named"
  by (auto simp: quiet_def handle_def worker_named_def make_worker_def dict_get_def retE_def)

abbreviation mem_run_of :: "mem cluster \<Rightarrow> event list \<Rightarrow> mem cluster \<Rightarrow> bool" where
  "mem_run_of \<equiv> cl_run mem_redis dump_task validate_task (=) worker_named"

lemma validate_dump_k: "validate_task (dump_task task_k) = Inr task_k"
  using codec_ok_json unfolding codec_ok_def by (simp add: task_k_def dict_ok_def)

lemma mem_dispatch_k:
  "mem_run_of (mem_cluster mem_ab up busy) [Dispatched [(''a'', task_k)]]
     (mem_cluster (mem_push (worker_queue_key ''a'') (dump_task task_k) mem_ab) up busy)"
proof -
  have "dispatch mem_redis dump_task ring_ab task_k mem_ab
      = (Inr ''a'', mem_push (worker_queue_key ''a'') (dump_task task_k) mem_ab)"
    unfolding dispatch_cases[OF owner_k list.distinct(2)] by simp
  then have "cl_step mem_redis dump_task validate_task (=) worker_named (mem_cluster mem_ab up busy)
      (Dispatched [(''a'', task_k)]) (mem_cluster (mem_push (worker_queue_key ''a'') (dump_task task_k) mem_ab) up busy)"
    using step_dispatch[where s = "mem_cluster mem_ab up busy" and i = 0] by fastforce
  from run_step[OF run_refl this] show ?thesis by simp
qed

lemma mem_list_ab [simp]: "mem_list mem_ab k = []"
  by (simp add: mem_list_def mem_ab_def mem_empty_def dict_simps)

definition mem_popped_k :: mem where
  "mem_popped_k = (let m = mem_push (worker_queue_key ''a'') (dump_task task_k) mem_ab in
     m\<lparr>mem_lists := dict_set (mem_lists m) (worker_queue_key ''a'') []\<rparr>)"

lemma mem_list_popped_k: "mem_list mem_popped_k (worker_queue_key ''a'') = []"
  by (simp add: mem_popped_k_def Let_def mem_list_def dict_simps)

lemma mem_crash_run:
  "mem_run_of (mem_cluster mem_ab {''a''} Map.empty)
     ([Dispatched [(''a'', task_k)]] @ [Taken ''a'' task_k] @ [Crashed ''a'' (Some task_k)])
     (mem_cluster mem_popped_k {} (Map.empty(''a'' := None)))"
proof -
  let ?m = "mem_push (worker_queue_key ''a'') (dump_task task_k) mem_ab"
  have "task_pop mem_redis validate_task ''a'' ?m = (Inr (Some task_k), mem_popped_k)"
    by (simp add: task_pop_Some mem_list_push push_list_def validate_dump_k mem_popped_k_def Let_def)
  then have "cl_step mem_redis dump_task validate_task (=) worker_named (mem_cluster ?m {''a''} Map.empty)
      (Taken ''a'' task_k) (mem_cluster mem_popped_k {''a''} [''a'' \<mapsto> task_k])"
    using step_take[where s = "mem_cluster ?m {''a''} Map.empty" and wid = "''a''"]
    by fastforce
  moreover have "cl_step mem_redis dump_task validate_task (=) worker_named
      (mem_cluster mem_popped_k {''a''} [''a'' \<mapsto> task_k]) (Crashed ''a'' (Some task_k))
      (mem_cluster mem_popped_k {} (Map.empty(''a'' := None)))"
    using step_crash[where s = "mem_cluster mem_popped_k {''a''} [''a'' \<mapsto> task_k]" and wid = "''a''"]
    by fastforce
  ultimately show ?thesis
    using run_step[OF run_step[OF mem_dispatch_k]] by (metis append_assoc)
qed

theorem tasks_conserved_witness:
  "mset [task_k] = mset (lost_by ''a'' [Dispatched [(''a'', task_k)], Taken ''a'' task_k, Crashed ''a'' (Some task_k)])
   \<and> mem_list mem_popped_k (worker_queue_key ''a'') = []"
proof -
  have "json_ok (JObj (payload t))"
    if "t \<in> set (sent_to ''a'' ([Dispatched [(''a'', task_k)]] @ [Taken ''a'' task_k] @ [Crashed ''a'' (Some task_k)]))" for t
    using that by (simp add: history_defs task_k_def dict_ok_def)
  from tasks_conserved[OF mem_redis_queues mem_keys_apart quiet_worker_named codec_ok_json mem_crash_run _ _ this]
  show ?thesis by (auto simp: history_defs in_hand_def mem_list_popped_k)
qed

text \<open>
  C9: A task in the queue of a worker that is gone stays there: as long as no process with that
  id starts, nobody takes from the queue, whatever the other processes do; the queue only grows
  by what is still dispatched to it. Neither the monitor nor the registry re-dispatches.
\<close>

theorem orphaned_tasks_stay:
  assumes "redis_queues api q" and "keys_apart api q" and "quiet env q wk"
    and "cl_run api dump validate env wk s es s'"
    and "wid \<notin> cl_up s" and "Started wid \<notin> set es"
  shows "q (cl_world s') (worker_queue_key wid) = q (cl_world s) (worker_queue_key wid) @ map dump (sent_to wid es)
    \<and> handled_by wid es = []"
  using run_queue[OF assms(1-4), of wid] run_down[OF assms(4-6)] by auto

theorem orphaned_tasks_stay_witness:
  "mem_list (mem_push (worker_queue_key ''a'') (dump_task task_k) mem_ab) (worker_queue_key ''a'') = [dump_task task_k]"
  using orphaned_tasks_stay[OF mem_redis_queues mem_keys_apart quiet_worker_named mem_dispatch_k[of "{}"], of "''a''"]
  by (simp add: history_defs)

end
