(* ===== verification/Ingest_Service.thy ===== *)
theory Ingest_Service
  imports Ingest
begin

text \<open>
  The ingestion worker as a process: \<open>main\<close> of \<open>scripts/ingest_worker.py\<close> registers the
  handler of \<open>Ingest\<close> in a worker and runs it, and the embedder and the vector store are
  created on first use and kept.

  The world of the process is the pair of the Redis server and the services of the handler
  (the embedder and the vector store, and the database); \<open>lift_redis\<close> lets the client work on
  its component. \<open>clock\<close> reads the time of an ingestion.
\<close>

section \<open>Lazily created services\<close>

record services =
  sv_embedder :: "embedder_kind option"
  sv_store :: "store_kind option"

definition get_embedder :: "settings \<Rightarrow> services \<Rightarrow> embedder_kind \<times> services" where
  "get_embedder s g = (case sv_embedder g of
      None \<Rightarrow> let e = make_embedder s in (e, g\<lparr>sv_embedder := Some e\<rparr>)
    | Some e \<Rightarrow> (e, g))"

definition get_store :: "settings \<Rightarrow> services \<Rightarrow> store_kind \<times> services" where
  "get_store s g = (case sv_store g of
      None \<Rightarrow> (case get_embedder s g of (emb, g') \<Rightarrow>
          let v = make_vector_store s (dimension_of emb) in (v, g'\<lparr>sv_store := Some v\<rparr>))
    | Some v \<Rightarrow> (v, g))"

definition store_dimension :: "store_kind \<Rightarrow> nat" where
  "store_dimension v = (case v of Pinecone_Index _ n \<Rightarrow> n | Local_Numpy_Index _ n \<Rightarrow> n)"

text \<open>The store is made for the vectors of the embedder, in whatever order the two are asked for.\<close>

definition services_ok :: "settings \<Rightarrow> services \<Rightarrow> bool" where
  "services_ok s g \<longleftrightarrow> (\<forall>e. sv_embedder g = Some e \<longrightarrow> e = make_embedder s)
     \<and> (\<forall>v. sv_store g = Some v \<longrightarrow> v = make_vector_store s (dimension_of (make_embedder s)))"

lemma get_embedder_ok:
  "services_ok s g \<Longrightarrow> get_embedder s g = (make_embedder s, g\<lparr>sv_embedder := Some (make_embedder s)\<rparr>)"
  by (cases g) (auto simp: get_embedder_def services_ok_def Let_def split: option.splits)

lemma get_store_ok:
  "services_ok s g \<Longrightarrow> get_store s g = (v, g') \<Longrightarrow>
     v = make_vector_store s (dimension_of (make_embedder s)) \<and> services_ok s g'"
  by (auto simp: get_store_def get_embedder_ok Let_def split: option.splits) (auto simp: services_ok_def)

lemma store_fits_embedder:
  "services_ok s g \<Longrightarrow> store_dimension (fst (get_store s g)) = dimension_of (fst (get_embedder s g))"
  using get_store_ok[of s g "fst (get_store s g)" "snd (get_store s g)"]
  by (simp add: get_embedder_ok store_dimension_def make_vector_store_def)

section \<open>The process\<close>

definition on_left :: "('w, 'a) eff \<Rightarrow> ('w \<times> 's, 'a) eff" where
  "on_left f p = (case f (fst p) of (r, w) \<Rightarrow> (r, (w, snd p)))"

definition on_right :: "('s, 'a) eff \<Rightarrow> ('w \<times> 's, 'a) eff" where
  "on_right f p = (case f (snd p) of (r, s) \<Rightarrow> (r, (fst p, s)))"

definition lift_redis :: "'w redis \<Rightarrow> ('w \<times> 's) redis" where
  "lift_redis api =
    \<lparr>rd_ping = on_left (rd_ping api),
     rd_set_ex = (\<lambda>k v t. on_left (rd_set_ex api k v t)),
     rd_delete = (\<lambda>k. on_left (rd_delete api k)),
     rd_scan = (\<lambda>p. on_left (rd_scan api p)),
     rd_publish = (\<lambda>c m. on_left (rd_publish api c m)),
     rd_rpush = (\<lambda>k v. on_left (rd_rpush api k v)),
     rd_rpush_pipeline = (\<lambda>ops. on_left (rd_rpush_pipeline api ops)),
     rd_blpop = (\<lambda>k. on_left (rd_blpop api k)),
     rd_llen = (\<lambda>k. on_left (rd_llen api k))\<rparr>"

definition ingest_handler ::
    "(string list \<Rightarrow> ('e, 'n list list) eff) \<Rightarrow> ('n vec_record list \<Rightarrow> ('e, unit) eff)
       \<Rightarrow> ('e \<times> db \<Rightarrow> int) \<Rightarrow> ('w \<times> ('e \<times> db)) task_handler" where
  "ingest_handler emb ups clock t =
     on_right (bindE (\<lambda>s. handle_ingest_contract emb ups (clock s) t s)
       (\<lambda>(cid, n). retE (JObj [(''contract_id'', JStr cid), (''n_clauses'', JInt (int n))])))"

definition ingest_worker ::
    "string \<Rightarrow> (string list \<Rightarrow> ('e, 'n list list) eff) \<Rightarrow> ('n vec_record list \<Rightarrow> ('e, unit) eff)
       \<Rightarrow> ('e \<times> db \<Rightarrow> int) \<Rightarrow> ('w \<times> ('e \<times> db)) worker" where
  "ingest_worker default_id emb ups clock =
     register_handler (make_worker default_id None None) ''ingest_contract'' (ingest_handler emb ups clock)"

definition ingest_worker_main ::
    "'w redis \<Rightarrow> (string \<Rightarrow> exc + task) \<Rightarrow> ('w \<times> ('e \<times> db) \<Rightarrow> bool) \<Rightarrow> ('w \<times> ('e \<times> db) \<Rightarrow> hb_status)
       \<Rightarrow> string \<Rightarrow> (string list \<Rightarrow> ('e, 'n list list) eff) \<Rightarrow> ('n vec_record list \<Rightarrow> ('e, unit) eff)
       \<Rightarrow> ('e \<times> db \<Rightarrow> int) \<Rightarrow> 'w \<times> ('e \<times> db) \<Rightarrow> ((exc + unit) \<times> ('w \<times> ('e \<times> db))) option" where
  "ingest_worker_main api validate stop hb default_id emb ups clock =
     worker_run (lift_redis api) validate stop hb (ingest_worker default_id emb ups clock)"

section \<open>Ingestion that cannot fail\<close>

text \<open>
  Services that do not fail: the embedder always returns, and the store takes the
  vectors that the embedder has made.
\<close>

definition unfailing ::
    "(string list \<Rightarrow> ('e, 'n list list) eff) \<Rightarrow> ('n vec_record list \<Rightarrow> ('e, unit) eff) \<Rightarrow> bool" where
  "unfailing emb ups \<longleftrightarrow> (\<forall>ts e. \<exists>vs e1. emb ts e = (Inr vs, e1)
     \<and> (\<forall>rs. rec_values ` set rs \<subseteq> set vs \<longrightarrow> (\<exists>e2. ups rs e1 = (Inr (), e2))))"

lemma db_call_no_fault:
  "db_faults d = [] \<Longrightarrow> db_call f d = (Inr (fst (f (db_tables d))), d\<lparr>db_tables := snd (f (db_tables d))\<rparr>)"
  by (simp add: db_call_def split: prod.splits)

lemma session_no_fault:
  "body d = (Inr a, d') \<Longrightarrow> db_faults d' = [] \<Longrightarrow> session body d = (Inr a, d')"
  by (simp add: session_def bindE_def db_call_no_fault retE_apply)

lemma insert_clauses_no_fault:
  "db_faults d = [] \<Longrightarrow>
     forE (map clause_json cs) (insert_clause cid now) d
       = (Inr (), d\<lparr>db_tables := fold (insert_row cid now) cs (db_tables d)\<rparr>)"
  by (induction cs arbitrary: d)
    (simp_all add: insert_clause_def clause_json_fields bindE_def liftE_apply db_call_no_fault insert_row_def)

lemma contract_records_values: "rec_values ` set (map (contract_record cid) (zip cs vs)) \<subseteq> set vs"
  by (auto simp: contract_record_def dest: set_zip_rightD)

lemma ingest_clauses_succeeds:
  assumes "unfailing emb ups" "db_faults d = []"
  shows "\<exists>e' d'. ingest_clauses emb ups now cid (map clause_json cs) (e, d) = (Inr (), (e', d')) \<and> db_faults d' = []"
proof -
  obtain vs e1 where emb: "emb (map clause_text cs) e = (Inr vs, e1)"
    and ups: "\<And>rs. rec_values ` set rs \<subseteq> set vs \<Longrightarrow> \<exists>e2. ups rs e1 = (Inr (), e2)"
    using assms(1) unfolding unfailing_def by meson
  obtain e2 where "ups (map (contract_record cid) (zip cs vs)) e1 = (Inr (), e2)"
    using ups[OF contract_records_values] by blast
  with emb assms(2) show ?thesis
    by (simp add: ingest_clauses_def bindE_def liftE_apply collect_texts collect_records on_env_def on_db_def
        session_no_fault insert_clauses_no_fault)
qed

lemma ingest_succeeds:
  assumes "unfailing emb ups" "db_faults d = []"
  shows "\<exists>e' d'. handle_ingest_contract emb ups now (ingest_task c) (e, d)
      = (Inr (contract_id c, length (clauses c)), (e', d')) \<and> db_faults d' = []"
proof -
  let ?d = "d\<lparr>db_tables := upsert_contract (contract_id c) (filename c) now (db_tables d)\<rparr>"
  have "db_faults ?d = []" using assms(2) by simp
  from ingest_clauses_succeeds[OF assms(1) this, of now "contract_id c" "clauses c" e]
  show ?thesis using assms(2)
    by (auto simp: handle_ingest_contract_def payload_ingest_task as_str_def bindE_def liftE_apply
        on_db_def session_no_fault db_call_no_fault retE_apply)
qed

section \<open>Laws\<close>

lemma on_left_state: "on_left f (w, s) = (r, (w', s')) \<longleftrightarrow> s' = s \<and> f w = (r, w')"
  by (auto simp: on_left_def split: prod.splits)

lemma on_right_state: "on_right f (w, s) = (r, (w', s')) \<longleftrightarrow> w' = w \<and> f s = (r, s')"
  by (auto simp: on_right_def split: prod.splits)

lemma lift_redis_queues: "redis_queues api q \<Longrightarrow> redis_queues (lift_redis api) (\<lambda>p. q (fst p))"
  unfolding redis_queues_def lift_redis_def
  by (simp add: on_left_state split_paired_all)

lemma ingest_worker_simps [simp]:
  "worker_id (ingest_worker i emb ups clock) = i"
  "handlers (ingest_worker i emb ups clock) = [(''ingest_contract'', ingest_handler emb ups clock)]"
  by (simp_all add: ingest_worker_def register_handler_def make_worker_def dict_set_def)

lemma ingest_worker_keeps: "handlers_keep (\<lambda>p. q (fst p)) (ingest_worker i emb ups clock)"
  by (auto simp: handlers_add_def dict_get_def ingest_handler_def on_right_def split: if_splits prod.splits)

text \<open>What a contract's task leaves of a clause table: all of it, at some time, or nothing.\<close>

definition task_effect :: "parsed_contract \<times> int option \<Rightarrow> (string \<times> string \<rightharpoonup> clause_row)
    \<Rightarrow> (string \<times> string \<rightharpoonup> clause_row)" where
  "task_effect co m = (case snd co of
      None \<Rightarrow> m | Some now \<Rightarrow> ingested now (contract_id (fst co)) (clauses (fst co)) m)"

text \<open>Effects of different contracts commute.\<close>

lemma ingested_commute:
  "cid \<noteq> cid' \<Longrightarrow> ingested a cid cs (ingested b cid' cs' m) = ingested b cid' cs' (ingested a cid cs m)"
  by (auto simp: ingested_def fun_eq_iff split: option.splits)

lemma task_effect_commute:
  "contract_id (fst x) \<noteq> contract_id (fst y) \<Longrightarrow>
     task_effect x \<circ> task_effect y = task_effect y \<circ> task_effect x"
  by (auto simp: task_effect_def fun_eq_iff ingested_commute split: option.splits)

lemma task_effect_None [simp]: "task_effect (c, None) m = m"
  by (simp add: task_effect_def)

lemma handle_ingests:
  assumes "handle (ingest_worker i emb ups clock) (ingest_task c) p = (r, p')"
    and "tables_ok (db_tables (snd (snd p)))" "distinct (map clause_id (clauses c))"
  shows "tables_ok (db_tables (snd (snd p'))) \<and> (\<exists>oc. (oc \<noteq> None \<longrightarrow> r = Inr ())
    \<and> clause_view (db_tables (snd (snd p'))) = task_effect (c, oc) (clause_view (db_tables (snd (snd p))))
    \<and> (unfailing emb ups \<longrightarrow> db_faults (snd (snd p)) = [] \<longrightarrow> oc \<noteq> None \<and> db_faults (snd (snd p')) = []))"
proof -
  obtain w e d w' e' d' where p: "p = (w, (e, d))" "p' = (w', (e', d'))" by (metis surj_pair)
  obtain x e1 d1 where run: "handle_ingest_contract emb ups (clock (e, d)) (ingest_task c) (e, d) = (x, (e1, d1))"
    by (metis surj_pair)
  have kind: "kind (ingest_task c) = ''ingest_contract''" by (simp add: ingest_task_def)
  have "ingest_handler emb ups clock (ingest_task c) (w, (e, d)) = (case x of Inl y \<Rightarrow> Inl y
      | Inr y \<Rightarrow> Inr (JObj [(''contract_id'', JStr (fst y)), (''n_clauses'', JInt (int (snd y)))]), (w, (e1, d1)))"
    by (simp add: ingest_handler_def on_right_def bindE_def run retE_def split: sum.split prod.split)
  then have out: "(e', d') = (e1, d1) \<and> (\<forall>y. x = Inr y \<longrightarrow> r = Inr ())"
    using assms(1) unfolding p
    by (cases x) (auto simp add: handle_def dict_get_def kind tryE_def bindE_def retE_def split: if_splits)
  have good: "\<not> isl x \<and> db_faults d1 = []" if "unfailing emb ups" "db_faults d = []"
    using ingest_succeeds[OF that, of "clock (e, d)" c e] run by auto
  show ?thesis
  proof (cases x)
    case (Inl y)
    with handle_ingest_any[OF run _ assms(3)] assms(2) out good show ?thesis unfolding p
      by (auto simp: task_effect_def intro!: exI[of _ None])
  next
    case (Inr y)
    with handle_ingest_any[OF run _ assms(3)] assms(2) out good show ?thesis unfolding p
      by (auto simp: task_effect_def intro!: exI[of _ "Some (clock (e, d))"])
  qed
qed

lemma trace_ingests:
  assumes "worker_trace (lift_redis api) validate stop (ingest_worker i emb ups clock) s ts s'"
    and "ts = map ingest_task cs" and "tables_ok (db_tables (snd (snd s)))"
    and "\<And>c. c \<in> set cs \<Longrightarrow> distinct (map clause_id (clauses c))"
  shows "tables_ok (db_tables (snd (snd s'))) \<and> (\<exists>os. length os = length cs
    \<and> clause_view (db_tables (snd (snd s'))) = fold task_effect (zip cs os) (clause_view (db_tables (snd (snd s))))
    \<and> (unfailing emb ups \<longrightarrow> db_faults (snd (snd s)) = [] \<longrightarrow> None \<notin> set os))"
  using assms
proof (induction arbitrary: cs rule: worker_trace.induct)
  case (trace_refl s)
  then show ?case by simp
next
  case (trace_idle s s1 ts s')
  then have "snd s1 = snd s"
    by (cases s; cases s1) (auto simp: task_pop_None lift_redis_def on_left_state)
  with trace_idle show ?case by simp
next
  case (trace_task s t s1 s2 ts s')
  from trace_task.prems(1) obtain c cs' where cs: "cs = c # cs'" "t = ingest_task c" "ts = map ingest_task cs'"
    by (cases cs) auto
  have s1: "snd s1 = snd s"
    using trace_task.hyps(2) by (cases s; cases s1) (auto simp: task_pop_Some lift_redis_def on_left_state)
  from handle_ingests[OF trace_task.hyps(3)[unfolded cs(2)]] trace_task.prems(2,3) cs(1) s1
  obtain o' where ok: "tables_ok (db_tables (snd (snd s2)))"
    and o': "clause_view (db_tables (snd (snd s2))) = task_effect (c, o') (clause_view (db_tables (snd (snd s))))"
      "unfailing emb ups \<longrightarrow> db_faults (snd (snd s)) = [] \<longrightarrow> o' \<noteq> None \<and> db_faults (snd (snd s2)) = []"
    by auto
  with trace_task.IH[OF cs(3)] trace_task.prems(3) cs(1)
  obtain os where "tables_ok (db_tables (snd (snd s')))" "length os = length cs'"
    "clause_view (db_tables (snd (snd s'))) = fold task_effect (zip cs' os) (clause_view (db_tables (snd (snd s2))))"
    "unfailing emb ups \<longrightarrow> db_faults (snd (snd s2)) = [] \<longrightarrow> None \<notin> set os" by auto
  with o' cs(1) show ?case by (intro conjI exI[of _ "o' # os"]) auto
qed

section \<open>A process with services that do not fail\<close>

lemma demo_unfailing: "unfailing demo_embed demo_upsert"
  by (simp add: unfailing_def demo_embed_def demo_upsert_def)

lemmas demo_ingest_succeeds = ingest_succeeds[OF demo_unfailing]

definition mem_run :: mem where
  "mem_run = mem_push (worker_queue_key ''a'') (dump_task (ingest_task contract_k)) mem_ab"

definition mem_done :: mem where
  "mem_done = mem_run\<lparr>mem_lists := dict_set (mem_lists mem_run) (worker_queue_key ''a'') []\<rparr>"

lemma mem_lists_run:
  "mem_list mem_ab (worker_queue_key ''a'') = []"
  "mem_list mem_run (worker_queue_key ''a'') = [dump_task (ingest_task contract_k)]"
  "mem_list mem_done (worker_queue_key ''a'') = []"
proof -
  show ab: "mem_list mem_ab (worker_queue_key ''a'') = []"
    by (simp add: mem_ab_def mem_empty_def mem_list_def dict_simps)
  show "mem_list mem_run (worker_queue_key ''a'') = [dump_task (ingest_task contract_k)]"
    by (simp add: mem_run_def mem_list_push push_list_def ab)
  show "mem_list mem_done (worker_queue_key ''a'') = []"
    by (simp add: mem_done_def mem_list_def dict_simps)
qed

abbreviation demo_process :: "(mem \<times> (int vec_record list \<times> db)) worker" where
  "demo_process \<equiv> ingest_worker ''a'' demo_embed demo_upsert (\<lambda>s. 7)"

lemma validate_dump_ingest: "validate_task (dump_task (ingest_task c)) = Inr (ingest_task c)"
  using codec_ok_json payload_ingest_ok unfolding codec_ok_def by blast

lemma demo_pop:
  "task_pop (lift_redis mem_redis) validate_task ''a'' (mem_run, sv) = (Inr (Some (ingest_task contract_k)), (mem_done, sv))"
  by (simp add: task_pop_Some lift_redis_def on_left_state mem_lists_run mem_done_def validate_dump_ingest)

lemma demo_handle:
  obtains e' d' where "handle demo_process (ingest_task contract_k) (m, ([], empty_db [])) = (Inr (), (m, (e', d')))"
    and "db_faults d' = []"
proof -
  obtain e' d' where run: "handle_ingest_contract demo_embed demo_upsert 7 (ingest_task contract_k) ([], empty_db [])
      = (Inr (contract_id contract_k, length (clauses contract_k)), (e', d'))" and quiet: "db_faults d' = []"
    using demo_ingest_succeeds[of "empty_db []" 7 contract_k "[]"] by (auto simp: empty_db_def)
  have "kind (ingest_task contract_k) = ''ingest_contract''" by (simp add: ingest_task_def)
  then have "handle demo_process (ingest_task contract_k) (m, ([], empty_db [])) = (Inr (), (m, (e', d')))"
    by (simp add: handle_def dict_get_def ingest_handler_def on_right_def tryE_def bindE_def retE_def run)
  then show thesis using quiet by (rule that)
qed

end
