(* ===== verification/Cluster_Ingest.thy ===== *)
theory Cluster_Ingest
  imports Cluster Ingest_Service
begin

text \<open>
  A cluster of ingestion workers: every worker of \<open>Cluster\<close> is the process of
  \<open>scripts/ingest_worker.py\<close>. They share the server, the services of the handler and the
  database. What they leave of the clause table does not depend on the interleaving.
\<close>

section \<open>Outcomes in any order\<close>

lemma fold_untouched: "(\<And>x. x \<in> set xs \<Longrightarrow> outcome x = None) \<Longrightarrow> fold (\<lambda>c. task_effect (c, outcome c)) xs m = m"
  by (induction xs arbitrary: m) simp_all

lemma fold_outcomes:
  assumes "distinct (map contract_id cs)" "set (map fst ps) \<subseteq> set cs" "distinct (map fst ps)"
    and "\<And>c. outcome c = (case map_of ps c of None \<Rightarrow> None | Some x \<Rightarrow> x)" "mset cs' = mset cs"
  shows "fold (\<lambda>c. task_effect (c, outcome c)) cs' m = fold task_effect ps m"
proof -
  let ?f = "\<lambda>c. task_effect (c, outcome c)"
  let ?rest = "filter (\<lambda>c. c \<notin> set (map fst ps)) cs"
  have d: "distinct cs" using assms(1) by (simp add: distinct_map)
  have "mset (map fst ps @ ?rest) = mset cs"
  proof (rule set_eq_iff_mset_eq_distinct[THEN iffD1])
    show "distinct (map fst ps @ ?rest)" using assms(3) d by auto
    show "set (map fst ps @ ?rest) = set cs" using assms(2) by auto
  qed (rule d)
  then have "fold ?f cs' = fold ?f (map fst ps @ ?rest)"
  proof (intro fold_multiset_equiv)
    fix x y assume "x \<in> set cs'" "y \<in> set cs'"
    then have "x \<in> set cs" "y \<in> set cs" using assms(5) by (metis set_mset_mset)+
    then have "x = y \<or> contract_id x \<noteq> contract_id y" using assms(1) by (auto simp: distinct_map inj_on_def)
    then show "?f x \<circ> ?f y = ?f y \<circ> ?f x" by (auto intro: task_effect_commute)
  qed (simp add: assms(5))
  moreover have "fold ?f ?rest m' = m'" for m'
    by (rule fold_untouched) (force simp: assms(4) split: option.splits dest: map_of_SomeD)
  moreover have "fold ?f (map fst ps) m = fold task_effect ps m"
    using assms(3) unfolding fold_map
  proof (intro fold_cong refl)
    fix p assume p: "p \<in> set ps"
    then have "map_of ps (fst p) = Some (snd p)" using assms(3) by (simp add: map_of_eq_Some_iff)
    then have "outcome (fst p) = snd p" by (simp add: assms(4))
    then show "((\<lambda>c. task_effect (c, outcome c)) \<circ> fst) p = task_effect p" by simp
  qed
  ultimately show ?thesis by simp
qed

section \<open>What a history says of the cluster\<close>

definition worked :: "event list \<Rightarrow> (string \<times> task) list" where
  "worked es = concat (map (\<lambda>e. finishes e @ drops e) es)"

lemma of_worker_count: "count (mset ps) (wid, t) = count (mset (of_worker wid ps)) t"
  by (induction ps) auto

lemma of_worker_worked:
  "mset (of_worker wid (worked es)) = mset (handled_by wid es) + mset (lost_by wid es)"
  by (induction es) (simp_all add: worked_def handled_by_def lost_by_def)

lemma worked_sent:
  assumes "redis_queues api q" "keys_apart api q" "quiet env q wk" "codec_ok dump validate"
    and "cl_run api dump validate env wk s es s'"
    and "\<And>wid. q (cl_world s) (worker_queue_key wid) = []" "cl_busy s = Map.empty"
    and "\<And>p. p \<in> set (concat (map sends es)) \<Longrightarrow> json_ok (JObj (payload (snd p)))"
  shows "mset (worked es) \<subseteq># mset (concat (map sends es))"
proof (rule mset_subset_eqI)
  fix p :: "string \<times> task"
  have "json_ok (JObj (payload t))" if "t \<in> set (sent_to wid es)" for wid t
    using that assms(8) by (auto simp: sent_to_def of_worker_def)
  then obtain ts where "sent_to (fst p) es = taken_by (fst p) es @ ts"
    using run_queue_tasks[OF assms(1-6)] by metis
  moreover have "mset (taken_by (fst p) es) = mset (handled_by (fst p) es) + mset (lost_by (fst p) es)
      + mset (in_hand s' (fst p))"
    using run_hand[OF assms(5)] assms(7) by simp
  ultimately have "mset (of_worker (fst p) (worked es)) \<subseteq># mset (sent_to (fst p) es)"
    by (simp add: of_worker_worked)
  then show "count (mset (worked es)) p \<le> count (mset (concat (map sends es))) p"
    using mset_subset_eq_count by (cases p) (fastforce simp: of_worker_count sent_to_def)
qed

lemma busy_sent:
  assumes "redis_queues api q" "keys_apart api q" "quiet env q wk" "codec_ok dump validate"
    and "cl_run api dump validate env wk s es s'"
    and "\<And>wid. q (cl_world s) (worker_queue_key wid) = []" "cl_busy s = Map.empty"
    and "\<And>p. p \<in> set (concat (map sends es)) \<Longrightarrow> json_ok (JObj (payload (snd p)))"
    and "cl_busy s' wid = Some t"
  shows "t \<in> snd ` set (concat (map sends es))"
proof -
  have "json_ok (JObj (payload t))" if "t \<in> set (sent_to wid es)" for t
    using that assms(8) by (auto simp: sent_to_def of_worker_def)
  then obtain ts where "sent_to wid es = taken_by wid es @ ts"
    using run_queue_tasks[OF assms(1-6)] by metis
  moreover have "mset (taken_by wid es) = mset (handled_by wid es) + mset (lost_by wid es) + mset (in_hand s' wid)"
    using run_hand[OF assms(5)] assms(7) by simp
  then have "t \<in> set (taken_by wid es)"
    using assms(9) by (simp add: in_hand_def set_mset_mset[symmetric] del: set_mset_mset)
  ultimately have "t \<in> set (sent_to wid es)" by simp
  then show ?thesis by (auto simp: sent_to_def of_worker_def)
qed

section \<open>The services of the cluster\<close>

text \<open>What is done on the server alone leaves the services alone.\<close>

lemma keepsE_on_left: "keepsE (\<lambda>p. snd p = x) (on_left f)"
  by (auto simp: keepsE_def on_left_def split: prod.splits)

lemma keepsE_lifted:
  "keepsE (\<lambda>p. snd p = x) (rd_set_ex (lift_redis api) k v n)" "keepsE (\<lambda>p. snd p = x) (rd_delete (lift_redis api) k)"
  "keepsE (\<lambda>p. snd p = x) (rd_scan (lift_redis api) k)" "keepsE (\<lambda>p. snd p = x) (rd_publish (lift_redis api) k v)"
  "keepsE (\<lambda>p. snd p = x) (rd_rpush (lift_redis api) k v)" "keepsE (\<lambda>p. snd p = x) (rd_rpush_pipeline (lift_redis api) ops)"
  "keepsE (\<lambda>p. snd p = x) (rd_blpop (lift_redis api) k)"
  by (simp_all add: lift_redis_def keepsE_on_left)

lemma keepsE_cluster_ops:
  "keepsE (\<lambda>p. snd p = x) (dispatch (lift_redis api) dump r t)"
  "keepsE (\<lambda>p. snd p = x) (dispatch_many (lift_redis api) dump r ts)"
  "keepsE (\<lambda>p. snd p = x) (register (lift_redis api) wid)"
  "keepsE (\<lambda>p. snd p = x) (heartbeat (lift_redis api) wid)"
  "keepsE (\<lambda>p. snd p = x) (deregister (lift_redis api) wid)"
  "keepsE (\<lambda>p. snd p = x) (list_workers (lift_redis api))"
  "keepsE (\<lambda>p. snd p = x) (task_pop (lift_redis api) validate wid)"
  unfolding dispatch_def dispatch_many_def register_def heartbeat_def deregister_def list_workers_def task_pop_def
  by (auto intro!: keepsE_intros keepsE_lifted split: option.splits prod.splits)

lemma keepsE_services: "keepsE (\<lambda>p. snd p = x) f \<Longrightarrow> f p = (r, p') \<Longrightarrow> snd p = x \<Longrightarrow> snd p' = x"
  by (auto dest: keepsE_D)

lemma refresh_services: "refresh_ring (lift_redis api) (r, p) = (Inr ws, (r', p')) \<Longrightarrow> snd p' = snd p"
  using keepsE_services[OF keepsE_cluster_ops(6)]
  by (fastforce simp: refresh_ring_cases split: prod.splits sum.splits)

lemmas step_services =
  keepsE_services[OF keepsE_cluster_ops(1)] keepsE_services[OF keepsE_cluster_ops(2)]
  keepsE_services[OF keepsE_cluster_ops(3)] keepsE_services[OF keepsE_cluster_ops(4)]
  keepsE_services[OF keepsE_cluster_ops(5)] keepsE_services[OF keepsE_cluster_ops(7)] refresh_services

abbreviation clause_table :: "('w \<times> ('e \<times> db)) cluster \<Rightarrow> (string \<times> string \<rightharpoonup> clause_row)" where
  "clause_table s \<equiv> clause_view (db_tables (snd (snd (cl_world s))))"

abbreviation cluster_tables :: "('w \<times> ('e \<times> db)) cluster \<Rightarrow> tables" where
  "cluster_tables s \<equiv> db_tables (snd (snd (cl_world s)))"

abbreviation cluster_faults :: "('w \<times> ('e \<times> db)) cluster \<Rightarrow> exc option list" where
  "cluster_faults s \<equiv> db_faults (snd (snd (cl_world s)))"

text \<open>A step changes the clause table by the task it handles, and only if that is a step of a handler.\<close>

lemma step_ingests:
  assumes "cl_step (lift_redis api) dump validate env (\<lambda>i. ingest_worker i emb ups clock) s e s'"
    and "\<And>p p'. env p p' \<Longrightarrow> snd p' = snd p" and "tables_ok (cluster_tables s)"
    and "\<And>wid t. cl_busy s wid = Some t \<Longrightarrow> \<exists>c \<in> cs. t = ingest_task c"
    and "\<And>c. c \<in> cs \<Longrightarrow> distinct (map clause_id (clauses c))"
  shows "tables_ok (cluster_tables s') \<and> (\<exists>ps. map (\<lambda>p. ingest_task (fst p)) ps = map snd (finishes e @ drops e)
    \<and> fst ` set ps \<subseteq> cs \<and> (\<forall>p \<in> set ps. snd p \<noteq> None \<longrightarrow> ingest_task (fst p) \<in> snd ` set (finishes e))
    \<and> clause_table s' = fold task_effect ps (clause_table s)
    \<and> (unfailing emb ups \<longrightarrow> cluster_faults s = [] \<longrightarrow> cluster_faults s' = []
         \<and> (\<forall>t \<in> snd ` set (finishes e). \<exists>p \<in> set ps. ingest_task (fst p) = t \<and> snd p \<noteq> None)))"
proof -
  have same: "?thesis" if "snd (cl_world s') = snd (cl_world s)" "finishes e @ drops e = []"
    using that assms(3) by (intro conjI exI[of _ "[]"]) simp_all
  from assms(1) show ?thesis
  proof cases
    case (step_handle wid t w')
    obtain c where c: "c \<in> cs" "t = ingest_task c" using assms(4) step_handle(4) by blast
    from handle_ingests[OF step_handle(5)[unfolded c(2)] assms(3) assms(5)[OF c(1)]]
    obtain oc where "tables_ok (db_tables (snd (snd w')))"
      "clause_view (db_tables (snd (snd w'))) = task_effect (c, oc) (clause_table s)"
      "unfailing emb ups \<longrightarrow> cluster_faults s = [] \<longrightarrow> oc \<noteq> None \<and> db_faults (snd (snd w')) = []" by blast
    then show ?thesis using step_handle c by (intro conjI exI[of _ "[(c, oc)]"]) simp_all
  next
    case (step_abort wid t x w')
    obtain c where c: "c \<in> cs" "t = ingest_task c" using assms(4) step_abort(4) by blast
    from handle_ingests[OF step_abort(5)[unfolded c(2)] assms(3) assms(5)[OF c(1)]]
    have "tables_ok (db_tables (snd (snd w')))" "clause_view (db_tables (snd (snd w'))) = clause_table s"
      "unfailing emb ups \<longrightarrow> cluster_faults s \<noteq> []" by auto
    then show ?thesis using step_abort c by (intro conjI exI[of _ "[(c, None)]"]) simp_all
  next
    case (step_crash wid)
    show ?thesis
    proof (cases "cl_busy s wid")
      case None
      with step_crash show ?thesis by (intro same) simp_all
    next
      case (Some t)
      obtain c where "c \<in> cs" "t = ingest_task c" using assms(4)[OF Some] by blast
      with step_crash Some assms(3) show ?thesis by (intro conjI exI[of _ "[(c, None)]"]) simp_all
    qed
  next
    case (step_elapse w')
    with assms(2) show ?thesis by (intro same) simp_all
  qed (rule same; simp add: step_services; fail)+
qed

lemma run_step_inv:
  assumes "cl_run api dump validate env wk s es s1" "cl_step api dump validate env wk s1 e s2"
    and "redis_queues api q" "keys_apart api q" "quiet env q wk" "codec_ok dump validate"
    and "\<And>wid. q (cl_world s) (worker_queue_key wid) = []" "cl_busy s = Map.empty"
    and "set (map snd (concat (map sends es))) \<subseteq> ingest_task ` cs"
    and "cl_busy s1 wid = Some t"
  shows "\<exists>c \<in> cs. t = ingest_task c"
proof -
  have "json_ok (JObj (payload (snd p)))" if "p \<in> set (concat (map sends es))" for p
    using that assms(9) payload_ingest_ok by force
  from busy_sent[OF assms(3-6,1,7,8) this assms(10)] assms(9) show ?thesis by auto
qed

lemma run_ingests:
  assumes "redis_queues (lift_redis api) q" "keys_apart (lift_redis api) q"
    and "quiet env q (\<lambda>i. ingest_worker i emb ups clock)" "codec_ok dump validate"
    and "\<And>p p'. env p p' \<Longrightarrow> snd p' = snd p"
    and "cl_run (lift_redis api) dump validate env (\<lambda>i. ingest_worker i emb ups clock) s es s'"
    and "\<And>wid. q (cl_world s) (worker_queue_key wid) = []" "cl_busy s = Map.empty"
    and "tables_ok (cluster_tables s)" "\<And>c. c \<in> cs \<Longrightarrow> distinct (map clause_id (clauses c))"
    and "set (map snd (concat (map sends es))) \<subseteq> ingest_task ` cs"
  shows "tables_ok (cluster_tables s') \<and> (\<exists>ps. map (\<lambda>p. ingest_task (fst p)) ps = map snd (worked es)
    \<and> fst ` set ps \<subseteq> cs
    \<and> (\<forall>p \<in> set ps. snd p \<noteq> None \<longrightarrow> ingest_task (fst p) \<in> snd ` set (concat (map finishes es)))
    \<and> clause_table s' = fold task_effect ps (clause_table s)
    \<and> (unfailing emb ups \<longrightarrow> cluster_faults s = [] \<longrightarrow> cluster_faults s' = []
         \<and> (\<forall>t \<in> snd ` set (concat (map finishes es)). \<exists>p \<in> set ps. ingest_task (fst p) = t \<and> snd p \<noteq> None)))"
  using assms(6-11)
proof (induction rule: cl_run.induct)
  case (run_refl s)
  then show ?case by (intro conjI exI[of _ "[]"]) (simp_all add: worked_def)
next
  case (run_step s es s1 e s2)
  have sub: "set (map snd (concat (map sends es))) \<subseteq> ingest_task ` cs" using run_step.prems(5) by auto
  obtain ps where ok: "tables_ok (cluster_tables s1)"
    and ps: "map (\<lambda>p. ingest_task (fst p)) ps = map snd (worked es)" "fst ` set ps \<subseteq> cs"
      "\<forall>p \<in> set ps. snd p \<noteq> None \<longrightarrow> ingest_task (fst p) \<in> snd ` set (concat (map finishes es))"
      "clause_table s1 = fold task_effect ps (clause_table s)"
      "unfailing emb ups \<longrightarrow> cluster_faults s = [] \<longrightarrow> cluster_faults s1 = []
         \<and> (\<forall>t \<in> snd ` set (concat (map finishes es)). \<exists>p \<in> set ps. ingest_task (fst p) = t \<and> snd p \<noteq> None)"
    using run_step.IH[OF run_step.prems(1-4) sub] by blast
  have "\<exists>c \<in> cs. t = ingest_task c" if "cl_busy s1 wid = Some t" for wid t
    by (rule run_step_inv[OF run_step.hyps assms(1-4) run_step.prems(1,2) sub that])
  then have "tables_ok (cluster_tables s2) \<and> (\<exists>qs. map (\<lambda>p. ingest_task (fst p)) qs = map snd (finishes e @ drops e)
    \<and> fst ` set qs \<subseteq> cs \<and> (\<forall>p \<in> set qs. snd p \<noteq> None \<longrightarrow> ingest_task (fst p) \<in> snd ` set (finishes e))
    \<and> clause_table s2 = fold task_effect qs (clause_table s1)
    \<and> (unfailing emb ups \<longrightarrow> cluster_faults s1 = [] \<longrightarrow> cluster_faults s2 = []
         \<and> (\<forall>t \<in> snd ` set (finishes e). \<exists>p \<in> set qs. ingest_task (fst p) = t \<and> snd p \<noteq> None)))"
    by (intro step_ingests[OF run_step.hyps(2) assms(5) ok _ run_step.prems(4)])
  then obtain qs where "tables_ok (cluster_tables s2)"
    and qs: "map (\<lambda>p. ingest_task (fst p)) qs = map snd (finishes e @ drops e)" "fst ` set qs \<subseteq> cs"
      "\<forall>p \<in> set qs. snd p \<noteq> None \<longrightarrow> ingest_task (fst p) \<in> snd ` set (finishes e)"
      "clause_table s2 = fold task_effect qs (clause_table s1)"
      "unfailing emb ups \<longrightarrow> cluster_faults s1 = [] \<longrightarrow> cluster_faults s2 = []
         \<and> (\<forall>t \<in> snd ` set (finishes e). \<exists>p \<in> set qs. ingest_task (fst p) = t \<and> snd p \<noteq> None)" by blast
  moreover have fin: "set (concat (map finishes (es @ [e]))) = set (concat (map finishes es)) \<union> set (finishes e)" by simp
  have "\<forall>p \<in> set (ps @ qs). snd p \<noteq> None \<longrightarrow> ingest_task (fst p) \<in> snd ` set (concat (map finishes (es @ [e])))"
    using ps(3) qs(3) unfolding fin image_Un set_append ball_Un by blast
  moreover have "unfailing emb ups \<longrightarrow> cluster_faults s = [] \<longrightarrow> cluster_faults s2 = []
      \<and> (\<forall>t \<in> snd ` set (concat (map finishes (es @ [e]))). \<exists>p \<in> set (ps @ qs). ingest_task (fst p) = t \<and> snd p \<noteq> None)"
    using ps(5) qs(5) unfolding fin image_Un set_append ball_Un bex_Un by blast
  ultimately show ?case using ps(1,2,4) qs(1,2,4)
    by (intro conjI exI[of _ "ps @ qs"]) (simp_all add: worked_def image_Un del: concat_map_singleton)
qed

lemma lift_keys_apart: "keys_apart api q \<Longrightarrow> keys_apart (lift_redis api) (\<lambda>p. q (fst p))"
  by (auto simp: keys_apart_def reads_keep_def lift_redis_def on_left_state split_paired_all)

lemma ingest_workers_quiet:
  assumes "\<And>p p'. env p p' \<Longrightarrow> q (fst p') = q (fst p)"
  shows "quiet env (\<lambda>p. q (fst p)) (\<lambda>i. ingest_worker i emb ups clock)"
  using assms
  by (auto simp: quiet_def handle_def dict_get_def ingest_handler_def on_right_def tryE_def bindE_def retE_def
      split: if_splits prod.splits sum.splits)

lemma distinct_submultiset: "mset xs \<subseteq># mset ys \<Longrightarrow> distinct ys \<Longrightarrow> distinct xs"
proof -
  assume "mset xs \<subseteq># mset ys" "distinct ys"
  then obtain zs where "mset ys = mset (xs @ zs)"
    by (metis ex_mset mset_append subset_mset.add_diff_inverse)
  with \<open>distinct ys\<close> have "distinct (xs @ zs)" by (metis mset_eq_imp_distinct_iff)
  then show ?thesis by simp
qed

section \<open>Property\<close>

text \<open>
  C3: Ingestion does not depend on the interleaving: in every state that a cluster of ingestion
  workers can reach from empty queues, with crashes, membership changes and failing
  ingestions at any point, each dispatched contract is either stored as a whole, which takes a
  worker that has handled its task to the end, or has left the clauses alone; when the services
  and the database do not fail, exactly the contracts whose task was handled are stored; and applying these
  effects in any order gives the same clause table. (The contracts have different ids, and the
  clauses of a contract too.)
\<close>

theorem cluster_ingests:
  assumes "redis_queues api q" and "keys_apart api q" and "codec_ok dump validate"
    and "\<And>p p'. env p p' \<Longrightarrow> q (fst p') = q (fst p) \<and> snd p' = snd p"
    and "cl_run (lift_redis api) dump validate env (\<lambda>i. ingest_worker i emb ups clock) s es s'"
    and "\<And>wid. q (fst (cl_world s)) (worker_queue_key wid) = []" and "cl_busy s = Map.empty"
    and "tables_ok (cluster_tables s)"
    and "map snd (concat (map sends es)) = map ingest_task cs"
    and "distinct (map contract_id cs)" and "\<And>c. c \<in> set cs \<Longrightarrow> distinct (map clause_id (clauses c))"
  shows "tables_ok (cluster_tables s') \<and> (\<exists>outcome.
      (\<forall>c \<in> set cs. outcome c \<noteq> None \<longrightarrow> ingest_task c \<in> snd ` set (concat (map finishes es)))
    \<and> (unfailing emb ups \<longrightarrow> cluster_faults s = [] \<longrightarrow>
         (\<forall>c \<in> set cs. ingest_task c \<in> snd ` set (concat (map finishes es)) \<longrightarrow> outcome c \<noteq> None))
    \<and> (\<forall>cs'. mset cs' = mset cs \<longrightarrow>
         clause_table s' = fold (\<lambda>c. task_effect (c, outcome c)) cs' (clause_table s)))"
proof -
  note queues = lift_redis_queues[OF assms(1)] lift_keys_apart[OF assms(2)]
  have env: "q (fst p') = q (fst p)" "snd p' = snd p" if "env p p'" for p p' using assms(4)[OF that] by blast+
  note quiet = ingest_workers_quiet[where q = q, OF env(1)]
  have "set (map snd (concat (map sends es))) \<subseteq> ingest_task ` set cs" unfolding assms(9) by simp
  from run_ingests[OF queues quiet assms(3) env(2) assms(5-8,11) this]
  obtain ps where ok: "tables_ok (cluster_tables s')"
    and ps: "map (\<lambda>p. ingest_task (fst p)) ps = map snd (worked es)" "fst ` set ps \<subseteq> set cs"
      "\<forall>p \<in> set ps. snd p \<noteq> None \<longrightarrow> ingest_task (fst p) \<in> snd ` set (concat (map finishes es))"
      "clause_table s' = fold task_effect ps (clause_table s)"
      "unfailing emb ups \<longrightarrow> cluster_faults s = [] \<longrightarrow>
         (\<forall>t \<in> snd ` set (concat (map finishes es)). \<exists>p \<in> set ps. ingest_task (fst p) = t \<and> snd p \<noteq> None)" by blast
  have "json_ok (JObj (payload (snd p)))" if "p \<in> set (concat (map sends es))" for p
  proof -
    have "snd p \<in> set (map ingest_task cs)" unfolding assms(9)[symmetric] using that by force
    then show ?thesis using payload_ingest_ok by (auto simp del: json_ok.simps)
  qed
  from worked_sent[OF queues quiet assms(3,5-7) this]
  have "mset (worked es) \<subseteq># mset (concat (map sends es))" .
  then have "mset (map snd (worked es)) \<subseteq># mset (map ingest_task cs)"
    using image_mset_subseteq_mono[of "mset (worked es)" "mset (concat (map sends es))" snd] assms(9)
    by (metis mset_map)
  moreover have "distinct (map ingest_task cs)"
    using assms(10) by (auto simp: distinct_map inj_on_def ingest_task_def)
  ultimately have "distinct (map (\<lambda>p. ingest_task (fst p)) ps)"
    unfolding ps(1) by (rule distinct_submultiset)
  then have dist: "distinct (map fst ps)" by (auto simp: distinct_map inj_on_def)
  note fold = fold_outcomes[OF assms(10) _ dist]
  let ?outcome = "\<lambda>c. case map_of ps c of None \<Rightarrow> None | Some x \<Rightarrow> x"
  have fin: "\<forall>c \<in> set cs. ?outcome c \<noteq> None \<longrightarrow> ingest_task c \<in> snd ` set (concat (map finishes es))"
  proof (intro ballI impI)
    fix c assume "?outcome c \<noteq> None"
    then obtain x where "map_of ps c = Some x" "x \<noteq> None" by (auto split: option.splits)
    then have "(c, x) \<in> set ps" "x \<noteq> None" by (auto dest: map_of_SomeD)
    with ps(3) show "ingest_task c \<in> snd ` set (concat (map finishes es))" by (metis fst_conv snd_conv)
  qed
  have all: "?outcome c \<noteq> None"
    if quiet: "unfailing emb ups" "cluster_faults s = []"
      and c: "c \<in> set cs" "ingest_task c \<in> snd ` set (concat (map finishes es))" for c
  proof -
    obtain p where p: "p \<in> set ps" "ingest_task (fst p) = ingest_task c" "snd p \<noteq> None" using ps(5) quiet c(2) by blast
    then have "fst p \<in> set cs" "contract_id (fst p) = contract_id c" using ps(2) by (auto simp: ingest_task_def)
    then have "fst p = c" using c(1) assms(10) by (auto simp: distinct_map inj_on_def)
    then have "map_of ps c = Some (snd p)" using p(1) dist by (intro map_of_is_SomeI) (auto simp: prod_eq_iff)
    then show ?thesis using p(3) by simp
  qed
  have "\<forall>cs'. mset cs' = mset cs \<longrightarrow>
      clause_table s' = fold (\<lambda>c. task_effect (c, ?outcome c)) cs' (clause_table s)"
  proof (intro allI impI, rule sym)
    fix cs' assume perm: "mset cs' = mset cs"
    have sub: "set (map fst ps) \<subseteq> set cs" using ps(2) by simp
    show "fold (\<lambda>c. task_effect (c, ?outcome c)) cs' (clause_table s) = clause_table s'"
      unfolding ps(4) by (rule fold[OF sub refl perm])
  qed
  with ok fin all show ?thesis by (intro conjI exI[of _ ?outcome]) blast+
qed

abbreviation demo_cluster ::
    "mem \<Rightarrow> int vec_record list \<times> db \<Rightarrow> (string \<rightharpoonup> task) \<Rightarrow> (mem \<times> (int vec_record list \<times> db)) cluster" where
  "demo_cluster m sv busy \<equiv> \<lparr>cl_world = (m, sv), cl_rings = (\<lambda>i. ring_ab), cl_up = {''a''}, cl_busy = busy\<rparr>"

abbreviation demo_history :: "event list" where
  "demo_history \<equiv> [] @ [Dispatched [(''a'', ingest_task contract_k)]] @ [Taken ''a'' (ingest_task contract_k)]
     @ [Handled ''a'' (ingest_task contract_k)]"

lemma demo_cluster_run:
  obtains e' d' where "cl_run (lift_redis mem_redis) dump_task validate_task (=)
      (\<lambda>i. ingest_worker i demo_embed demo_upsert (\<lambda>s. 7)) (demo_cluster mem_ab ([], empty_db []) Map.empty)
      demo_history (demo_cluster mem_done (e', d') (Map.empty(''a'' := None)))"
proof -
  let ?k = "ingest_task contract_k" and ?sv = "([] :: int vec_record list, empty_db [])"
  let ?step = "cl_step (lift_redis mem_redis) dump_task validate_task (=) (\<lambda>i. ingest_worker i demo_embed demo_upsert (\<lambda>s. 7))"
  obtain e' d' where run: "handle demo_process ?k (mem_done, ?sv) = (Inr (), (mem_done, (e', d')))"
    by (rule demo_handle)
  have "get_worker ring_ab (routing_key ?k) = Inr (Some ''a'')"
    by (simp add: routing_key_contract_k get_worker_ab)
  then have "dispatch (lift_redis mem_redis) dump_task ring_ab ?k (mem_ab, ?sv) = (Inr ''a'', (mem_run, ?sv))"
    by (subst dispatch_cases) (simp_all add: lift_redis_def on_left_def mem_run_def)
  then have 1: "?step (demo_cluster mem_ab ?sv Map.empty) (Dispatched [(''a'', ?k)]) (demo_cluster mem_run ?sv Map.empty)"
    using step_dispatch[where s = "demo_cluster mem_ab ?sv Map.empty" and i = 0] by fastforce
  have 2: "?step (demo_cluster mem_run ?sv Map.empty) (Taken ''a'' ?k) (demo_cluster mem_done ?sv [''a'' \<mapsto> ?k])"
    using step_take[where s = "demo_cluster mem_run ?sv Map.empty" and wid = "''a''"] demo_pop[of ?sv] by fastforce
  have 3: "?step (demo_cluster mem_done ?sv [''a'' \<mapsto> ?k]) (Handled ''a'' ?k)
      (demo_cluster mem_done (e', d') (Map.empty(''a'' := None)))"
    using step_handle[where s = "demo_cluster mem_done ?sv [''a'' \<mapsto> ?k]" and wid = "''a''"] run by fastforce
  show thesis
    using that[of e' d'] run_step[OF run_step[OF run_step[OF run_refl 1] 2] 3] by (metis append_assoc)
qed

theorem cluster_ingests_witness:
  "\<exists>e' d' now. cl_run (lift_redis mem_redis) dump_task validate_task (=)
      (\<lambda>i. ingest_worker i demo_embed demo_upsert (\<lambda>s. 7)) (demo_cluster mem_ab ([], empty_db []) Map.empty)
      demo_history (demo_cluster mem_done (e', d') (Map.empty(''a'' := None)))
    \<and> clause_view (db_tables d') = ingested now (contract_id contract_k) (clauses contract_k) Map.empty"
proof -
  obtain e' d' where run: "cl_run (lift_redis mem_redis) dump_task validate_task (=)
      (\<lambda>i. ingest_worker i demo_embed demo_upsert (\<lambda>s. 7)) (demo_cluster mem_ab ([], empty_db []) Map.empty)
      demo_history (demo_cluster mem_done (e', d') (Map.empty(''a'' := None)))"
    by (rule demo_cluster_run)
  have "distinct (map clause_id (clauses contract_k))" by (simp add: contract_k_def)
  moreover have "db_faults (empty_db []) = []" by (simp add: empty_db_def)
  ultimately obtain outcome where "outcome contract_k \<noteq> None"
    "\<And>cs'. mset cs' = mset [contract_k] \<Longrightarrow>
      clause_view (db_tables d') = fold (\<lambda>c. task_effect (c, outcome c)) cs' Map.empty"
    using cluster_ingests[OF mem_redis_queues mem_keys_apart codec_ok_json _ run, where cs = "[contract_k]"]
    by (auto simp: empty_db_ok demo_unfailing)
  then obtain now where "clause_view (db_tables d') = ingested now (contract_id contract_k) (clauses contract_k) Map.empty"
    by (auto simp: task_effect_def)
  with run show ?thesis by blast
qed

end
