(* ===== verification/Heartbeat.thy ===== *)
theory Heartbeat
  imports Worker_Registry
begin

text \<open>
  Model of \<open>orchestration/heartbeat.py\<close>: the monitor that reconciles the ring with the
  heartbeat keys. \<open>monitor_tick\<close> is one iteration of the loop without the sleep; it takes
  the list of the last iteration and returns the new one. \<open>monitor_run\<close> is the endless
  loop (\<open>None\<close>: it runs forever); every exception ends it.
\<close>

definition monitor_tick ::
    "'w redis \<Rightarrow> (string list \<Rightarrow> (hash_ring \<times> 'w, unit) eff) option \<Rightarrow> string list
       \<Rightarrow> (hash_ring \<times> 'w, string list) eff" where
  "monitor_tick api on_change last_workers =
     bindE (refresh_ring api)
       (\<lambda>ws. if ws \<noteq> last_workers then bindE (notify on_change ws) (\<lambda>_. retE ws)
             else retE last_workers)"

partial_function (option) monitor_loop ::
    "'w redis \<Rightarrow> (hash_ring \<times> 'w, unit) eff
       \<Rightarrow> (string list \<Rightarrow> (hash_ring \<times> 'w, unit) eff) option \<Rightarrow> string list
       \<Rightarrow> hash_ring \<times> 'w \<Rightarrow> ((exc + unit) \<times> (hash_ring \<times> 'w)) option" where
  "monitor_loop api sleep on_change last_workers s =
     (case bindE (monitor_tick api on_change last_workers) (\<lambda>ws. bindE sleep (\<lambda>_. retE ws)) s of
        (Inl e, s') \<Rightarrow> Some (Inl e, s')
      | (Inr ws, s') \<Rightarrow> monitor_loop api sleep on_change ws s')"

definition monitor_run ::
    "'w redis \<Rightarrow> (hash_ring \<times> 'w, unit) eff
       \<Rightarrow> (string list \<Rightarrow> (hash_ring \<times> 'w, unit) eff) option
       \<Rightarrow> hash_ring \<times> 'w \<Rightarrow> ((exc + unit) \<times> (hash_ring \<times> 'w)) option" where
  "monitor_run api sleep on_change s = monitor_loop api sleep on_change [] s"

text \<open>The world at the top of the \<open>n\<close>-th iteration, and the list the monitor remembers there.\<close>

fun monitor_rounds ::
    "'w redis \<Rightarrow> (hash_ring \<times> 'w, unit) eff
       \<Rightarrow> (string list \<Rightarrow> (hash_ring \<times> 'w, unit) eff) option \<Rightarrow> nat \<Rightarrow> string list
       \<Rightarrow> hash_ring \<times> 'w \<Rightarrow> (string list \<times> (hash_ring \<times> 'w)) option" where
  "monitor_rounds api sleep on_change 0 ws s = Some (ws, s)"
| "monitor_rounds api sleep on_change (Suc n) ws s =
     (case bindE (monitor_tick api on_change ws) (\<lambda>vs. bindE sleep (\<lambda>_. retE vs)) s of
        (Inl e, s') \<Rightarrow> None
      | (Inr vs, s') \<Rightarrow> monitor_rounds api sleep on_change n vs s')"

lemma monitor_loop_rounds:
  "monitor_rounds api sleep on_change n ws s = Some (vs, s') \<Longrightarrow>
     monitor_loop api sleep on_change ws s = monitor_loop api sleep on_change vs s'"
proof (induction n arbitrary: ws s)
  case 0
  then show ?case by simp
next
  case (Suc n)
  then obtain us s1 where
    "bindE (monitor_tick api on_change ws) (\<lambda>vs. bindE sleep (\<lambda>_. retE vs)) s = (Inr us, s1)"
    "monitor_rounds api sleep on_change n us s1 = Some (vs, s')"
    by (auto split: prod.splits sum.splits)
  then show ?case using Suc.IH by (simp add: monitor_loop.simps[of _ _ _ ws s])
qed

text \<open>
  A tick is a refresh, followed by the callback exactly when the scanned list differs from
  the remembered one.
\<close>

lemma monitor_tick_cases:
  "monitor_tick api on_change last_workers s =
    (case refresh_ring api s of
       (Inl e, s') \<Rightarrow> (Inl e, s')
     | (Inr ws, s') \<Rightarrow>
         if ws = last_workers then (Inr ws, s')
         else (case notify on_change ws s' of
             (Inl e, s'') \<Rightarrow> (Inl e, s'')
           | (Inr _, s'') \<Rightarrow> (Inr ws, s'')))"
  by (simp add: monitor_tick_def bindE_def eff_simps split: prod.splits sum.splits)

section \<open>Properties\<close>

text \<open>
  A tick of the heartbeat monitor that succeeds without a callback changing the ring
  leaves the registry with a ring rebuilt from the scanned workers and remembers that list;
  when the scan returns the remembered list, the callback is not called.
\<close>

lemma monitor_tick_reconciles:
  assumes "list_workers api w = (Inr ws, w')"
  shows "monitor_tick api None last_workers (r, w) = (Inr ws, (replace_workers r ws, w'))
    \<and> (ws = last_workers \<longrightarrow>
         monitor_tick api on_change last_workers (r, w) = (Inr ws, (replace_workers r ws, w')))
    \<and> (ws \<noteq> last_workers \<longrightarrow> on_change = Some f \<longrightarrow> f ws (replace_workers r ws, w') = (Inr (), s'') \<longrightarrow>
         monitor_tick api on_change last_workers (r, w) = (Inr ws, s''))"
  using assms by (simp add: monitor_tick_cases refresh_ring_cases notify_def eff_simps)

lemma monitor_tick_reconciles_example:
  "monitor_tick mem_redis None [''a''] (ring_ab, mem_ab)
     = (Inr [''a'', ''b''], (replace_workers ring_ab [''a'', ''b''], mem_ab))"
proof -
  have "list_workers mem_redis mem_ab = (Inr [''a'', ''b''], mem_ab)" by code_simp
  from monitor_tick_reconciles[OF this] show ?thesis by blast
qed

text \<open>
  The first exception of an iteration (of the scan, the callback or the sleep) ends the
  monitor: an error of the client library is not retried, so from then on dead workers stay
  on the ring.
\<close>

lemma monitor_ends_on_error:
  assumes "monitor_rounds api sleep on_change n [] s = Some (ws, (r, w))"
    and "list_workers api w = (Inl e, w')"
  shows "monitor_run api sleep on_change s = Some (Inl e, (r, w'))"
proof -
  have "bindE (monitor_tick api on_change ws) (\<lambda>vs. bindE sleep (\<lambda>_. retE vs)) (r, w) = (Inl e, (r, w'))"
    using assms(2) by (simp add: bindE_def monitor_tick_cases refresh_ring_cases)
  then show ?thesis
    unfolding monitor_run_def monitor_loop_rounds[OF assms(1)]
    by (simp add: monitor_loop.simps[of _ _ _ ws])
qed

definition scan_fails :: "mem redis" where
  "scan_fails = mem_redis\<lparr>rd_scan := (\<lambda>p m. (Inl (LibError ''ConnectionError''), m))\<rparr>"

lemma monitor_ends_on_error_example:
  "monitor_run scan_fails (retE ()) None (ring_ab, mem_ab)
     = Some (Inl (LibError ''ConnectionError''), (ring_ab, mem_ab))"
proof -
  have scan: "list_workers scan_fails mem_ab = (Inl (LibError ''ConnectionError''), mem_ab)"
    by (simp add: list_workers_def scan_fails_def bindE_def)
  have start: "monitor_rounds scan_fails (retE ()) None 0 [] (ring_ab, mem_ab)
      = Some ([], (ring_ab, mem_ab))" by simp
  show ?thesis by (rule monitor_ends_on_error[OF start scan])
qed

end
