(* ===== verification/Lease.thy ===== *)
theory Lease
  imports Cluster Heartbeat
begin

text \<open>
  Heartbeats as leases: the model of time. \<open>now\<close> reads the clock of the server in milliseconds
  and \<open>dl w k\<close> is the time at which the key \<open>k\<close> expires; a key that has expired may be
  in \<open>dl\<close> still, but no scan returns it. \<open>redis_ttl\<close> is the documented behaviour of SET with
  EX, DEL and SCAN: a scan returns every key that is there during the whole of it, and none that is
  absent during the whole of it.

  \<open>HB_TTL_SECONDS\<close> of \<open>coordination/worker_registry.py\<close> is the length of the lease. The
  properties say how long a worker that beats stays on the ring, and how soon one that has died
  leaves the ring of \<open>orchestration/heartbeat.py\<close>'s monitor.
\<close>

definition lease_ms :: int where
  "lease_ms = 1000 * HB_TTL_SECONDS"

definition redis_ttl :: "'w redis \<Rightarrow> ('w \<Rightarrow> int) \<Rightarrow> ('w \<Rightarrow> string \<Rightarrow> int option) \<Rightarrow> bool" where
  "redis_ttl api now dl \<longleftrightarrow>
     (\<forall>k v t w w'. rd_set_ex api k v t w = (Inr (), w') \<longrightarrow>
        (\<exists>m. now w \<le> m \<and> m \<le> now w' \<and> dl w' = (dl w)(k \<mapsto> m + 1000 * t)))
   \<and> (\<forall>k w w'. rd_delete api k w = (Inr (), w') \<longrightarrow> now w \<le> now w' \<and> dl w' = (dl w)(k := None))
   \<and> (\<forall>c m w r w'. rd_publish api c m w = (r, w') \<longrightarrow> now w \<le> now w' \<and> dl w' = dl w)
   \<and> (\<forall>p w ks w'. rd_scan api p w = (Inr ks, w') \<longrightarrow> now w \<le> now w' \<and> dl w' = dl w
        \<and> (\<forall>k \<in> set ks. startswith k p \<and> (\<exists>d. dl w k = Some d \<and> now w < d))
        \<and> (\<forall>k d. startswith k p \<longrightarrow> dl w k = Some d \<longrightarrow> now w' < d \<longrightarrow> k \<in> set ks))"

lemma redis_ttl_set:
  assumes "redis_ttl api now dl" "rd_set_ex api k v t w = (Inr (), w')"
  obtains m where "now w \<le> m" "m \<le> now w'" "dl w' = (dl w)(k \<mapsto> m + 1000 * t)"
  using assms(1)[unfolded redis_ttl_def, THEN conjunct1] assms(2) that by metis

lemma redis_ttl_publish:
  "redis_ttl api now dl \<Longrightarrow> rd_publish api c m w = (r, w') \<Longrightarrow> now w \<le> now w' \<and> dl w' = dl w"
  unfolding redis_ttl_def by blast

lemma redis_ttl_delete:
  "redis_ttl api now dl \<Longrightarrow> rd_delete api k w = (Inr (), w') \<Longrightarrow> now w \<le> now w' \<and> dl w' = (dl w)(k := None)"
  unfolding redis_ttl_def by blast

lemma redis_ttl_scan:
  assumes "redis_ttl api now dl" "rd_scan api p w = (Inr ks, w')"
  shows "now w \<le> now w'" "dl w' = dl w"
    and "k \<in> set ks \<Longrightarrow> startswith k p \<and> (\<exists>d. dl w k = Some d \<and> now w < d)"
    and "startswith k p \<Longrightarrow> dl w k = Some d \<Longrightarrow> now w' < d \<Longrightarrow> k \<in> set ks"
  using assms unfolding redis_ttl_def by blast+

section \<open>Beats and scans\<close>

lemma heartbeat_lease:
  assumes "redis_ttl api now dl" "heartbeat api wid w = (Inr (), w')"
  obtains d where "dl w' = (dl w)(hb_key wid \<mapsto> d)" "now w + lease_ms \<le> d" "d \<le> now w' + lease_ms" "now w \<le> now w'"
proof -
  have "rd_set_ex api (hb_key wid) ''1'' HB_TTL_SECONDS w = (Inr (), w')"
    using assms(2) by (simp add: heartbeat_def)
  from redis_ttl_set[OF assms(1) this] obtain m where
    "now w \<le> m" "m \<le> now w'" "dl w' = (dl w)(hb_key wid \<mapsto> m + 1000 * HB_TTL_SECONDS)" by blast
  then show thesis by (intro that[of "m + lease_ms"]) (simp_all add: lease_ms_def)
qed

lemma register_lease:
  assumes "redis_ttl api now dl" "register api wid w = (Inr (), w')"
  shows "\<exists>d. dl w' = (dl w)(hb_key wid \<mapsto> d) \<and> now w \<le> now w'"
proof -
  obtain v where v: "rd_set_ex api (hb_key wid) ''1'' HB_TTL_SECONDS w = (Inr (), v)"
    "rd_publish api EVENTS_CHANNEL (''join:'' @ wid) v = (Inr (), w')"
    using assms(2) by (auto simp: register_def bindE_Inr_iff)
  from redis_ttl_set[OF assms(1) v(1)] obtain m where
    "now w \<le> m" "m \<le> now v" "dl v = (dl w)(hb_key wid \<mapsto> m + 1000 * HB_TTL_SECONDS)" by blast
  with redis_ttl_publish[OF assms(1) v(2)] show ?thesis by force
qed

lemma deregister_lease:
  assumes "redis_ttl api now dl" "deregister api wid w = (Inr (), w')"
  shows "dl w' = (dl w)(hb_key wid := None) \<and> now w \<le> now w'"
proof -
  obtain v where v: "rd_delete api (hb_key wid) w = (Inr (), v)"
    "rd_publish api EVENTS_CHANNEL (''leave:'' @ wid) v = (Inr (), w')"
    using assms(2) by (auto simp: deregister_def bindE_Inr_iff)
  show ?thesis using redis_ttl_delete[OF assms(1) v(1)] redis_ttl_publish[OF assms(1) v(2)] by auto
qed

lemma list_workers_lease:
  assumes "redis_ttl api now dl" "list_workers api w = (Inr ws, w')"
  shows "now w \<le> now w'" "dl w' = dl w"
    and "wid \<in> set ws \<Longrightarrow> \<exists>d. dl w (hb_key wid) = Some d \<and> now w < d"
    and "dl w (hb_key wid) = Some d \<Longrightarrow> now w' < d \<Longrightarrow> wid \<in> set ws"
proof -
  obtain ks where ks: "rd_scan api HB_KEY_PREFIX w = (Inr ks, w')"
    and ws: "ws = sort (map (drop (length HB_KEY_PREFIX)) ks)"
    using assms(2) by (auto simp: list_workers_def bindE_Inr_iff eff_simps)
  note scan = redis_ttl_scan[OF assms(1) ks]
  show "now w \<le> now w'" "dl w' = dl w" by (rule scan)+
  show "\<exists>d. dl w (hb_key wid) = Some d \<and> now w < d" if listed: "wid \<in> set ws"
  proof -
    obtain k where k: "k \<in> set ks" "wid = drop (length HB_KEY_PREFIX) k" using listed ws by auto
    then have "k = hb_key wid" using scan(3)[OF k(1)] by (auto simp: startswith_iff hb_key_def)
    with scan(3)[OF k(1)] show ?thesis by simp
  qed
  show "wid \<in> set ws" if "dl w (hb_key wid) = Some d" "now w' < d"
  proof -
    have "hb_key wid \<in> set ks" using scan(4)[OF _ that] by (simp add: startswith_iff hb_key_def)
    then have "drop (length HB_KEY_PREFIX) (hb_key wid) \<in> set ws" unfolding ws set_sort set_map by (rule imageI)
    then show ?thesis by simp
  qed
qed

section \<open>Leases in a cluster\<close>

text \<open>The commands on queues, the handlers and the environment leave the leases alone; time does not go back.\<close>

definition keeps_lease :: "('w \<Rightarrow> int) \<Rightarrow> ('w \<Rightarrow> string \<Rightarrow> int option) \<Rightarrow> ('w, 'a) eff \<Rightarrow> bool" where
  "keeps_lease now dl f \<longleftrightarrow> (\<forall>w r w'. f w = (r, w') \<longrightarrow> now w \<le> now w' \<and> dl w' = dl w)"

definition leases_apart ::
    "'w redis \<Rightarrow> ('w \<Rightarrow> 'w \<Rightarrow> bool) \<Rightarrow> (string \<Rightarrow> 'w worker) \<Rightarrow> ('w \<Rightarrow> int) \<Rightarrow> ('w \<Rightarrow> string \<Rightarrow> int option) \<Rightarrow> bool" where
  "leases_apart api env wk now dl \<longleftrightarrow>
     (\<forall>k v. keeps_lease now dl (rd_rpush api k v)) \<and> (\<forall>ops. keeps_lease now dl (rd_rpush_pipeline api ops))
   \<and> (\<forall>k. keeps_lease now dl (rd_blpop api k)) \<and> (\<forall>i t. keeps_lease now dl (handle (wk i) t))
   \<and> (\<forall>w w'. env w w' \<longrightarrow> now w \<le> now w' \<and> dl w' = dl w)"

lemma keeps_lease_D: "keeps_lease now dl f \<Longrightarrow> f w = (r, w') \<Longrightarrow> now w \<le> now w' \<and> dl w' = dl w"
  unfolding keeps_lease_def by blast

lemma keeps_lease_bindE:
  assumes "keeps_lease now dl f" "\<And>a. keeps_lease now dl (g a)"
  shows "keeps_lease now dl (bindE f g)"
  unfolding keeps_lease_def
proof (intro allI impI)
  fix w r w' assume run: "bindE f g w = (r, w')"
  obtain x v where x: "f w = (x, v)" by (cases "f w")
  show "now w \<le> now w' \<and> dl w' = dl w"
  proof (cases x)
    case (Inl e)
    with run x keeps_lease_D[OF assms(1) x] show ?thesis by (simp add: bindE_def)
  next
    case (Inr a)
    then have "g a v = (r, w')" using run x by (simp add: bindE_def)
    from keeps_lease_D[OF assms(2) this] keeps_lease_D[OF assms(1) x] show ?thesis by auto
  qed
qed

lemma keeps_lease_pure: "keeps_lease now dl (retE a)" "keeps_lease now dl (raiseE e)" "keeps_lease now dl (liftE x)"
  unfolding keeps_lease_def by (simp_all add: eff_simps)

lemma queue_ops_keep_lease:
  assumes "leases_apart api env wk now dl"
  shows "keeps_lease now dl (dispatch api dump r t)" "keeps_lease now dl (dispatch_many api dump r ts)"
    and "keeps_lease now dl (task_pop api validate wid)" "keeps_lease now dl (handle (wk i) t)"
  using assms unfolding leases_apart_def dispatch_def dispatch_many_def task_pop_def
  by (auto intro!: keeps_lease_bindE keeps_lease_pure split: option.splits prod.splits)

lemma step_lease:
  assumes "redis_ttl api now dl" "leases_apart api env wk now dl"
    and "cl_step api dump validate env wk s e s'" "e \<notin> {Beaten wid, Started wid, Departed wid}"
  shows "now (cl_world s) \<le> now (cl_world s') \<and> dl (cl_world s') (hb_key wid) = dl (cl_world s) (hb_key wid)"
proof -
  note keep = queue_ops_keep_lease[OF assms(2), THEN keeps_lease_D]
  from assms(3) show ?thesis
  proof cases
    case (step_refresh i ws r' w')
    then have "list_workers api (cl_world s) = (Inr ws, w')"
      by (auto simp: refresh_ring_cases split: prod.splits sum.splits)
    from list_workers_lease(1,2)[OF assms(1) this] step_refresh show ?thesis by simp
  next
    case (step_start v w')
    from register_lease[OF assms(1) step_start(4)] step_start assms(4) show ?thesis by auto
  next
    case (step_beat v w')
    from step_beat(4) obtain d where "dl w' = (dl (cl_world s))(hb_key v \<mapsto> d)" "now (cl_world s) \<le> now w'"
      by (rule heartbeat_lease[OF assms(1)])
    with step_beat assms(4) show ?thesis by auto
  next
    case (step_depart v w')
    from deregister_lease[OF assms(1) step_depart(5)] step_depart assms(4) show ?thesis by auto
  next
    case (step_elapse w')
    with assms(2) show ?thesis unfolding leases_apart_def by simp
  qed (auto dest: keep)
qed

lemma run_lease:
  assumes "redis_ttl api now dl" "leases_apart api env wk now dl" "cl_run api dump validate env wk s es s'"
    and "set es \<inter> {Beaten wid, Started wid, Departed wid} = {}"
  shows "now (cl_world s) \<le> now (cl_world s') \<and> dl (cl_world s') (hb_key wid) = dl (cl_world s) (hb_key wid)"
  using assms(3,4)
proof (induction rule: cl_run.induct)
  case (run_step s es s1 e s2)
  then have "e \<notin> {Beaten wid, Started wid, Departed wid}" by auto
  from step_lease[OF assms(1,2) run_step.hyps(2) this] run_step show ?case by auto
qed simp

section \<open>A server with a clock\<close>

text \<open>It has keys with leases only; the list commands answer with an error.\<close>

record timed =
  tm_now :: int
  tm_leases :: "(string, int) pydict"

definition timed_redis :: "timed redis" where
  "timed_redis =
    \<lparr>rd_ping = (\<lambda>m. (Inr True, m)),
     rd_set_ex = (\<lambda>k v t m. (Inr (), m\<lparr>tm_leases := dict_set (tm_leases m) k (tm_now m + 1000 * t)\<rparr>)),
     rd_delete = (\<lambda>k m. (Inr (), m\<lparr>tm_leases := dict_pop (tm_leases m) k\<rparr>)),
     rd_scan = (\<lambda>p m. (Inr (filter (\<lambda>k. startswith k p
          \<and> (case dict_get (tm_leases m) k of None \<Rightarrow> False | Some d \<Rightarrow> tm_now m < d)) (dict_keys (tm_leases m))), m)),
     rd_publish = (\<lambda>c d m. (Inr (), m)),
     rd_rpush = (\<lambda>k v m. (Inl (LibError ''READONLY''), m)),
     rd_rpush_pipeline = (\<lambda>ops m. (Inl (LibError ''READONLY''), m)),
     rd_blpop = (\<lambda>k m. (Inl (LibError ''READONLY''), m)),
     rd_llen = (\<lambda>k m. (Inl (LibError ''READONLY''), m))\<rparr>"

lemma timed_redis_ttl: "redis_ttl timed_redis tm_now (\<lambda>m. dict_get (tm_leases m))"
  unfolding redis_ttl_def
  by (auto simp: timed_redis_def dict_simps split: option.splits)

lemma timed_redis_simps [simp]:
  "rd_set_ex timed_redis k v t m = (Inr (), m\<lparr>tm_leases := dict_set (tm_leases m) k (tm_now m + 1000 * t)\<rparr>)"
  "rd_rpush timed_redis k v m = (Inl (LibError ''READONLY''), m)"
  "rd_rpush_pipeline timed_redis ops m = (Inl (LibError ''READONLY''), m)"
  "rd_blpop timed_redis k m = (Inl (LibError ''READONLY''), m)"
  by (simp_all add: timed_redis_def)

text \<open>In the environment of the witnesses time passes and nothing else changes.\<close>

definition time_passes :: "timed \<Rightarrow> timed \<Rightarrow> bool" where
  "time_passes m m' \<longleftrightarrow> tm_now m \<le> tm_now m' \<and> tm_leases m' = tm_leases m"

definition no_handlers :: "string \<Rightarrow> timed worker" where
  "no_handlers i = make_worker i None None"

lemma timed_apart: "leases_apart timed_redis time_passes no_handlers tm_now (\<lambda>m. dict_get (tm_leases m))"
  by (auto simp: leases_apart_def keeps_lease_def time_passes_def handle_def no_handlers_def make_worker_def
      dict_get_def retE_def)

section \<open>Properties\<close>

text \<open>
  C10: A heartbeat is a lease of ten seconds, whatever the other processes do meanwhile: after a
  beat of a worker, as long as it neither beats again nor leaves nor restarts, every ring
  refresh that ends within ten seconds from the start of the beat lists it, so that up to two of
  its beats, which are three seconds apart, may be missing; and no refresh that starts ten
  seconds after the beat or later does.
\<close>

theorem heartbeat_is_lease:
  assumes "redis_ttl api now dl" and "leases_apart api env wk now dl"
    and "cl_step api dump validate env wk s (Beaten wid) s1"
    and "cl_run api dump validate env wk s1 es s2" and "set es \<inter> {Beaten wid, Started wid, Departed wid} = {}"
    and "cl_step api dump validate env wk s2 (Refreshed ws) s3"
  shows "(now (cl_world s3) < now (cl_world s) + 1000 * HB_TTL_SECONDS \<longrightarrow> wid \<in> set ws)
    \<and> (now (cl_world s1) + 1000 * HB_TTL_SECONDS \<le> now (cl_world s2) \<longrightarrow> wid \<notin> set ws)
    \<and> 3 * HEARTBEAT_INTERVAL < HB_TTL_SECONDS"
proof -
  obtain w1 where "heartbeat api wid (cl_world s) = (Inr (), w1)" "cl_world s1 = w1"
    using assms(3) by cases simp
  then obtain d where d: "dl (cl_world s1) (hb_key wid) = Some d" "now (cl_world s) + lease_ms \<le> d"
    "d \<le> now (cl_world s1) + lease_ms"
    using heartbeat_lease[OF assms(1)] by (metis fun_upd_same)
  then have d2: "dl (cl_world s2) (hb_key wid) = Some d" using run_lease[OF assms(1,2,4,5)] by simp
  obtain w3 where scan: "list_workers api (cl_world s2) = (Inr ws, w3)" "cl_world s3 = w3"
    using assms(6) by cases (auto simp: refresh_ring_cases split: prod.splits sum.splits)
  note listed = list_workers_lease(3,4)[OF assms(1) scan(1)]
  show ?thesis
    using d d2 scan(2) listed(1)[of wid] listed(2)[OF d2]
    by (auto simp: lease_ms_def HB_TTL_SECONDS_def HEARTBEAT_INTERVAL_def)
qed

definition timed_cluster :: "timed \<Rightarrow> timed cluster" where
  "timed_cluster m = \<lparr>cl_world = m, cl_rings = (\<lambda>i. ring_ab), cl_up = {''a''}, cl_busy = Map.empty\<rparr>"

definition beaten_at_0 :: "int \<Rightarrow> timed" where
  "beaten_at_0 t = \<lparr>tm_now = t, tm_leases = [(hb_key ''a'', 10000)]\<rparr>"

abbreviation timed_step :: "timed cluster \<Rightarrow> event \<Rightarrow> timed cluster \<Rightarrow> bool" where
  "timed_step \<equiv> cl_step timed_redis dump_task validate_task time_passes no_handlers"

lemma timed_beat: "timed_step (timed_cluster \<lparr>tm_now = 0, tm_leases = []\<rparr>) (Beaten ''a'') (timed_cluster (beaten_at_0 0))"
proof -
  have "heartbeat timed_redis ''a'' \<lparr>tm_now = 0, tm_leases = []\<rparr> = (Inr (), beaten_at_0 0)"
    by (simp add: heartbeat_def beaten_at_0_def HB_TTL_SECONDS_def dict_set_def)
  then show ?thesis
    using step_beat[where s = "timed_cluster \<lparr>tm_now = 0, tm_leases = []\<rparr>" and wid = "''a''"]
    by (fastforce simp: timed_cluster_def)
qed

lemma timed_wait:
  "0 \<le> t \<Longrightarrow> cl_run timed_redis dump_task validate_task time_passes no_handlers
     (timed_cluster (beaten_at_0 0)) ([] @ [Elapsed]) (timed_cluster (beaten_at_0 t))"
  using step_elapse[where s = "timed_cluster (beaten_at_0 0)" and env = time_passes and w' = "beaten_at_0 t"]
  by (intro run_step[OF run_refl]) (simp add: timed_cluster_def beaten_at_0_def time_passes_def)

lemma timed_refresh:
  obtains ws s3 where "timed_step (timed_cluster (beaten_at_0 t)) (Refreshed ws) s3" "tm_now (cl_world s3) = t"
proof -
  obtain ws where "list_workers timed_redis (beaten_at_0 t) = (Inr ws, beaten_at_0 t)"
    by (simp add: list_workers_def timed_redis_def bindE_def retE_def)
  then have "refresh_ring timed_redis (ring_ab, beaten_at_0 t) = (Inr ws, (replace_workers ring_ab ws, beaten_at_0 t))"
    by (simp add: refresh_ring_cases)
  then show thesis
    using step_refresh[where s = "timed_cluster (beaten_at_0 t)" and i = 0]
    by (intro that) (fastforce simp: timed_cluster_def, simp add: beaten_at_0_def)
qed

theorem heartbeat_is_lease_witness:
  "(\<exists>ws s3. timed_step (timed_cluster (beaten_at_0 9999)) (Refreshed ws) s3 \<and> ''a'' \<in> set ws)
   \<and> (\<exists>ws s3. timed_step (timed_cluster (beaten_at_0 10000)) (Refreshed ws) s3 \<and> ''a'' \<notin> set ws)"
proof -
  have world: "tm_now (cl_world (timed_cluster (beaten_at_0 t))) = t" for t
    by (simp add: timed_cluster_def beaten_at_0_def)
  have start: "tm_now (cl_world (timed_cluster \<lparr>tm_now = 0, tm_leases = []\<rparr>)) = 0" by (simp add: timed_cluster_def)
  note lease = heartbeat_is_lease[OF timed_redis_ttl timed_apart timed_beat timed_wait]
  obtain ws s3 where a: "timed_step (timed_cluster (beaten_at_0 9999)) (Refreshed ws) s3" "tm_now (cl_world s3) = 9999"
    by (rule timed_refresh)
  obtain ws' s3' where b: "timed_step (timed_cluster (beaten_at_0 10000)) (Refreshed ws') s3'"
    by (rule timed_refresh)
  have "''a'' \<in> set ws"
    using lease[OF _ _ a(1)] a(2) start by (simp add: HB_TTL_SECONDS_def)
  moreover have "''a'' \<notin> set ws'"
    using lease[OF _ _ b] world by (simp add: HB_TTL_SECONDS_def)
  ultimately show ?thesis using a(1) b by blast
qed

text \<open>A rebuilt ring has only listed workers, also when positions collide.\<close>

lemma replace_members_listed: "ring_members (replace_workers r ws) \<subseteq> set ws"
proof -
  have "ring_members (fold (\<lambda>w r. add_worker r w) ws r') \<subseteq> ring_members r' \<union> set ws" for r'
  proof (induction ws arbitrary: r')
    case (Cons w ws)
    have "ring_members (add_worker r' w) \<subseteq> insert w (ring_members r')"
      by (auto simp: ring_members_def ran_def view_add split: if_splits)
    with Cons[of "add_worker r' w"] show ?case by auto
  qed simp
  from this[of "ring_init (virtual_nodes r)"] show ?thesis
    by (simp add: replace_workers_eq_adds ring_members_def view_init)
qed

lemma replace_not_listed:
  assumes "wid \<notin> set ws"
  shows "wid \<notin> set (workers (replace_workers r ws))" "get_worker (replace_workers r ws) key \<noteq> Inr (Some wid)"
proof -
  have out: "wid \<notin> ring_members (replace_workers r ws)" using replace_members_listed assms by blast
  then show "wid \<notin> set (workers (replace_workers r ws))" by (simp add: set_workers)
  show "get_worker (replace_workers r ws) key \<noteq> Inr (Some wid)"
    using ring.route_member[of "replace_workers r ws" key wid] out by auto
qed

text \<open>One round of the monitor, and what all rounds keep.\<close>

abbreviation monitor_round where
  "monitor_round api sleep on_change ws \<equiv> bindE (monitor_tick api on_change ws) (\<lambda>vs. bindE sleep (\<lambda>_. retE vs))"

lemma monitor_rounds_last:
  "monitor_rounds api sleep on_change (Suc n) ws s = Some (vs, s') \<Longrightarrow>
     \<exists>us s1. monitor_rounds api sleep on_change n ws s = Some (us, s1)
       \<and> monitor_round api sleep on_change us s1 = (Inr vs, s')"
proof (induction n arbitrary: ws s)
  case 0
  then show ?case by (auto split: prod.splits sum.splits)
next
  case (Suc n)
  from Suc.prems obtain us s1 where 1: "monitor_round api sleep on_change ws s = (Inr us, s1)"
    and "monitor_rounds api sleep on_change (Suc n) us s1 = Some (vs, s')"
    by (simp only: monitor_rounds.simps(2)) (auto split: prod.splits sum.splits simp del: monitor_rounds.simps)
  from Suc.IH[OF this(2)] 1 show ?case by simp
qed

lemma monitor_rounds_keep:
  assumes "monitor_rounds api sleep on_change n ws s = Some (vs, s')" "I s"
    and "\<And>us u v vs. I u \<Longrightarrow> monitor_round api sleep on_change us u = (Inr vs, v) \<Longrightarrow> I v"
  shows "I s'"
  using assms(1,2)
proof (induction n arbitrary: ws s)
  case (Suc n)
  then show ?case using assms(3) by (fastforce split: prod.splits sum.splits)
qed simp

text \<open>The callback and the sleep are where other processes act: they must not touch the ring or the lease.\<close>

definition hands_off :: "('w \<Rightarrow> string \<Rightarrow> int option) \<Rightarrow> string \<Rightarrow> (hash_ring \<times> 'w, unit) eff \<Rightarrow> bool" where
  "hands_off dl wid f \<longleftrightarrow> (\<forall>s s'. f s = (Inr (), s') \<longrightarrow>
     fst s' = fst s \<and> dl (snd s') (hb_key wid) = dl (snd s) (hb_key wid))"

lemma monitor_round_steps:
  assumes "redis_ttl api now dl" "\<And>ws. hands_off dl wid (notify on_change ws)" "hands_off dl wid sleep"
    and "monitor_round api sleep on_change us s = (Inr vs, s')"
  obtains w1 where "list_workers api (snd s) = (Inr vs, w1)" "fst s' = replace_workers (fst s) vs"
    "dl (snd s') (hb_key wid) = dl (snd s) (hb_key wid)"
proof -
  obtain r w where s: "s = (r, w)" by (cases s)
  obtain s1 where tick: "monitor_tick api on_change us s = (Inr vs, s1)" and sleep: "sleep s1 = (Inr (), s')"
    using assms(4) by (auto simp: bindE_Inr_iff eff_simps)
  obtain w1 where scan: "list_workers api w = (Inr vs, w1)"
    and s1: "s1 = (replace_workers r vs, w1) \<or> notify on_change vs (replace_workers r vs, w1) = (Inr (), s1)"
    using tick unfolding s monitor_tick_cases refresh_ring_cases
    by (auto split: prod.splits sum.splits if_splits)
  have "fst s1 = replace_workers r vs \<and> dl (snd s1) (hb_key wid) = dl w1 (hb_key wid)"
    using s1 assms(2)[of vs] unfolding hands_off_def by fastforce
  moreover have "dl w1 = dl w" by (rule list_workers_lease(2)[OF assms(1) scan])
  moreover have "fst s' = fst s1 \<and> dl (snd s') (hb_key wid) = dl (snd s1) (hb_key wid)"
    using assms(3) sleep unfolding hands_off_def by blast
  ultimately show thesis using that[of w1] scan s by simp
qed

text \<open>
  C11: A dead worker leaves the ring in bounded time: when the last beat of a worker is over and each
  round of the monitor (scan, callback and sleep) takes at most \<open>P\<close> milliseconds, then from ten
  seconds and \<open>P\<close> after the beat on, no round of the monitor leaves it on the ring or in the
  list, and no key is routed to it.
\<close>

theorem monitor_evicts:
  assumes "redis_ttl api now dl" and "\<And>ws. hands_off dl wid (notify on_change ws)" and "hands_off dl wid sleep"
    and "\<And>us s vs s'. bindE (monitor_tick api on_change us) (\<lambda>vs. bindE sleep (\<lambda>_. retE vs)) s = (Inr vs, s')
      \<Longrightarrow> now (snd s') \<le> now (snd s) + P"
    and "heartbeat api wid u = (Inr (), w0)"
    and "monitor_rounds api sleep on_change (Suc n) ws0 (r0, w0) = Some (ws, (r, w))"
    and "now w0 + 1000 * HB_TTL_SECONDS + P \<le> now w"
  shows "wid \<notin> set ws \<and> wid \<notin> set (workers r) \<and> get_worker r key \<noteq> Inr (Some wid)"
proof -
  obtain d where d: "dl w0 (hb_key wid) = Some d" "d \<le> now w0 + lease_ms"
    using heartbeat_lease[OF assms(1,5)] by (metis fun_upd_same)
  obtain us s1 where rounds: "monitor_rounds api sleep on_change n ws0 (r0, w0) = Some (us, s1)"
    and last: "monitor_round api sleep on_change us s1 = (Inr ws, (r, w))"
    using monitor_rounds_last[OF assms(6)] by blast
  note steps = monitor_round_steps[OF assms(1-3)]
  have "dl (snd s1) (hb_key wid) = Some d"
    by (rule monitor_rounds_keep[OF rounds, where I = "\<lambda>s. dl (snd s) (hb_key wid) = Some d"])
      (use d(1) in simp, metis steps)
  moreover obtain w1 where scan: "list_workers api (snd s1) = (Inr ws, w1)" and r: "r = replace_workers (fst s1) ws"
    using steps[OF last] by (metis fst_conv)
  moreover have "d \<le> now (snd s1)"
    using assms(4)[OF last] assms(7) d(2) by (simp add: lease_ms_def)
  ultimately have "wid \<notin> set ws" using list_workers_lease(3)[OF assms(1) scan, of wid] by auto
  with replace_not_listed[of wid ws] r show ?thesis by simp
qed

definition timed_sleep :: "(hash_ring \<times> timed, unit) eff" where
  "timed_sleep s = (Inr (), (fst s, (snd s)\<lparr>tm_now := tm_now (snd s) + 5000\<rparr>))"

lemma timed_round:
  "monitor_round timed_redis timed_sleep None us (r, beaten_at_0 t)
     = (Inr (if t < 10000 then [''a''] else []),
        (replace_workers r (if t < 10000 then [''a''] else []), beaten_at_0 (t + 5000)))"
proof -
  have "list_workers timed_redis (beaten_at_0 t) = (Inr (if t < 10000 then [''a''] else []), beaten_at_0 t)"
    by (simp add: list_workers_def timed_redis_def bindE_def retE_def beaten_at_0_def dict_keys_def dict_get_def
        startswith_iff hb_key_def HB_KEY_PREFIX_def)
  then have "monitor_tick timed_redis None us (r, beaten_at_0 t) = (Inr (if t < 10000 then [''a''] else []),
      (replace_workers r (if t < 10000 then [''a''] else []), beaten_at_0 t))"
    unfolding monitor_tick_cases refresh_ring_cases notify_def by (simp add: eff_simps)
  then show ?thesis by (simp add: bindE_def timed_sleep_def retE_def beaten_at_0_def)
qed

theorem monitor_evicts_witness:
  "\<exists>r. monitor_rounds timed_redis timed_sleep None 3 [] (ring_ab, beaten_at_0 0) = Some ([], (r, beaten_at_0 15000))
     \<and> ''a'' \<notin> set (workers r) \<and> get_worker r ''k'' \<noteq> Inr (Some ''a'')"
proof -
  obtain r where run: "monitor_rounds timed_redis timed_sleep None (Suc 2) [] (ring_ab, beaten_at_0 0)
      = Some ([], (r, beaten_at_0 15000))"
    by (simp add: numeral_2_eq_2 timed_round)
  have beat: "heartbeat timed_redis ''a'' \<lparr>tm_now = 0, tm_leases = []\<rparr> = (Inr (), beaten_at_0 0)"
    by (simp add: heartbeat_def beaten_at_0_def HB_TTL_SECONDS_def dict_set_def)
  have off: "hands_off (\<lambda>m. dict_get (tm_leases m)) ''a'' (notify None ws)"
    "hands_off (\<lambda>m. dict_get (tm_leases m)) ''a'' timed_sleep" for ws :: "string list"
    by (simp_all add: hands_off_def notify_def retE_def timed_sleep_def)
  have time: "tm_now (snd s') \<le> tm_now (snd s) + 5000"
    if "monitor_round timed_redis timed_sleep None us s = (Inr vs, s')" for us s vs s'
    using that by (cases s) (auto simp: bindE_Inr_iff eff_simps timed_sleep_def monitor_tick_cases refresh_ring_cases
        notify_def list_workers_def timed_redis_def split: if_splits)
  have "tm_now (beaten_at_0 0) + 1000 * HB_TTL_SECONDS + 5000 \<le> tm_now (beaten_at_0 15000)"
    by (simp add: beaten_at_0_def HB_TTL_SECONDS_def)
  from monitor_evicts[OF timed_redis_ttl off time beat run this] run show ?thesis
    by (simp add: numeral_3_eq_3 numeral_2_eq_2)
qed

end
