(* ===== verification/Ingest_Index.thy ===== *)
theory Ingest_Index
  imports Ingest
begin

text \<open>
  The ingestion handler with the local vector index of \<open>ingestion/pinecone_writer.py\<close>: the
  order of its steps (vectors before rows) keeps every clause row findable in the index, also
  when a step fails.
\<close>

section \<open>The ids of the index under any upsert\<close>

definition index_ids :: "'f local_index \<Rightarrow> string set" where
  "index_ids ix = entry_id ` set (manifest ix)"

lemma ids_existing_snoc: "ids_existing (m @ [e]) = dict_set (ids_existing m) (entry_id e) (length m)"
  by (simp add: ids_existing_def enumerate_append_eq)

lemma ids_existing_Some: "dict_get (ids_existing m) x = Some i \<Longrightarrow> i < length m \<and> entry_id (m ! i) = x"
proof (induction m rule: rev_induct)
  case (snoc e m)
  then show ?case
    by (cases "x = entry_id e") (auto simp: ids_existing_snoc dict_simps nth_append)
qed (simp add: ids_existing_def dict_simps)

lemma upsert_step_ids:
  assumes "upsert_step np (ids_existing m0) r new ix = (res, ix')" "map entry_id (manifest ix) = map entry_id m0"
  shows "map entry_id (manifest ix') = map entry_id m0
    \<and> (\<forall>new'. res = Inr new' \<longrightarrow> set (snd new) \<subseteq> set (snd new') \<and> rec_id r \<in> entry_id ` (set m0 \<union> set (snd new'))
        \<and> length (fst new') + length (snd new) = length (fst new) + length (snd new'))"
proof (cases "dict_get (ids_existing m0) (rec_id r)")
  case None
  with assms show ?thesis by (auto simp: upsert_step_def)
next
  case (Some i)
  then have i: "i < length m0" "entry_id (m0 ! i) = rec_id r" by (simp_all add: ids_existing_Some)
  have "(map entry_id m0)[i := rec_id r] = map entry_id m0"
    using i by (metis length_map list_update_id nth_map)
  moreover have "rec_id r \<in> entry_id ` set m0" using i by (metis imageI nth_mem)
  moreover have "manifest ix1 = manifest ix" if "set_row i v ix = Inr ix1" for v ix1
    using that by (auto simp: set_row_def split: if_splits)
  ultimately show ?thesis
    using assms Some by (auto simp: upsert_step_def map_update split: sum.splits)
qed

lemma upsert_loop_ids:
  "loopE (upsert_step np (ids_existing m0)) rs new ix = (res, ix') \<Longrightarrow>
     map entry_id (manifest ix) = map entry_id m0 \<Longrightarrow>
   map entry_id (manifest ix') = map entry_id m0
    \<and> (\<forall>new'. res = Inr new' \<longrightarrow> set (snd new) \<subseteq> set (snd new') \<and> rec_id ` set rs \<subseteq> entry_id ` (set m0 \<union> set (snd new'))
        \<and> length (fst new') + length (snd new) = length (fst new) + length (snd new'))"
proof (induction rs arbitrary: new ix)
  case Nil
  then show ?case by auto
next
  case (Cons r rs)
  obtain s ix1 where step: "upsert_step np (ids_existing m0) r new ix = (s, ix1)" by (metis surj_pair)
  note one = upsert_step_ids[OF step Cons.prems(2)]
  show ?case
  proof (cases s)
    case (Inl x)
    with Cons.prems(1) step one show ?thesis by auto
  next
    case (Inr new1)
    with Cons.prems(1) step have "loopE (upsert_step np (ids_existing m0)) rs new1 ix1 = (res, ix')" by simp
    moreover have keys: "map entry_id (manifest ix1) = map entry_id m0"
      and new1: "set (snd new) \<subseteq> set (snd new1)" "rec_id r \<in> entry_id ` (set m0 \<union> set (snd new1))"
        "length (fst new1) + length (snd new) = length (fst new) + length (snd new1)"
      using one Inr by blast+
    ultimately have IH: "map entry_id (manifest ix') = map entry_id m0"
      "\<And>new'. res = Inr new' \<Longrightarrow> set (snd new1) \<subseteq> set (snd new')
        \<and> rec_id ` set rs \<subseteq> entry_id ` (set m0 \<union> set (snd new'))
        \<and> length (fst new') + length (snd new1) = length (fst new1) + length (snd new')"
      using Cons.IH by blast+
    show ?thesis
    proof (intro conjI allI impI)
      show "map entry_id (manifest ix') = map entry_id m0" by (rule IH(1))
      fix new' assume "res = Inr new'"
      note new' = IH(2)[OF this]
      show "set (snd new) \<subseteq> set (snd new')" using new1(1) new' by blast
      show "rec_id ` set (r # rs) \<subseteq> entry_id ` (set m0 \<union> set (snd new'))" using new1(2) new' by auto
      show "length (fst new') + length (snd new) = length (fst new) + length (snd new')"
        using new1(3) new' by linarith
    qed
  qed
qed

lemma local_upsert_ids:
  assumes "local_upsert np rs (ix, dk) = (r, (ix', dk'))"
  shows "index_ids ix \<subseteq> index_ids ix' \<and> (r = Inr () \<longrightarrow> rec_id ` set rs \<subseteq> index_ids ix')"
proof -
  obtain res ix1 where loop: "loopE (upsert_step np (ids_existing (manifest ix))) rs ([], []) ix = (res, ix1)"
    by (metis surj_pair)
  note ids = upsert_loop_ids[OF loop refl]
  then have same: "entry_id ` set (manifest ix1) = entry_id ` set (manifest ix)" by (metis list.set_map)
  show ?thesis
  proof (cases res)
    case (Inl x)
    with assms loop same show ?thesis by (auto simp: local_upsert_def index_ids_def)
  next
    case (Inr new)
    obtain nv ne where new: "new = (nv, ne)" by (cases new)
    with Inr ids have "rec_id ` set rs \<subseteq> entry_id ` (set (manifest ix) \<union> set ne)" "length nv = length ne" by auto
    with assms loop same Inr new show ?thesis
      by (auto simp: local_upsert_def index_ids_def append_block_def image_Un
          split: if_splits sum.splits)
  qed
qed

section \<open>The handler on the local index\<close>

definition rows_indexed :: "tables \<Rightarrow> 'f local_index \<Rightarrow> bool" where
  "rows_indexed t ix \<longleftrightarrow> (\<forall>r \<in> set (clause_rows t). \<forall>v. cr_vector_id r = Some v \<longrightarrow> v \<in> index_ids ix)"

lemma rows_indexed_mono: "rows_indexed t ix \<Longrightarrow> index_ids ix \<subseteq> index_ids ix' \<Longrightarrow> rows_indexed t ix'"
  unfolding rows_indexed_def by blast

lemma rows_indexed_insert:
  "rows_indexed t ix \<Longrightarrow> clause_id c \<in> index_ids ix \<Longrightarrow> rows_indexed (insert_row cid now c t) ix"
  by (auto simp: rows_indexed_def insert_row_def upsert_clause_def)

lemma rows_indexed_fold:
  "rows_indexed t ix \<Longrightarrow> clause_id ` set cs \<subseteq> index_ids ix \<Longrightarrow> rows_indexed (fold (insert_row cid now) cs t) ix"
  by (induction cs arbitrary: t) (simp_all add: rows_indexed_insert)

lemma contract_record_ids:
  "length vs = length cs \<Longrightarrow> map rec_id (map (contract_record cid) (zip cs vs)) = map clause_id cs"
  by (induction vs cs rule: list_induct2) (simp_all add: contract_record_def)

lemma keepsE_on_db: "keepsE (\<lambda>w. J (fst w)) (on_db f)"
  unfolding keepsE_def on_db_def by (auto split: prod.splits)

lemma keepsE_on_env: "keepsE J f \<Longrightarrow> keepsE (\<lambda>w. J (fst w)) (on_env f)"
  unfolding keepsE_def on_env_def by (auto split: prod.splits)

lemma keepsE_ingest_clauses:
  "(\<And>ts. keepsE J (emb ts)) \<Longrightarrow> (\<And>rs. keepsE J (ups rs)) \<Longrightarrow>
     keepsE (\<lambda>w. J (fst w)) (ingest_clauses emb ups now cid cs)"
  unfolding ingest_clauses_def by (intro keepsE_intros keepsE_on_env keepsE_on_db) blast+

lemma keepsE_handle_ingest:
  assumes "\<And>ts. keepsE J (emb ts)" "\<And>rs. keepsE J (ups rs)"
  shows "keepsE (\<lambda>w. J (fst w)) (handle_ingest_contract emb ups now t)"
  unfolding handle_ingest_contract_def
  by (auto intro!: keepsE_intros keepsE_on_db keepsE_ingest_clauses assms split: prod.splits)

section \<open>Property\<close>

text \<open>
  C26: No clause row without its vector: when every row's vector id is in the local index, this
  is so after an ingestion task, whether it succeeds or fails at whatever step. It needs an
  embedder that returns one vector for each text.
\<close>

theorem rows_stay_indexed:
  fixes ix :: "'f local_index" and dk :: "'f disk"
  assumes "\<And>ts s r s'. emb ts s = (r, s') \<Longrightarrow> s' = s \<and> (\<forall>vs. r = Inr vs \<longrightarrow> length vs = length ts)"
    and "rows_indexed (db_tables d) ix"
    and "handle_ingest_contract emb (local_upsert np) now (ingest_task c) ((ix, dk), d) = (r, ((ix', dk'), d'))"
  shows "rows_indexed (db_tables d') ix'"
proof -
  let ?J = "\<lambda>s :: 'f local_index \<times> 'f disk. index_ids ix \<subseteq> index_ids (fst s)"
  have "keepsE ?J (emb ts)" for ts
    using assms(1) unfolding keepsE_def by blast
  moreover have "keepsE ?J (local_upsert np rs)" for rs
    using local_upsert_ids unfolding keepsE_def by fastforce
  ultimately have "keepsE (\<lambda>w. ?J (fst w)) (handle_ingest_contract emb (local_upsert np) now (ingest_task c))"
    by (rule keepsE_handle_ingest)
  from keepsE_D[OF this _ assms(3)] have grows: "index_ids ix \<subseteq> index_ids ix'" by simp
  show ?thesis
  proof (cases r)
    case (Inl x)
    from handle_ingest_fails[OF assms(3)[unfolded Inl]]
    have "clause_rows (db_tables d') = clause_rows (db_tables d)" by auto
    then show ?thesis
      using rows_indexed_mono[OF assms(2) grows] by (simp add: rows_indexed_def)
  next
    case (Inr out)
    obtain d1 where d1: "db_tables d1 = upsert_contract (contract_id c) (filename c) now (db_tables d)"
      and run: "clauses c = [] \<and> (ix', dk') = (ix, dk) \<and> d' = d1
        \<or> clauses c \<noteq> [] \<and> (\<exists>vs e1. emb (map clause_text (clauses c)) (ix, dk) = (Inr vs, e1)
             \<and> local_upsert np (map (contract_record (contract_id c)) (zip (clauses c) vs)) e1 = (Inr (), (ix', dk'))
             \<and> db_tables d' = fold (insert_row (contract_id c) now) (clauses c) (db_tables d1))"
      by (rule handle_ingest_steps[OF assms(3)[unfolded Inr]])
    have rows: "rows_indexed (db_tables d1) ix'"
      using rows_indexed_mono[OF assms(2) grows] by (simp add: rows_indexed_def d1)
    show ?thesis
    proof (cases "clauses c = []")
      case True
      with run rows show ?thesis by simp
    next
      case False
      with run obtain vs e1 where "emb (map clause_text (clauses c)) (ix, dk) = (Inr vs, e1)"
        and ups: "local_upsert np (map (contract_record (contract_id c)) (zip (clauses c) vs)) e1 = (Inr (), (ix', dk'))"
        and d': "db_tables d' = fold (insert_row (contract_id c) now) (clauses c) (db_tables d1)" by blast
      with assms(1) have "e1 = (ix, dk)" "length vs = length (clauses c)" by fastforce+
      then have "rec_id ` set (map (contract_record (contract_id c)) (zip (clauses c) vs)) = clause_id ` set (clauses c)"
        using contract_record_ids[of vs "clauses c" "contract_id c"] by (metis list.set_map)
      with local_upsert_ids[of np _ ix dk "Inr ()" ix' dk'] ups \<open>e1 = (ix, dk)\<close>
      have "clause_id ` set (clauses c) \<subseteq> index_ids ix'" by metis
      then show ?thesis unfolding d' by (rule rows_indexed_fold[OF rows])
    qed
  qed
qed

text \<open>The run of a small contract on an empty index whose last session fails.\<close>

definition unit_embed :: "string list \<Rightarrow> ('w, int list list) eff" where
  "unit_embed ts s = (Inr (map (\<lambda>t. [1, 0]) ts), s)"

definition empty_index :: "int local_index" where
  "empty_index = \<lparr>vec_dim = 2, vectors = [], manifest = []\<rparr>"

definition index_run :: "exc option list \<Rightarrow> (exc + string \<times> nat) \<times> ((int local_index \<times> int disk) \<times> db)" where
  "index_run faults = handle_ingest_contract unit_embed (local_upsert int_numpy) 7 (ingest_task demo_contract)
     ((empty_index, no_disk), empty_db faults)"

lemma index_run_rows:
  "map cr_vector_id (clause_rows (db_tables (snd (snd (index_run []))))) = [Some ''i'']"
  "clause_rows (db_tables (snd (snd (index_run demo_faults)))) = []"
  "map entry_id (manifest (fst (fst (snd (index_run demo_faults))))) = [''i'']"
  by code_simp+

theorem rows_stay_indexed_witness:
  "rows_indexed (db_tables (snd (snd (index_run [])))) (fst (fst (snd (index_run []))))
   \<and> clause_rows (db_tables (snd (snd (index_run [])))) \<noteq> []"
proof -
  have emb: "unit_embed ts s = (r, s') \<Longrightarrow> s' = s \<and> (\<forall>vs. r = Inr vs \<longrightarrow> length vs = length ts)" for ts s r s'
    by (auto simp: unit_embed_def)
  have start: "rows_indexed (db_tables (empty_db [])) empty_index"
    by (simp add: rows_indexed_def empty_db_def)
  obtain r ix dk d where run: "index_run [] = (r, ((ix, dk), d))" by (metis surj_pair)
  have "rows_indexed (db_tables d) ix"
    by (rule rows_stay_indexed[OF _ start run[unfolded index_run_def]]) (rule emb)
  moreover have "clause_rows (db_tables (snd (snd (index_run [])))) \<noteq> []"
    using index_run_rows(1) by auto
  ultimately show ?thesis by (simp add: run)
qed

end
