(* ===== verification/Index_Processes.thy ===== *)
theory Index_Processes
  imports Ingest_Index
begin

text \<open>
  The local index (\<open>LocalNumpyIndex\<close> of \<open>ingestion/pinecone_writer.py\<close>) when more than one process
  works on its files, or one dies while it writes them. A process reads the files once, when it
  opens the index, and every upsert writes both files from the index in its memory, first
  the vectors and then the manifest.
\<close>

definition save_vectors :: "'f local_index \<Rightarrow> 'f disk \<Rightarrow> 'f disk" where
  "save_vectors ix d = d\<lparr>vectors_file := Some (vec_dim ix, vectors ix)\<rparr>"

definition write_manifest :: "'f local_index \<Rightarrow> 'f disk \<Rightarrow> 'f disk" where
  "write_manifest ix d = d\<lparr>manifest_file := Some (json_dumps (JList (map entry_json (manifest ix))))\<rparr>"

text \<open>\<open>write_text\<close> opens the file, which empties it, and then writes.\<close>

definition truncate_manifest :: "'f disk \<Rightarrow> 'f disk" where
  "truncate_manifest d = d\<lparr>manifest_file := Some []\<rparr>"

lemma persist_steps: "persist ix d = write_manifest ix (truncate_manifest (save_vectors ix d))"
  by (simp add: persist_def write_manifest_def save_vectors_def truncate_manifest_def)

text \<open>
  A process that dies between the two steps of \<open>write_text\<close> leaves files that no process can open
  any more: the constructor raises until somebody removes them.
\<close>

lemma empty_manifest_blocks: "init_index k (truncate_manifest (save_vectors ix d)) = Inl JSONDecodeError"
proof -
  have "json_loads [] = Inl JSONDecodeError" by code_simp
  then show ?thesis by (simp add: init_index_def truncate_manifest_def save_vectors_def bindX_def)
qed

text \<open>The metadata of an index that the program writes is JSON with distinct keys.\<close>

definition metadata_ok :: "'f local_index \<Rightarrow> bool" where
  "metadata_ok ix \<longleftrightarrow> (\<forall>e \<in> set (manifest ix). json_ok (JObj (entry_metadata e)))"

definition records_ok :: "'n vec_record list \<Rightarrow> bool" where
  "records_ok rs \<longleftrightarrow> (\<forall>r \<in> set rs. json_ok (JObj (entry_metadata (record_entry r))))"

lemma open_files:
  assumes "vectors_file d = Some (n, vs)" "manifest_file d = manifest_file (persist ix d')" "metadata_ok ix"
  shows "init_index k d = Inr \<lparr>vec_dim = n, vectors = vs, manifest = manifest ix\<rparr>"
proof -
  have "json_ok (JList (map entry_json (manifest ix)))"
    using assms(3) unfolding metadata_ok_def by (rule json_ok_manifest)
  with loads_dumps[OF this] loopX_json_entry[of "manifest ix" "[]"] assms(1,2) show ?thesis
    by (simp add: init_index_def persist_def)
qed

lemma open_persisted: "metadata_ok ix \<Longrightarrow> init_index k (persist ix d) = Inr ix"
  using open_files[where d = "persist ix d" and n = "vec_dim ix" and vs = "vectors ix" and d' = d and ix = ix and k = k] by (cases ix) (simp add: persist_def)

lemma upsert_metadata_ok:
  assumes "index_ok ix'" "index_view ix' = index_view ix ++ map_of (map (record_view np) rs)"
    and "index_ok ix" "metadata_ok ix" "records_ok rs"
  shows "metadata_ok ix'"
  unfolding metadata_ok_def
proof
  fix e assume "e \<in> set (manifest ix')"
  then obtain i where "i < length (manifest ix')" "manifest ix' ! i = e" by (auto simp: in_set_conv_nth)
  then have "index_view ix' (entry_id e) = Some (vectors ix' ! i, entry_metadata e)"
    using index_view_nth[OF assms(1)] by metis
  then consider "map_of (map (record_view np) rs) (entry_id e) = Some (vectors ix' ! i, entry_metadata e)"
    | "index_view ix (entry_id e) = Some (vectors ix' ! i, entry_metadata e)"
    unfolding assms(2) by (auto simp: map_add_Some_iff)
  then show "json_ok (JObj (entry_metadata e))"
  proof cases
    case 1
    then obtain r where "r \<in> set rs" "entry_metadata e = entry_metadata (record_entry r)"
      by (auto dest!: map_of_SomeD simp: record_view_def)
    with assms(5) show ?thesis unfolding records_ok_def by simp
  next
    case 2
    then have "(vectors ix' ! i, entry_metadata e) \<in> set (zip (vectors ix) (map entry_metadata (manifest ix)))"
      unfolding index_view_def by (metis map_of_SomeD set_zip_rightD zip_map_fst_snd in_set_zipE)
    then have "entry_metadata e \<in> set (map entry_metadata (manifest ix))" by (rule set_zip_rightD)
    with assms(4) show ?thesis unfolding metadata_ok_def by (auto simp del: json_ok.simps)
  qed
qed

section \<open>Properties\<close>

text \<open>
  C32: Two processes that opened the same files of the local index overwrite each other: whatever
  the first one stores is gone from the files as soon as the second one stores anything.
  The files then hold the entries both started with and the batch of the second, and every
  entry that the first had added is lost, although both upserts succeeded.
\<close>

theorem local_writers_overwrite:
  assumes "init_index k d = Inr ix" and "index_ok ix" and "metadata_ok ix"
    and "batch_fits (vec_dim ix) rs" and "batch_fits (vec_dim ix) rs'" and "records_ok rs'"
  shows "\<exists>ix1 d1 ix2 d2. local_upsert np rs (ix, d) = (Inr (), (ix1, d1))
    \<and> local_upsert np rs' (ix, d1) = (Inr (), (ix2, d2))
    \<and> init_index k d2 = Inr ix2
    \<and> index_view ix2 = index_view ix ++ map_of (map (record_view np) rs')
    \<and> (\<forall>r \<in> set rs. rec_id r \<notin> rec_id ` set rs' \<longrightarrow> rec_id r \<notin> dom (index_view ix) \<longrightarrow>
         rec_id r \<notin> dom (index_view ix2))"
proof -
  obtain ix1 where 1: "local_upsert np rs (ix, d) = (Inr (), (ix1, persist ix1 d))"
    using local_upsert_result[OF assms(2,4)] by blast
  obtain ix2 where 2: "local_upsert np rs' (ix, persist ix1 d) = (Inr (), (ix2, persist ix2 (persist ix1 d)))"
    and ok: "index_ok ix2" and view: "index_view ix2 = index_view ix ++ map_of (map (record_view np) rs')"
    using local_upsert_result[OF assms(2,5)] by blast
  have "init_index k (persist ix2 (persist ix1 d)) = Inr ix2"
    by (rule open_persisted[OF upsert_metadata_ok[OF ok view assms(2,3,6)]])
  moreover have "fst ` set (map (record_view np) rs') = rec_id ` set rs'" by (simp add: image_image)
  then have "dom (index_view ix2) = rec_id ` set rs' \<union> dom (index_view ix)"
    unfolding view dom_map_add dom_map_of_conv_image_fst by simp
  ultimately show ?thesis using 1 2 view by blast
qed

definition record_at :: "string \<Rightarrow> int list \<Rightarrow> int vec_record" where
  "record_at i v = \<lparr>rec_id = i, rec_values = v, rec_metadata = None\<rparr>"

lemma record_at_simps [simp]:
  "rec_id (record_at i v) = i" "rec_values (record_at i v) = v"
  "entry_metadata (record_entry (record_at i v)) = []"
  by (simp_all add: record_at_def record_entry_def)

definition index_x :: "int local_index" where
  "index_x = \<lparr>vec_dim = 2, vectors = [[1, 0]], manifest = [\<lparr>entry_id = ''x'', entry_metadata = []\<rparr>]\<rparr>"

lemma index_x_ok: "index_ok index_x" "metadata_ok index_x" "vec_dim index_x = 2"
  by (simp_all add: index_ok_def index_x_def metadata_ok_def dict_ok_def)

theorem local_writers_overwrite_witness:
  "\<exists>ix1 d1 ix2 d2. local_upsert int_numpy [record_at ''a'' [1, 1]] (index_x, persist index_x no_disk) = (Inr (), (ix1, d1))
    \<and> local_upsert int_numpy [record_at ''b'' [0, 1]] (index_x, d1) = (Inr (), (ix2, d2))
    \<and> init_index 2 d2 = Inr ix2 \<and> ''a'' \<notin> dom (index_view ix2)"
proof -
  have "batch_fits (vec_dim index_x) [record_at ''a'' [1, 1]]" "batch_fits (vec_dim index_x) [record_at ''b'' [0, 1]]"
    "records_ok [record_at ''b'' [0, 1]]" "''a'' \<notin> dom (index_view index_x)"
    by (simp_all add: batch_fits_def index_x_ok records_ok_def dict_ok_def dom_index_view) (simp add: index_x_def)
  with local_writers_overwrite[OF open_persisted[OF index_x_ok(2)] index_x_ok(1,2), where np = int_numpy and k = 2,
      of "[record_at ''a'' [1, 1]]" "[record_at ''b'' [0, 1]]" no_disk]
  show ?thesis by auto
qed

text \<open>A batch of new ids is appended, whatever the shape of the index.\<close>

lemma local_upsert_new:
  assumes "rs \<noteq> []" "\<forall>r \<in> set rs. rec_id r \<notin> entry_id ` set (manifest ix) \<and> length (rec_values r) = vec_dim ix"
  shows "local_upsert np rs (ix, d) = (let ix' = ix\<lparr>vectors := vectors ix @ map (\<lambda>r. map (np_f32 np) (rec_values r)) rs,
      manifest := manifest ix @ map record_entry rs\<rparr> in (Inr (), (ix', persist ix' d)))"
proof -
  have "loopE (upsert_step np (ids_existing (manifest ix))) rs (vs, es) ix
      = (Inr (vs @ map rec_values rs, es @ map record_entry rs), ix)" for vs es
    using assms(2)
  proof (induction rs arbitrary: vs es)
    case (Cons r rs)
    then have "dict_get (ids_existing (manifest ix)) (rec_id r) = None"
      using ids_existing_Some[of "manifest ix" "rec_id r"] by (metis image_eqI list.set_intros(1) not_None_eq nth_mem)
    then have "upsert_step np (ids_existing (manifest ix)) r (vs, es) ix
        = (Inr (vs @ [rec_values r], es @ [record_entry r]), ix)" by (simp add: upsert_step_def)
    with Cons show ?case by simp
  qed simp
  from this[of "[]" "[]"] append_block_fits[of "map (\<lambda>r. map (np_f32 np) (rec_values r)) rs" ix "map record_entry rs"] assms
  show ?thesis by (simp add: local_upsert_def Let_def comp_def)
qed

text \<open>
  C33: The two files are not written together: when a process dies after it has written the
  vectors of a batch and before it has written the manifest, the index opens without complaint,
  and the next batch of new ids is stored next to the wrong rows: its first id gets the
  vector of the first record of the batch that was lost.
\<close>

theorem torn_write_misaligns:
  assumes "index_ok ix" and "metadata_ok ix" and "rs \<noteq> []" and "rs' \<noteq> []"
    and "\<forall>r \<in> set (rs @ rs'). rec_id r \<notin> entry_id ` set (manifest ix) \<and> length (rec_values r) = vec_dim ix"
  shows "\<exists>ix1 d1 ix2 ix3 d3. local_upsert np rs (ix, persist ix d) = (Inr (), (ix1, d1))
    \<and> init_index k (save_vectors ix1 (persist ix d)) = Inr ix2 \<and> manifest ix2 = manifest ix
    \<and> local_upsert np rs' (ix2, save_vectors ix1 (persist ix d)) = (Inr (), (ix3, d3))
    \<and> manifest ix3 ! length (manifest ix) = record_entry (hd rs')
    \<and> vectors ix3 ! length (manifest ix) = map (np_f32 np) (rec_values (hd rs))"
proof -
  let ?v = "\<lambda>rs. map (\<lambda>r. map (np_f32 np) (rec_values r)) rs"
  let ?d = "persist ix d"
  let ?ix1 = "ix\<lparr>vectors := vectors ix @ ?v rs, manifest := manifest ix @ map record_entry rs\<rparr>"
  let ?ix2 = "\<lparr>vec_dim = vec_dim ix, vectors = vectors ix @ ?v rs, manifest = manifest ix\<rparr>"
  let ?ix3 = "?ix2\<lparr>vectors := vectors ?ix2 @ ?v rs', manifest := manifest ?ix2 @ map record_entry rs'\<rparr>"
  have 1: "local_upsert np rs (ix, ?d) = (Inr (), (?ix1, persist ?ix1 ?d))"
    using local_upsert_new[of rs ix np ?d] assms(3,5) by (simp add: Let_def)
  have 2: "init_index k (save_vectors ?ix1 ?d) = Inr ?ix2"
    by (rule open_files[where ix = ix and d' = d]) (use assms(2) in \<open>simp_all add: save_vectors_def persist_def\<close>)
  have 3: "local_upsert np rs' (?ix2, save_vectors ?ix1 ?d) = (Inr (), (?ix3, persist ?ix3 (save_vectors ?ix1 ?d)))"
    using local_upsert_new[of rs' ?ix2 np "save_vectors ?ix1 ?d"] assms(4,5) by (simp add: Let_def)
  have "length (vectors ix) = length (manifest ix)" using assms(1) by (simp add: index_ok_def)
  then have "vectors ?ix3 ! length (manifest ix) = map (np_f32 np) (rec_values (hd rs))"
    using assms(3) by (cases rs) (simp_all add: nth_append)
  moreover have "manifest ?ix3 ! length (manifest ix) = record_entry (hd rs')"
    using assms(4) by (cases rs') (simp_all add: nth_append)
  ultimately show ?thesis using 1 2 3 by (metis local_index.select_convs(3))
qed

theorem torn_write_misaligns_witness:
  "\<exists>ix1 d1 ix2 ix3 d3. local_upsert int_numpy [record_at ''a'' [1, 1]] (index_x, persist index_x no_disk) = (Inr (), (ix1, d1))
    \<and> init_index 2 (save_vectors ix1 (persist index_x no_disk)) = Inr ix2
    \<and> local_upsert int_numpy [record_at ''b'' [0, 1]] (ix2, save_vectors ix1 (persist index_x no_disk)) = (Inr (), (ix3, d3))
    \<and> manifest ix3 ! 1 = record_entry (record_at ''b'' [0, 1]) \<and> vectors ix3 ! 1 = [1, 1]"
proof -
  have "\<forall>r \<in> set ([record_at ''a'' [1, 1]] @ [record_at ''b'' [0, 1]]).
      rec_id r \<notin> entry_id ` set (manifest index_x) \<and> length (rec_values r) = vec_dim index_x"
    "length (manifest index_x) = 1" "map (np_f32 int_numpy) [1, 1] = [1, 1]"
    by (simp_all add: index_x_def int_numpy_def)
  with torn_write_misaligns[OF index_x_ok(1,2) _ _ this(1), where np = int_numpy and k = 2 and d = no_disk]
  show ?thesis by (simp del: One_nat_def) blast
qed

end
