(* ===== verification/Local_Stores.thy ===== *)
theory Local_Stores
  imports Index_Processes Process_State Retrieval Ingest_Service
begin

text \<open>
  The local index as the processes of the program use it: every process, an ingestion worker or an
  API, keeps an index of its own in memory (the global variable of \<open>scripts/ingest_worker.py\<close>, the
  cached constructor of \<open>retrieval/tools.py\<close>), which it reads from the two shared files when it
  first needs it and never again, and every upsert writes the files from the memory of the
  process.

  A world is the indexes of the processes, which are numbered, and the files; \<open>None\<close> is an
  index that has not been opened. \<open>k\<close> is the dimension of the embedder.
\<close>

type_synonym 'f local_world = "(nat \<Rightarrow> 'f local_index option) \<times> 'f disk"

definition open_index :: "nat \<Rightarrow> nat \<Rightarrow> ('f local_world, 'f local_index) eff" where
  "open_index k p = lru_cached (\<lambda>s. fst s p) (\<lambda>ix s. ((fst s)(p \<mapsto> ix), snd s)) (\<lambda>s. (init_index k (snd s), s))"

text \<open>
  \<open>store = _get_store()\<close> and \<open>await store.upsert(records)\<close> in the process \<open>p\<close>; building the records
  between the two touches nothing else.
\<close>

definition process_upsert ::
    "('n, 'f, 's) numpy \<Rightarrow> nat \<Rightarrow> nat \<Rightarrow> 'n vec_record list \<Rightarrow> ('f local_world, unit) eff" where
  "process_upsert np k p rs = bindE (open_index k p)
     (\<lambda>ix s. case local_upsert np rs (ix, snd s) of (r, (ix', dk)) \<Rightarrow> (r, ((fst s)(p \<mapsto> ix'), dk)))"

definition process_query ::
    "('n, 'f, 's :: linordered_ab_group_add) numpy \<Rightarrow> nat \<Rightarrow> nat \<Rightarrow> 'n list \<Rightarrow> int \<Rightarrow> ('f local_world, 's hit list) eff" where
  "process_query np k p q top_k = bindE (open_index k p) (\<lambda>ix. liftE (local_query np q top_k None ix))"

text \<open>The tool gets the index before it embeds the query.\<close>

definition process_search ::
    "('n, 'f, 's :: linordered_ab_group_add) numpy \<Rightarrow> nat \<Rightarrow> nat \<Rightarrow> (string list \<Rightarrow> ('f local_world, 'n list list) eff)
       \<Rightarrow> string \<Rightarrow> int \<Rightarrow> ('f local_world \<times> db, 's tool_output) eff" where
  "process_search np k p emb query top_k =
     bindE (on_env (open_index k p)) (\<lambda>_. search_similar_clauses emb (process_query np k p) query top_k)"

section \<open>The index that a process works on\<close>

definition process_index :: "nat \<Rightarrow> 'f local_world \<Rightarrow> nat \<Rightarrow> exc + 'f local_index" where
  "process_index k s p = (case fst s p of Some ix \<Rightarrow> Inr ix | None \<Rightarrow> init_index k (snd s))"

lemma open_index_Inr:
  "open_index k p s = (Inr ix, s') \<longleftrightarrow> process_index k s p = Inr ix \<and> s' = ((fst s)(p \<mapsto> ix), snd s)"
  by (cases s) (auto simp: open_index_def lru_cached_def process_index_def fun_upd_idem split: option.splits sum.splits)

lemma process_upsert_result:
  assumes "process_index k s p = Inr ix"
  shows "process_upsert np k p rs s
    = (case local_upsert np rs (ix, snd s) of (r, (ix', dk)) \<Rightarrow> (r, ((fst s)(p \<mapsto> ix'), dk)))"
proof -
  have "open_index k p s = (Inr ix, ((fst s)(p \<mapsto> ix), snd s))" using assms by (simp add: open_index_Inr)
  then show ?thesis by (simp add: process_upsert_def bindE_def split: prod.split)
qed

lemma process_query_result:
  assumes "process_index k s p = Inr ix"
  shows "process_query np k p q top_k s = (local_query np q top_k None ix, ((fst s)(p \<mapsto> ix), snd s))"
proof -
  have "open_index k p s = (Inr ix, ((fst s)(p \<mapsto> ix), snd s))" using assms by (simp add: open_index_Inr)
  then show ?thesis by (simp add: process_query_def bindE_def liftE_apply)
qed

text \<open>A search that returns has searched the index of its process, which is open afterwards.\<close>

lemma process_search_Inr:
  assumes "process_search np k p emb query top_k (s, d) = (Inr out, x)"
  obtains ix where "process_index k s p = Inr ix" "process_index k ((fst s)(p \<mapsto> ix), snd s) p = Inr ix"
    and "search_similar_clauses emb (process_query np k p) query top_k (((fst s)(p \<mapsto> ix), snd s), d) = (Inr out, x)"
proof -
  obtain ix s' where "open_index k p s = (Inr ix, s')"
    and "search_similar_clauses emb (process_query np k p) query top_k (s', d) = (Inr out, x)"
    using assms by (auto simp: process_search_def bindE_Inr_iff on_env_Inr)
  then show thesis using that[of ix] by (auto simp: open_index_Inr process_index_def)
qed

section \<open>Only what is in the index is found\<close>

lemma py_prefix_sorted: "i \<in> set (py_prefix n (sort_key f (filter P [0..<m]))) \<Longrightarrow> i < m"
  by (auto simp: py_prefix_def split: if_splits dest!: in_set_takeD)

lemma local_query_ids:
  assumes "local_query np q top_k flt ix = Inr hs"
  shows "hit_id ` set hs \<subseteq> index_ids ix"
  using assms py_prefix_sorted
  by (auto simp: local_query_def Let_def index_ids_def split: if_splits intro!: imageI nth_mem)

lemma rows_by_id_id: "dict_get (rows_by_id rows) i = Some r \<Longrightarrow> cr_clause_id r = i"
proof -
  have "dict_get (fold (\<lambda>r d. dict_set d (cr_clause_id r) r) rows d) i = Some r \<Longrightarrow>
      cr_clause_id r = i \<or> dict_get d i = Some r" for d
  proof (induction rows arbitrary: d)
    case (Cons a rows)
    from Cons.IH[of "dict_set d (cr_clause_id a) a"] Cons.prems show ?case
      by (auto simp: dict_simps split: if_splits)
  qed simp
  from this[of "[]"] show "dict_get (rows_by_id rows) i = Some r \<Longrightarrow> cr_clause_id r = i"
    by (simp add: rows_by_id_def dict_simps)
qed

lemma process_search_ids:
  assumes "process_search np k p emb query top_k (s, d) = (Inr (Results rs), x)"
    and "\<And>ts s r s'. emb ts s = (r, s') \<Longrightarrow> s' = s" "process_index k s p = Inr ix"
  shows "sh_clause_id ` set rs \<subseteq> index_ids ix"
proof -
  let ?s = "((fst s)(p \<mapsto> ix), snd s)"
  have ix: "process_index k ?s p = Inr ix"
    and run: "search_similar_clauses emb (process_query np k p) query top_k (?s, d) = (Inr (Results rs), x)"
    using process_search_Inr[OF assms(1)] assms(3) by (metis Inr_inject)+
  obtain vs s1 where emb: "emb [query] ?s = (Inr vs, s1)" and "s1 = ?s"
    using run assms(2) by (auto simp: search_similar_clauses_def bindE_Inr_iff on_env_Inr)
  with run obtain v where "vs = [v]"
    by (auto simp: search_similar_clauses_def bindE_Inr_iff on_env_Inr raiseE_apply split: list.splits)
  with run emb \<open>s1 = ?s\<close> obtain ms rows where ms: "local_query np v top_k None ix = Inr ms"
    and "rs = [] \<or> rs = hydrate (rows_by_id rows) ms"
    by (auto simp: search_similar_clauses_def bindE_Inr_iff on_env_Inr process_query_result[OF ix] retE_apply
        split: if_splits)
  then have "sh_clause_id ` set rs \<subseteq> hit_id ` set ms"
  proof (elim disjE)
    assume rs: "rs = hydrate (rows_by_id rows) ms"
    have "map sh_clause_id rs = map hit_id (filter (\<lambda>m. dict_get (rows_by_id rows) (hit_id m) \<noteq> None) ms)"
      unfolding rs by (rule hydrate_ids) (rule rows_by_id_id)
    then have "sh_clause_id ` set rs = hit_id ` set (filter (\<lambda>m. dict_get (rows_by_id rows) (hit_id m) \<noteq> None) ms)"
      by (metis list.set_map)
    then show ?thesis by auto
  qed simp
  with local_query_ids[OF ms] show ?thesis by blast
qed

section \<open>An ingestion in one of the processes\<close>

text \<open>An embedder that leaves the world alone and returns one vector of the right width for each text.\<close>

definition embeds :: "(string list \<Rightarrow> ('w, 'n list list) eff) \<Rightarrow> nat \<Rightarrow> bool" where
  "embeds emb n \<longleftrightarrow> (\<forall>ts s r s'. emb ts s = (r, s') \<longrightarrow>
     s' = s \<and> (\<forall>vs. r = Inr vs \<longrightarrow> length vs = length ts \<and> (\<forall>v \<in> set vs. length v = n)))"

lemma embeds_D:
  assumes "embeds emb n" "emb ts s = (Inr vs, s')"
  shows "s' = s" "length vs = length ts" "\<And>v. v \<in> set vs \<Longrightarrow> length v = n"
  using assms unfolding embeds_def by blast+

lemma embeds_keeps: "embeds emb n \<Longrightarrow> emb ts s = (r, s') \<Longrightarrow> s' = s"
  unfolding embeds_def by blast

lemma contract_records_fit:
  assumes "length vs = length cs" "\<And>v. v \<in> set vs \<Longrightarrow> length v = n" "distinct (map clause_id cs)"
  shows "batch_fits n (map (contract_record cid) (zip cs vs))" "records_ok (map (contract_record cid) (zip cs vs))"
proof -
  have "length (rec_values r) = n" if "r \<in> set (map (contract_record cid) (zip cs vs))" for r
    using that assms(2) by (auto simp: contract_record_def dest: set_zip_rightD)
  then show "batch_fits n (map (contract_record cid) (zip cs vs))"
    using assms(3) contract_record_ids[OF assms(1)] by (simp add: batch_fits_def)
  show "records_ok (map (contract_record cid) (zip cs vs))"
    by (auto simp: records_ok_def contract_record_def record_entry_def dict_ok_def)
qed

lemma process_ingest:
  fixes np :: "('n, 'f, 's :: linordered_ab_group_add) numpy"
  assumes "process_index k s p = Inr ix" "index_ok ix" "metadata_ok ix" "embeds emb (vec_dim ix)"
    and "distinct (map clause_id (clauses c))"
    and "handle_ingest_contract emb (process_upsert np k p) now (ingest_task c) (s, d) = (Inr res, (s', d'))"
  shows "\<exists>ix'. process_index k s' p = Inr ix' \<and> index_ok ix' \<and> metadata_ok ix' \<and> vec_dim ix' = vec_dim ix
    \<and> dom (index_view ix') = clause_id ` set (clauses c) \<union> dom (index_view ix)
    \<and> (\<forall>q. q \<noteq> p \<longrightarrow> fst s' q = fst s q)
    \<and> (if clauses c = [] then s' = s \<and> ix' = ix else fst s' p = Some ix' \<and> snd s' = persist ix' (snd s))
    \<and> db_tables d' = fold (insert_row (contract_id c) now) (clauses c)
        (upsert_contract (contract_id c) (filename c) now (db_tables d))"
proof -
  obtain d1 where d1: "db_tables d1 = upsert_contract (contract_id c) (filename c) now (db_tables d)"
    and run: "clauses c = [] \<and> s' = s \<and> d' = d1
      \<or> clauses c \<noteq> [] \<and> (\<exists>vs s1. emb (map clause_text (clauses c)) s = (Inr vs, s1)
           \<and> process_upsert np k p (map (contract_record (contract_id c)) (zip (clauses c) vs)) s1 = (Inr (), s')
           \<and> db_tables d' = fold (insert_row (contract_id c) now) (clauses c) (db_tables d1))"
    by (rule handle_ingest_steps[OF assms(6)])
  show ?thesis
  proof (cases "clauses c = []")
    case True
    with run assms(1-3) d1 show ?thesis by auto
  next
    case False
    with run obtain vs s1 where emb: "emb (map clause_text (clauses c)) s = (Inr vs, s1)"
      and ups: "process_upsert np k p (map (contract_record (contract_id c)) (zip (clauses c) vs)) s1 = (Inr (), s')"
      and rows: "db_tables d' = fold (insert_row (contract_id c) now) (clauses c) (db_tables d1)" by blast
    let ?rs = "map (contract_record (contract_id c)) (zip (clauses c) vs)"
    note e = embeds_D[OF assms(4) emb]
    have len: "length vs = length (clauses c)" using e(2) by simp
    note fits = contract_records_fit[OF len e(3) assms(5), of "contract_id c"]
    obtain ix' where ix': "local_upsert np ?rs (ix, snd s) = (Inr (), (ix', persist ix' (snd s)))" "index_ok ix'"
      "vec_dim ix' = vec_dim ix" "index_view ix' = index_view ix ++ map_of (map (record_view np) ?rs)"
      using local_upsert_result[OF assms(2) fits(1)] by blast
    have s': "s' = ((fst s)(p \<mapsto> ix'), persist ix' (snd s))"
      using ups ix'(1) by (simp add: e(1) process_upsert_result[OF assms(1)])
    have meta: "metadata_ok ix'" by (rule upsert_metadata_ok[OF ix'(2,4) assms(2,3) fits(2)])
    have "fst ` set (map (record_view np) ?rs) = rec_id ` set ?rs" by (simp add: image_image)
    also have "\<dots> = clause_id ` set (clauses c)" using contract_record_ids[OF len] by (metis list.set_map)
    finally have "dom (index_view ix') = clause_id ` set (clauses c) \<union> dom (index_view ix)"
      unfolding ix'(4) dom_map_add dom_map_of_conv_image_fst by simp
    then show ?thesis using False ix'(2,3) meta rows d1 by (simp add: s' process_index_def)
  qed
qed

end
