(* ===== verification/Search_Index.thy ===== *)
theory Search_Index
  imports Local_Stores
begin

text \<open>
  Ingestion and search over the local index, each in a process of its own: the handler of
  \<open>scripts/ingest_worker.py\<close> stores the vectors and the rows of a contract, and
  \<open>search_similar_clauses\<close> of \<open>retrieval/tools.py\<close> looks them up again in the process of the API.
  \<open>agree\<close> says that an index and the clause table hold the same clauses. A search in a process that
  opens the index after the ingestion finds everything; one in a process that had opened it before
  does not, and two ingestion workers lose each other's vectors.
\<close>

definition clause_ids :: "tables \<Rightarrow> string set" where
  "clause_ids t = cr_clause_id ` set (clause_rows t)"

definition agree :: "tables \<Rightarrow> 'f local_index \<Rightarrow> bool" where
  "agree t ix \<longleftrightarrow> index_ok ix \<and> distinct (map cr_clause_id (clause_rows t)) \<and> dom (index_view ix) = clause_ids t"

text \<open>A clause id belongs to one contract, as it is a hash of the contract and the clause.\<close>

definition ids_owned :: "tables \<Rightarrow> parsed_contract \<Rightarrow> bool" where
  "ids_owned t c \<longleftrightarrow> (\<forall>r \<in> set (clause_rows t). cr_clause_id r \<in> clause_id ` set (clauses c) \<longrightarrow>
     cr_contract_id r = contract_id c)"

lemma insert_row_ids:
  assumes "distinct (map cr_clause_id (clause_rows t))"
    and "\<forall>r \<in> set (clause_rows t). cr_clause_id r = clause_id c \<longrightarrow> cr_contract_id r = cid"
  shows "distinct (map cr_clause_id (clause_rows (insert_row cid now c t)))
    \<and> clause_ids (insert_row cid now c t) = insert (clause_id c) (clause_ids t)
    \<and> (\<forall>r \<in> set (clause_rows (insert_row cid now c t)). cr_contract_id r = cid
         \<or> (\<exists>r' \<in> set (clause_rows t). cr_clause_id r' = cr_clause_id r \<and> cr_contract_id r' = cr_contract_id r))"
proof (cases "\<exists>r \<in> set (clause_rows t). cr_contract_id r = cid \<and> cr_clause_id r = clause_id c")
  case True
  define f where "f r = (if cr_contract_id r = cid \<and> cr_clause_id r = clause_id c
      then r\<lparr>cr_text := clause_text c, cr_vector_id := Some (clause_id c), cr_embedded_at := Some now\<rparr> else r)"
    for r :: clause_row
  have f: "cr_clause_id (f r) = cr_clause_id r" "cr_contract_id (f r) = cr_contract_id r" for r by (simp_all add: f_def)
  have rows: "clause_rows (insert_row cid now c t) = map f (clause_rows t)"
    using True by (auto simp: insert_row_def upsert_clause_def f_def)
  moreover have "map cr_clause_id (map f (clause_rows t)) = map cr_clause_id (clause_rows t)" by (simp add: f)
  moreover have "cr_clause_id ` set (map f (clause_rows t)) = insert (clause_id c) (clause_ids t)"
  proof -
    have "clause_id c \<in> clause_ids t" using True unfolding clause_ids_def by (metis image_eqI)
    then show ?thesis by (simp add: clause_ids_def image_image f insert_absorb)
  qed
  moreover have "\<exists>r' \<in> set (clause_rows t). cr_clause_id r' = cr_clause_id r \<and> cr_contract_id r' = cr_contract_id r"
    if "r \<in> set (map f (clause_rows t))" for r using that by (auto simp: f)
  ultimately show ?thesis using assms(1) unfolding clause_ids_def by metis
next
  case False
  then have "clause_id c \<notin> clause_ids t" using assms(2) by (auto simp: clause_ids_def)
  with False assms(1) show ?thesis
    by (auto simp: insert_row_def upsert_clause_def clause_ids_def)
qed

lemma fold_insert_row_ids:
  assumes "distinct (map cr_clause_id (clause_rows t))"
    and "\<forall>r \<in> set (clause_rows t). cr_clause_id r \<in> clause_id ` set cs \<longrightarrow> cr_contract_id r = cid"
  shows "distinct (map cr_clause_id (clause_rows (fold (insert_row cid now) cs t)))
    \<and> clause_ids (fold (insert_row cid now) cs t) = clause_id ` set cs \<union> clause_ids t"
  using assms
proof (induction cs arbitrary: t)
  case (Cons c cs)
  have own: "\<forall>r \<in> set (clause_rows t). cr_clause_id r = clause_id c \<longrightarrow> cr_contract_id r = cid"
    using Cons.prems(2) by simp
  note step = insert_row_ids[OF Cons.prems(1) own, of now]
  have "\<forall>r \<in> set (clause_rows (insert_row cid now c t)). cr_clause_id r \<in> clause_id ` set cs \<longrightarrow> cr_contract_id r = cid"
  proof (intro ballI impI)
    fix r assume r: "r \<in> set (clause_rows (insert_row cid now c t))" "cr_clause_id r \<in> clause_id ` set cs"
    then consider "cr_contract_id r = cid" | r' where "r' \<in> set (clause_rows t)" "cr_clause_id r' = cr_clause_id r"
      "cr_contract_id r' = cr_contract_id r" using step by blast
    then show "cr_contract_id r = cid" using Cons.prems(2) r(2) by cases auto
  qed
  from Cons.IH[OF _ this] step show ?case by auto
qed simp

section \<open>Ingestion keeps the agreement\<close>

lemma ingest_agrees:
  fixes np :: "('n, 'f, 's :: linordered_ab_group_add) numpy"
  assumes "process_index k s p = Inr ix" "metadata_ok ix" "agree (db_tables d) ix" "embeds emb (vec_dim ix)"
    and "distinct (map clause_id (clauses c))" "ids_owned (db_tables d) c"
    and "handle_ingest_contract emb (process_upsert np k p) now (ingest_task c) (s, d) = (Inr res, (s', d'))"
  shows "\<exists>ix'. process_index k s' p = Inr ix' \<and> agree (db_tables d') ix' \<and> metadata_ok ix' \<and> vec_dim ix' = vec_dim ix
    \<and> (\<forall>q. q \<noteq> p \<longrightarrow> fst s' q = fst s q)
    \<and> (if clauses c = [] then s' = s \<and> ix' = ix else fst s' p = Some ix' \<and> snd s' = persist ix' (snd s))
    \<and> clause_ids (db_tables d') = clause_id ` set (clauses c) \<union> clause_ids (db_tables d)"
proof -
  have ix: "index_ok ix" "dom (index_view ix) = clause_ids (db_tables d)"
    and dist: "distinct (map cr_clause_id (clause_rows (db_tables d)))" using assms(3) by (simp_all add: agree_def)
  let ?t = "upsert_contract (contract_id c) (filename c) now (db_tables d)"
  from process_ingest[OF assms(1) ix(1) assms(2,4,5,7)] obtain ix' where
    ix': "process_index k s' p = Inr ix'" "index_ok ix'" "metadata_ok ix'" "vec_dim ix' = vec_dim ix"
      "dom (index_view ix') = clause_id ` set (clauses c) \<union> dom (index_view ix)"
      "\<forall>q. q \<noteq> p \<longrightarrow> fst s' q = fst s q"
      "if clauses c = [] then s' = s \<and> ix' = ix else fst s' p = Some ix' \<and> snd s' = persist ix' (snd s)"
    and rows: "db_tables d' = fold (insert_row (contract_id c) now) (clauses c) ?t"
    by blast
  have "distinct (map cr_clause_id (clause_rows (db_tables d')))
      \<and> clause_ids (db_tables d') = clause_id ` set (clauses c) \<union> clause_ids (db_tables d)"
    using fold_insert_row_ids[of ?t "clauses c" "contract_id c" now] dist assms(6)
    by (simp add: rows ids_owned_def clause_ids_def)
  with ix' ix(2) show ?thesis unfolding agree_def by metis
qed

text \<open>What a process finds that opens the index after an ingestion by an up-to-date worker.\<close>

lemma open_after_ingest:
  fixes np :: "('n, 'f, 's :: linordered_ab_group_add) numpy"
  assumes "init_index k (snd s) = Inr ix" "fst s p = None \<or> fst s p = Some ix" "metadata_ok ix"
    and "agree (db_tables d) ix" "embeds emb (vec_dim ix)"
    and "distinct (map clause_id (clauses c))" "ids_owned (db_tables d) c"
    and "handle_ingest_contract emb (process_upsert np k p) now (ingest_task c) (s, d) = (Inr res, (s1, d1))"
  shows "\<exists>ix1. init_index k (snd s1) = Inr ix1 \<and> agree (db_tables d1) ix1 \<and> vec_dim ix1 = vec_dim ix
    \<and> (\<forall>q. q \<noteq> p \<longrightarrow> fst s1 q = fst s q)
    \<and> clause_ids (db_tables d1) = clause_id ` set (clauses c) \<union> clause_ids (db_tables d)"
proof -
  have "process_index k s p = Inr ix" using assms(1,2) by (auto simp: process_index_def)
  from ingest_agrees[OF this assms(3-8)] obtain ix1 where
    ix1: "agree (db_tables d1) ix1" "metadata_ok ix1" "vec_dim ix1 = vec_dim ix" "\<forall>q. q \<noteq> p \<longrightarrow> fst s1 q = fst s q"
      "if clauses c = [] then s1 = s \<and> ix1 = ix else fst s1 p = Some ix1 \<and> snd s1 = persist ix1 (snd s)"
      "clause_ids (db_tables d1) = clause_id ` set (clauses c) \<union> clause_ids (db_tables d)"
    by blast
  then have "init_index k (snd s1) = Inr ix1"
    using assms(1) by (auto simp: open_persisted split: if_splits)
  with ix1 show ?thesis by blast
qed

section \<open>Search over an index that agrees\<close>

lemma sh_clause_id_similar: "sh_clause_id (similar_of r x) = cr_clause_id r"
  by (simp add: similar_of_def)

lemma search_agreeing:
  assumes "agree (db_tables d) ix" "emb [q] s = (Inr [v], s1)" "length v = vec_dim ix" "0 \<le> top_k"
    and "query v top_k s1 = (local_query np v top_k None ix, s2)"
    and "search_similar_clauses emb query q top_k (s, d) = (Inr out, (e', d'))"
  shows "\<exists>rs. out = Results rs \<and> length rs = min (nat top_k) (card (clause_ids (db_tables d)))
    \<and> distinct (map sh_clause_id rs) \<and> sorted (rev (map sh_score rs))
    \<and> (\<forall>h \<in> set rs. \<exists>r \<in> set (clause_rows (db_tables d)). \<exists>x m. h = similar_of r (sh_score h)
         \<and> index_view ix (cr_clause_id r) = Some (x, m) \<and> sh_score h = row_score np v x)
    \<and> (\<forall>i x m h. index_view ix i = Some (x, m) \<longrightarrow> i \<notin> sh_clause_id ` set rs \<longrightarrow> h \<in> set rs \<longrightarrow>
         row_score np v x \<le> sh_score h)"
proof -
  have ok: "index_ok ix" "distinct (map cr_clause_id (clause_rows (db_tables d)))"
    and dom: "dom (index_view ix) = clause_ids (db_tables d)" using assms(1) by (simp_all add: agree_def)
  from local_query_result[OF ok(1) assms(3,4), of np None] obtain hs where
    q: "local_query np v top_k None ix = Inr hs" and hs: "length hs = min (nat top_k) (card (clause_ids (db_tables d)))"
      "distinct (map hit_id hs)" "sorted (rev (map hit_score hs))"
    and top: "\<forall>h \<in> set hs. hit_id h \<in> clause_ids (db_tables d)
      \<and> (\<exists>x. index_view ix (hit_id h) = Some (x, hit_metadata h) \<and> hit_score h = row_score np v x)"
      "\<forall>i x m h. index_view ix i = Some (x, m) \<longrightarrow> i \<in> clause_ids (db_tables d) \<longrightarrow>
         i \<notin> hit_id ` set hs \<longrightarrow> h \<in> set hs \<longrightarrow> row_score np v x \<le> hit_score h"
    unfolding accepted_None dom by (elim exE conjE) (rule that)
  have hit: "\<exists>x. index_view ix (hit_id h) = Some (x, hit_metadata h) \<and> hit_score h = row_score np v x"
    if "h \<in> set hs" for h using top(1) that by blast
  have best: "row_score np v x \<le> hit_score h"
    if "index_view ix i = Some (x, m)" "i \<notin> hit_id ` set hs" "h \<in> set hs" for i x m h
  proof -
    have "i \<in> clause_ids (db_tables d)" unfolding dom[symmetric] using that(1) by (rule domI)
    with top(2) that show ?thesis by metis
  qed
  have "query v top_k s1 = (Inr hs, s2)" using q assms(5) by simp
  from search_result[OF ok(2) assms(2) this assms(6)]
  obtain rs where rs: "out = Results rs"
    "let kept = filter (\<lambda>m. hit_id m \<in> cr_clause_id ` set (clause_rows (db_tables d))) hs
       in map sh_clause_id rs = map hit_id kept \<and> map sh_score rs = map hit_score kept"
    "\<forall>h \<in> set rs. \<exists>r \<in> set (clause_rows (db_tables d)). h = similar_of r (sh_score h)" by blast
  have "hit_id h \<in> cr_clause_id ` set (clause_rows (db_tables d))" if "h \<in> set hs" for h
    using hit[OF that] dom unfolding clause_ids_def by blast
  then have kept: "filter (\<lambda>m. hit_id m \<in> cr_clause_id ` set (clause_rows (db_tables d))) hs = hs"
    by (simp add: filter_id_conv)
  have ids: "map sh_clause_id rs = map hit_id hs" and scores: "map sh_score rs = map hit_score hs"
    using rs(2) unfolding kept Let_def by auto
  have len: "length rs = length hs" using ids by (metis length_map)
  have pair: "\<exists>m \<in> set hs. sh_clause_id h = hit_id m \<and> sh_score h = hit_score m" if h: "h \<in> set rs" for h
  proof -
    obtain i where i: "i < length rs" "rs ! i = h" using h by (auto simp: in_set_conv_nth)
    have "map sh_clause_id rs ! i = map hit_id hs ! i" "map sh_score rs ! i = map hit_score hs ! i"
      by (simp_all add: ids scores)
    then have "sh_clause_id h = hit_id (hs ! i)" "sh_score h = hit_score (hs ! i)" using i len by simp_all
    then show ?thesis using i len by (intro bexI[of _ "hs ! i"]) simp_all
  qed
  have ids_set: "sh_clause_id ` set rs = hit_id ` set hs" using ids by (metis list.set_map)
  have "\<exists>r \<in> set (clause_rows (db_tables d)). \<exists>x m. h = similar_of r (sh_score h)
      \<and> index_view ix (cr_clause_id r) = Some (x, m) \<and> sh_score h = row_score np v x" if h: "h \<in> set rs" for h
  proof -
    obtain r where r: "r \<in> set (clause_rows (db_tables d))" "h = similar_of r (sh_score h)" using rs(3) h by blast
    obtain m where m: "m \<in> set hs" "sh_clause_id h = hit_id m" "sh_score h = hit_score m" using pair[OF h] by blast
    have "cr_clause_id r = hit_id m" using r(2) m(2) by (metis sh_clause_id_similar)
    with hit[OF m(1)] m(3) r show ?thesis by metis
  qed
  moreover have "row_score np v x \<le> sh_score h"
    if "index_view ix i = Some (x, m)" "i \<notin> sh_clause_id ` set rs" "h \<in> set rs" for i x m h
    using best[OF that(1)] that(2) pair[OF that(3)] ids_set by metis
  moreover have "length rs = min (nat top_k) (card (clause_ids (db_tables d)))"
    "distinct (map sh_clause_id rs)" "sorted (rev (map sh_score rs))"
    using hs by (simp_all only: len ids scores)
  ultimately show ?thesis using rs(1) by blast
qed

lemma find_distinct_id:
  "distinct (map clause_id cs) \<Longrightarrow> c \<in> set cs \<Longrightarrow> find (\<lambda>x. clause_id x = clause_id c) cs = Some c"
proof (induction cs)
  case (Cons a cs)
  then show ?case by (cases "a = c") (auto simp: image_iff)
qed simp

section \<open>Properties\<close>

text \<open>
  C7: What has been ingested into the local index is found by every process that opens the index
  afterwards, and by no other. When a worker whose index is the one of the files ingests a
  contract, and files and clause table hold the same clauses, they do so afterwards, with the
  clauses of the contract. A search in another process that has not opened the index yet then
  returns the best matches among all clauses, those of the contract included: as many as asked
  for or as there are, each with the fields of its row and the similarity of its vector, in
  descending order, none better left out, none dropped for want of a row. But a process that had opened
  the index before goes on searching the index it has in memory: it returns only clauses that
  were in it then, and nothing that has been ingested since.
\<close>

theorem ingested_clauses_are_found:
  fixes np :: "('n, 'f, 's :: linordered_ab_group_add) numpy"
  assumes "init_index k (snd s) = Inr ix" and "fst s p = None \<or> fst s p = Some ix" and "metadata_ok ix"
    and "agree (db_tables d) ix" and "embeds emb (vec_dim ix)"
    and "distinct (map clause_id (clauses c))" and "ids_owned (db_tables d) c"
    and "handle_ingest_contract emb (process_upsert np k p) now (ingest_task c) (s, d) = (Inr res, (s1, d1))"
    and "0 \<le> top_k" and "\<And>s. emb [q] s = (Inr [v], s)"
    and "fst s new = None" and "new \<noteq> p"
    and "process_search np k new emb q top_k (s1, d1) = (Inr out, x)"
    and "fst s old = Some ix0" and "old \<noteq> p"
    and "process_search np k old emb q top_k (s1, d1) = (Inr (Results rs0), y)"
  shows "\<exists>ix1 rs. init_index k (snd s1) = Inr ix1 \<and> agree (db_tables d1) ix1
    \<and> clause_ids (db_tables d1) = clause_id ` set (clauses c) \<union> clause_ids (db_tables d)
    \<and> out = Results rs \<and> length rs = min (nat top_k) (card (clause_ids (db_tables d1)))
    \<and> distinct (map sh_clause_id rs) \<and> sorted (rev (map sh_score rs))
    \<and> (\<forall>h \<in> set rs. \<exists>r \<in> set (clause_rows (db_tables d1)). \<exists>x m. h = similar_of r (sh_score h)
         \<and> index_view ix1 (cr_clause_id r) = Some (x, m) \<and> sh_score h = row_score np v x)
    \<and> (\<forall>i x m h. index_view ix1 i = Some (x, m) \<longrightarrow> i \<notin> sh_clause_id ` set rs \<longrightarrow> h \<in> set rs \<longrightarrow>
         row_score np v x \<le> sh_score h)
    \<and> sh_clause_id ` set rs0 \<subseteq> index_ids ix0"
proof -
  obtain ix1 where ix1: "init_index k (snd s1) = Inr ix1" "agree (db_tables d1) ix1" "vec_dim ix1 = vec_dim ix"
      "\<forall>q. q \<noteq> p \<longrightarrow> fst s1 q = fst s q"
      "clause_ids (db_tables d1) = clause_id ` set (clauses c) \<union> clause_ids (db_tables d)"
    using open_after_ingest[OF assms(1-8)] by blast
  have opened: "process_index k s1 new = Inr ix1" "process_index k s1 old = Inr ix0"
    using ix1(1,4) assms(11,12,14,15) by (simp_all add: process_index_def)
  have "sh_clause_id ` set rs0 \<subseteq> index_ids ix0"
    by (rule process_search_ids[OF assms(16) _ opened(2)]) (rule embeds_keeps[OF assms(5)])
  moreover obtain ix' where "process_index k s1 new = Inr ix'" "process_index k ((fst s1)(new \<mapsto> ix'), snd s1) new = Inr ix'"
    "search_similar_clauses emb (process_query np k new) q top_k (((fst s1)(new \<mapsto> ix'), snd s1), d1) = (Inr out, x)"
    by (rule process_search_Inr[OF assms(13)])
  then have ready: "process_index k ((fst s1)(new \<mapsto> ix1), snd s1) new = Inr ix1"
    and run: "search_similar_clauses emb (process_query np k new) q top_k (((fst s1)(new \<mapsto> ix1), snd s1), d1) = (Inr out, x)"
    using opened(1) by simp_all
  obtain e' d' where x: "x = (e', d')" by (cases x)
  have "length v = vec_dim ix1" using embeds_D(3)[OF assms(5,10)] ix1(3) by simp
  note search_agreeing[OF ix1(2) assms(10) this assms(9) process_query_result[OF ready] run[unfolded x]]
  ultimately show ?thesis using ix1(1,2,5) by blast
qed

text \<open>
  C6: Two ingestion workers on the local index lose vectors: when a second worker that had opened the
  index at the same time ingests a contract after the first one has ingested another, and
  both succeed, the table holds the clauses of the first contract, marked as embedded, but their
  vectors are gone from the files: a process that opens the index then never returns one of these
  clauses, whatever it searches for. So that every row has its vector, which holds within
  one process and with Pinecone, fails here.
\<close>

theorem local_workers_lose_vectors:
  fixes np :: "('n, 'f, 's :: linordered_ab_group_add) numpy"
  assumes "init_index k (snd s) = Inr ix" and "fst s a = None \<or> fst s a = Some ix" and "fst s b = Some ix" and "a \<noteq> b"
    and "index_ok ix" and "metadata_ok ix" and "embeds emb (vec_dim ix)" and "tables_ok (db_tables d)"
    and "distinct (map clause_id (clauses c))" and "distinct (map clause_id (clauses c'))"
    and "contract_id c \<noteq> contract_id c'" and "clauses c' \<noteq> []"
    and "cl \<in> set (clauses c)" and "clause_id cl \<notin> index_ids ix" and "clause_id cl \<notin> clause_id ` set (clauses c')"
    and "handle_ingest_contract emb (process_upsert np k a) now (ingest_task c) (s, d) = (Inr res, (s1, d1))"
    and "handle_ingest_contract emb (process_upsert np k b) now' (ingest_task c') (s1, d1) = (Inr res', (s2, d2))"
    and "fst s2 p = None"
    and "process_search np k p emb q top_k (s2, d2) = (Inr (Results rs), x)"
  shows "\<exists>r. clause_view (db_tables d2) (contract_id c, clause_id cl) = Some r
    \<and> cr_text r = clause_text cl \<and> cr_vector_id r = Some (clause_id cl) \<and> cr_embedded_at r = Some now
    \<and> clause_id cl \<notin> sh_clause_id ` set rs"
proof -
  have "process_index k s a = Inr ix" using assms(1,2) by (auto simp: process_index_def)
  from process_ingest[OF this assms(5-7,9,16)] assms(3,4)
  have b: "process_index k s1 b = Inr ix"
    and t1: "db_tables d1 = fold (insert_row (contract_id c) now) (clauses c)
      (upsert_contract (contract_id c) (filename c) now (db_tables d))"
    by (auto simp: process_index_def)
  from process_ingest[OF b assms(5-7,10,17)] assms(12) obtain ix2 where
    ix2: "index_ok ix2" "metadata_ok ix2" "dom (index_view ix2) = clause_id ` set (clauses c') \<union> dom (index_view ix)"
      "snd s2 = persist ix2 (snd s1)"
    and t2: "db_tables d2 = fold (insert_row (contract_id c') now') (clauses c')
      (upsert_contract (contract_id c') (filename c') now' (db_tables d1))"
    by auto
  have "process_index k s2 p = Inr ix2" using assms(18) ix2(2,4) by (simp add: process_index_def open_persisted)
  from process_search_ids[OF assms(19) _ this] embeds_keeps[OF assms(7)]
  have "sh_clause_id ` set rs \<subseteq> index_ids ix2" by blast
  moreover have "clause_id cl \<notin> index_ids ix2"
    using assms(14,15) ix2(3) dom_index_view[OF ix2(1)] dom_index_view[OF assms(5)] by (simp add: index_ids_def)
  moreover have "clause_view (db_tables d2) (contract_id c, clause_id cl)
      = Some (stored_row (contract_id c) now cl (clause_view (db_tables d) (contract_id c, clause_id cl)))"
  proof -
    have "tables_ok (db_tables d1)" using assms(8) by (simp add: t1 fold_insert_row_ok upsert_contract_ok)
    then have "clause_view (db_tables d2) = ingested now' (contract_id c') (clauses c') (clause_view (db_tables d1))"
      using assms(10) by (simp add: t2 fold_insert_row_view upsert_contract_ok)
    moreover have "clause_view (db_tables d1) = ingested now (contract_id c) (clauses c) (clause_view (db_tables d))"
      using assms(8,9) by (simp add: t1 fold_insert_row_view upsert_contract_ok)
    moreover have "find (\<lambda>x. clause_id x = clause_id cl) (clauses c) = Some cl"
      using find_distinct_id[OF assms(9,13)] .
    ultimately show ?thesis using assms(11) by (simp add: ingested_def)
  qed
  ultimately show ?thesis
    by (auto simp: stored_row_def new_clause_def updated_clause_def split: option.splits)
qed

section \<open>Three processes\<close>

text \<open>Process 0 ingests, process 1 has opened the empty index before, process 2 opens it afterwards.\<close>

definition demo_world :: "int local_world" where
  "demo_world = ([1 \<mapsto> empty_index], no_disk)"

definition demo_first_run :: "(exc + string \<times> nat) \<times> (int local_world \<times> db)" where
  "demo_first_run = handle_ingest_contract unit_embed (process_upsert int_numpy 2 0) 7 (ingest_task demo_contract)
     (demo_world, empty_db [])"

definition demo_second_run :: "(exc + string \<times> nat) \<times> (int local_world \<times> db)" where
  "demo_second_run = handle_ingest_contract unit_embed (process_upsert int_numpy 2 1) 8 (ingest_task demo_second)
     (snd demo_first_run)"

abbreviation demo_search :: "nat \<Rightarrow> int local_world \<times> db \<Rightarrow> (exc + int tool_output) \<times> (int local_world \<times> db)" where
  "demo_search p \<equiv> process_search int_numpy 2 p unit_embed ''term?'' 5"

lemma demo_world_ok:
  "init_index 2 (snd demo_world) = Inr empty_index" "fst demo_world 0 = None" "fst demo_world 1 = Some empty_index"
  "fst demo_world 2 = None" "index_ok empty_index" "metadata_ok empty_index" "embeds unit_embed (vec_dim empty_index)"
  "index_ids empty_index = {}" "agree (db_tables (empty_db [])) empty_index"
  by (auto simp: demo_world_def init_index_def no_disk_def empty_index_def index_ok_def metadata_ok_def embeds_def
      unit_embed_def index_ids_def agree_def empty_db_def clause_ids_def index_view_def)

lemma demo_runs:
  "fst demo_first_run = Inr (''c'', 1)" "fst demo_second_run = Inr (''d'', 1)"
  "fst (fst (snd demo_second_run)) 2 = None"
  "(case fst (demo_search 2 (snd demo_first_run)) of Inr (Results rs) \<Rightarrow> map sh_clause_id rs = [''i''] | _ \<Rightarrow> False)"
  "(case fst (demo_search 1 (snd demo_first_run)) of Inr (Results rs) \<Rightarrow> True | _ \<Rightarrow> False)"
  "(case fst (demo_search 2 (snd demo_second_run)) of Inr (Results rs) \<Rightarrow> map sh_clause_id rs = [''j''] | _ \<Rightarrow> False)"
  by code_simp+

lemma demo_search_cases:
  assumes "case fst (demo_search p w) of Inr (Results rs) \<Rightarrow> P rs | _ \<Rightarrow> False"
  obtains rs x where "demo_search p w = (Inr (Results rs), x)" "P rs"
  using assms by (cases "demo_search p w") (auto split: sum.splits tool_output.splits)

theorem ingested_clauses_are_found_witness:
  "\<exists>rs x y. demo_search 2 (snd demo_first_run) = (Inr (Results rs), x) \<and> length rs = 1
     \<and> demo_search 1 (snd demo_first_run) = (Inr (Results []), y)"
proof -
  obtain s1 d1 where run: "demo_first_run = (Inr (''c'', 1), (s1, d1))"
    using demo_runs(1) by (metis surjective_pairing)
  have owned: "ids_owned (db_tables (empty_db [])) demo_contract" by (simp add: ids_owned_def empty_db_def)
  have q: "unit_embed [''term?''] s = (Inr [[1, 0]], s)" for s :: "int local_world" by (simp add: unit_embed_def)
  obtain rs x where new: "demo_search 2 (s1, d1) = (Inr (Results rs), x)"
    using demo_runs(4) by (rule demo_search_cases) (simp add: run)
  obtain rs0 y where old: "demo_search 1 (s1, d1) = (Inr (Results rs0), y)"
    using demo_runs(5) by (rule demo_search_cases) (simp add: run)
  have ne: "(2 :: nat) \<noteq> 0" "(1 :: nat) \<noteq> 0" "0 \<le> (5 :: int)" by simp_all
  from ingested_clauses_are_found[OF demo_world_ok(1) disjI1[OF demo_world_ok(2)] demo_world_ok(6,9,7) demo_ids owned
      run[unfolded demo_first_run_def] ne(3) q demo_world_ok(4) ne(1) new demo_world_ok(3) ne(2) old]
  have "clause_ids (db_tables d1) = {''i''}" "length rs = min (nat 5) (card (clause_ids (db_tables d1)))" "rs0 = []"
    by (auto simp: demo_world_ok(8) demo_contract_def demo_clause_def clause_ids_def empty_db_def)
  with new old show ?thesis by (auto simp: run)
qed

theorem local_workers_lose_vectors_witness:
  "\<exists>r rs x. clause_view (db_tables (snd (snd demo_second_run))) (''c'', ''i'') = Some r \<and> cr_vector_id r = Some ''i''
     \<and> demo_search 2 (snd demo_second_run) = (Inr (Results rs), x) \<and> ''i'' \<notin> sh_clause_id ` set rs"
proof -
  obtain s1 d1 where run: "demo_first_run = (Inr (''c'', 1), (s1, d1))"
    using demo_runs(1) by (metis surjective_pairing)
  obtain s2 d2 where run2: "demo_second_run = (Inr (''d'', 1), (s2, d2))"
    using demo_runs(2) by (metis surjective_pairing)
  obtain rs x where found: "demo_search 2 (s2, d2) = (Inr (Results rs), x)"
    using demo_runs(6) by (rule demo_search_cases) (simp add: run2)
  have "fst s2 2 = None" using demo_runs(3) by (simp add: run2)
  moreover have "distinct (map clause_id (clauses demo_second))" "contract_id demo_contract \<noteq> contract_id demo_second"
    "clauses demo_second \<noteq> []" "demo_clause \<in> set (clauses demo_contract)" "clause_id demo_clause \<notin> index_ids empty_index"
    "clause_id demo_clause \<notin> clause_id ` set (clauses demo_second)" "(0 :: nat) \<noteq> 1"
    by (simp_all add: demo_second_def demo_contract_def demo_clause_def demo_world_ok(8))
  moreover have "handle_ingest_contract unit_embed (process_upsert int_numpy 2 1) 8 (ingest_task demo_second) (s1, d1)
      = (Inr (''d'', 1), (s2, d2))"
    using run2 by (simp add: demo_second_run_def run)
  ultimately obtain r where "clause_view (db_tables d2) (contract_id demo_contract, clause_id demo_clause) = Some r"
    "cr_vector_id r = Some (clause_id demo_clause)" "clause_id demo_clause \<notin> sh_clause_id ` set rs"
    using local_workers_lose_vectors[OF demo_world_ok(1) disjI1[OF demo_world_ok(2)] demo_world_ok(3) _ demo_world_ok(5-7)
        empty_db_ok(1) demo_ids _ _ _ _ _ _ run[unfolded demo_first_run_def] _ _ found] by blast
  with found show ?thesis by (auto simp: run2 demo_contract_def demo_clause_def)
qed

end
