(* ===== verification/Overlap.thy ===== *)
theory Overlap
  imports Local_Stores "HOL-Library.Multiset"
begin

text \<open>
  The handler of \<open>scripts/ingest_worker.py\<close> as a process of its own: it gives up control at
  every \<open>await\<close>, so the handlers of several workers overlap on the database and the vector
  store. \<open>ingest_phase\<close> says where a handler is (with the local variables that are still needed),
  and \<open>ingest_step\<close> is the code between two such points. A session is one step, as its
  transaction takes effect as a whole at the commit.

  \<open>overlap\<close> interleaves the steps of any number of handlers, each with its own task, its own
  clock and its own access to the services, \<open>emb i\<close> and \<open>ups i\<close>, on the part of the world outside
  the database; a handler can be killed at any point. With Pinecone that part is the state of the
  service, which all handlers share (\<open>pinecone_upsert\<close>); with the local index it is the indexes
  of all processes and the two files (\<open>process_upsert np k i\<close>).
\<close>

section \<open>The handler in steps\<close>

datatype 'n ingest_phase =
    Upsert_Contract
  | Embed_Texts string "json list" "string list"
  | Upsert_Vectors string "json list" "'n vec_record list"
  | Insert_Clauses string "json list"
  | Ended "exc + string \<times> nat"

definition await :: "(exc + 'a) \<times> 's \<Rightarrow> ('a \<Rightarrow> 'n ingest_phase) \<Rightarrow> 'n ingest_phase \<times> 's" where
  "await rs k = (case rs of (Inl x, s) \<Rightarrow> (Ended (Inl x), s) | (Inr a, s) \<Rightarrow> (k a, s))"

definition go_on :: "exc + 'a \<Rightarrow> ('a \<Rightarrow> 'n ingest_phase) \<Rightarrow> 'n ingest_phase" where
  "go_on r k = (case r of Inl x \<Rightarrow> Ended (Inl x) | Inr a \<Rightarrow> k a)"

fun ingest_step ::
    "(string list \<Rightarrow> ('e, 'n list list) eff) \<Rightarrow> ('n vec_record list \<Rightarrow> ('e, unit) eff) \<Rightarrow> int
       \<Rightarrow> task \<Rightarrow> 'n ingest_phase \<times> ('e \<times> db) \<Rightarrow> 'n ingest_phase \<times> ('e \<times> db)" where
  "ingest_step emb ups now t (Upsert_Contract, s) =
     (case bindX (payload_fields (payload t))
         (\<lambda>(cid_v, fn_v, cl). bindX (as_str cid_v) (\<lambda>cid. bindX (as_str fn_v) (\<lambda>fn. Inr (cid, fn, cl)))) of
        Inl x \<Rightarrow> (Ended (Inl x), s)
      | Inr (cid, fn, cl) \<Rightarrow>
          await (on_db (session (db_call (\<lambda>ts. ((), upsert_contract cid fn now ts)))) s)
            (\<lambda>_. if \<not> json_truthy cl then Ended (Inr (cid, 0))
              else go_on (bindX (json_iter cl)
                  (\<lambda>cs. bindX (collect (\<lambda>c. str_field c ''text'') cs) (\<lambda>texts. Inr (cs, texts))))
                (\<lambda>(cs, texts). Embed_Texts cid cs texts)))"
| "ingest_step emb ups now t (Embed_Texts cid cs texts, s) =
     await (on_env (emb texts) s)
       (\<lambda>vectors. go_on (collect (clause_record cid) (zip cs vectors)) (Upsert_Vectors cid cs))"
| "ingest_step emb ups now t (Upsert_Vectors cid cs records, s) =
     await (on_env (ups records) s) (\<lambda>_. Insert_Clauses cid cs)"
| "ingest_step emb ups now t (Insert_Clauses cid cs, s) =
     await (on_db (session (forE cs (insert_clause cid now))) s) (\<lambda>_. Ended (Inr (cid, length cs)))"
| "ingest_step emb ups now t (Ended r, s) = (Ended r, s)"

text \<open>
  The handler is the sequence of its steps: left alone from its first line, it has ended
  after four steps, with the same result and in the same state as \<open>handle_ingest_contract\<close>, for
  every task and whatever fails.
\<close>

lemma handler_in_steps:
  "(ingest_step emb ups now t ^^ 4) (Upsert_Contract, s)
     = (case handle_ingest_contract emb ups now t s of (r, s') \<Rightarrow> (Ended r, s'))"
  by (simp add: eval_nat_numeral handle_ingest_contract_def ingest_clauses_def bindE_def bindX_def liftE_apply
      retE_apply await_def go_on_def split: sum.split prod.split)

section \<open>Overlapping handlers\<close>

fun ended :: "'n ingest_phase \<Rightarrow> bool" where
  "ended (Ended _) = True"
| "ended _ = False"

fun returned :: "'n ingest_phase \<Rightarrow> bool" where
  "returned (Ended (Inr _)) = True"
| "returned _ = False"

inductive overlap ::
    "(nat \<Rightarrow> string list \<Rightarrow> ('e, 'n list list) eff) \<Rightarrow> (nat \<Rightarrow> 'n vec_record list \<Rightarrow> ('e, unit) eff) \<Rightarrow> task list
       \<Rightarrow> (nat \<Rightarrow> 'n ingest_phase) \<times> ('e \<times> db) \<Rightarrow> (nat \<Rightarrow> 'n ingest_phase) \<times> ('e \<times> db) \<Rightarrow> bool"
  for emb ups ts where
  overlap_step:
    "i < length ts \<Longrightarrow> ingest_step (emb i) (ups i) now (ts ! i) (ph i, w) = (p', w') \<Longrightarrow>
     overlap emb ups ts (ph, w) (ph(i := p'), w')"
| overlap_kill:
    "i < length ts \<Longrightarrow> \<not> ended (ph i) \<Longrightarrow>
     overlap emb ups ts (ph, w) (ph(i := Ended (Inl CancelledError)), w)"

abbreviation overlaps ::
    "(nat \<Rightarrow> string list \<Rightarrow> ('e, 'n list list) eff) \<Rightarrow> (nat \<Rightarrow> 'n vec_record list \<Rightarrow> ('e, unit) eff) \<Rightarrow> task list
       \<Rightarrow> (nat \<Rightarrow> 'n ingest_phase) \<times> ('e \<times> db) \<Rightarrow> (nat \<Rightarrow> 'n ingest_phase) \<times> ('e \<times> db) \<Rightarrow> bool" where
  "overlaps emb ups ts \<equiv> (overlap emb ups ts)\<^sup>*\<^sup>*"

text \<open>A schedule, for the witnesses: the numbers of the handlers in the order of their steps.\<close>

fun scheduled ::
    "(nat \<Rightarrow> string list \<Rightarrow> ('e, 'n list list) eff) \<Rightarrow> (nat \<Rightarrow> 'n vec_record list \<Rightarrow> ('e, unit) eff) \<Rightarrow> task list
       \<Rightarrow> nat list \<Rightarrow> (nat \<Rightarrow> 'n ingest_phase) \<times> ('e \<times> db) \<Rightarrow> (nat \<Rightarrow> 'n ingest_phase) \<times> ('e \<times> db)" where
  "scheduled emb ups ts [] c = c"
| "scheduled emb ups ts (i # is) (ph, w) =
     (case ingest_step (emb i) (ups i) 7 (ts ! i) (ph i, w) of (p', w') \<Rightarrow>
        scheduled emb ups ts is (ph(i := p'), w'))"

lemma scheduled_overlaps:
  "set is \<subseteq> {..<length ts} \<Longrightarrow> overlaps emb ups ts c (scheduled emb ups ts is c)"
proof (induction "is" arbitrary: c)
  case (Cons i "is")
  obtain ph w p' w' where c: "c = (ph, w)" and step: "ingest_step (emb i) (ups i) 7 (ts ! i) (ph i, w) = (p', w')"
    by (metis surj_pair)
  have "overlap emb ups ts c (ph(i := p'), w')"
    unfolding c by (rule overlap_step[where now = 7]) (use Cons.prems step in simp_all)
  moreover have "overlaps emb ups ts (ph(i := p'), w') (scheduled emb ups ts (i # is) c)"
    using Cons by (simp add: c step)
  ultimately show ?case by (rule converse_rtranclp_into_rtranclp)
qed simp


section \<open>What a step does to the clauses\<close>

text \<open>The local variables of a handler that ingests the contract \<open>c\<close>.\<close>

fun phase_ok :: "parsed_contract \<Rightarrow> 'n ingest_phase \<Rightarrow> bool" where
  "phase_ok c Upsert_Contract = True"
| "phase_ok c (Embed_Texts cid cs texts) =
     (cid = contract_id c \<and> cs = map clause_json (clauses c) \<and> texts = map clause_text (clauses c))"
| "phase_ok c (Upsert_Vectors cid cs records) =
     (cid = contract_id c \<and> cs = map clause_json (clauses c)
      \<and> (\<exists>vs. records = map (contract_record (contract_id c)) (zip (clauses c) vs)))"
| "phase_ok c (Insert_Clauses cid cs) = (cid = contract_id c \<and> cs = map clause_json (clauses c))"
| "phase_ok c (Ended r) = True"

lemma ingested_Nil [simp]: "ingested now cid [] m = m"
  by (auto simp: ingested_def fun_eq_iff)

lemma session_clauses:
  "session (forE (map clause_json cs) (insert_clause cid now)) d = (r, d') \<Longrightarrow>
     db_tables d' = (case r of Inl x \<Rightarrow> db_tables d | Inr _ \<Rightarrow> fold (insert_row cid now) cs (db_tables d))"
  by (cases r) (auto dest: session_Inl elim!: session_Inr dest!: insert_clauses_Inr)

lemma session_contract:
  "session (db_call (\<lambda>ts. ((), upsert_contract cid fn now ts))) d = (r, d') \<Longrightarrow>
     db_tables d' = (case r of Inl x \<Rightarrow> db_tables d | Inr _ \<Rightarrow> upsert_contract cid fn now (db_tables d))"
  by (cases r) (auto dest: session_Inl write_session_Inr)

lemma first_step:
  assumes "ingest_step emb ups now (ingest_task c) (Upsert_Contract, (e, d)) = (p', (e', d'))"
  obtains r where "session (db_call (\<lambda>ts. ((), upsert_contract (contract_id c) (filename c) now ts))) d = (r, d')"
    and "e' = e" and "p' = (case r of Inl x \<Rightarrow> Ended (Inl x)
      | Inr _ \<Rightarrow> if clauses c = [] then Ended (Inr (contract_id c, 0))
          else Embed_Texts (contract_id c) (map clause_json (clauses c)) (map clause_text (clauses c)))"
proof -
  obtain r d1 where s: "session (db_call (\<lambda>ts. ((), upsert_contract (contract_id c) (filename c) now ts))) d = (r, d1)"
    by (metis surj_pair)
  show thesis
    using that[of r] assms s
    by (cases r) (auto simp: payload_ingest_task as_str_def bindX_def await_def go_on_def on_db_def collect_texts)
qed

lemma step_phase:
  assumes "ingest_step emb ups now (ingest_task c) (p, (e, d)) = (p', (e', d'))" "phase_ok c p"
  shows "phase_ok c p' \<and> (returned p \<longrightarrow> returned p')"
proof (cases p)
  case Upsert_Contract
  then show ?thesis
    by (auto intro: first_step[OF assms(1)[unfolded Upsert_Contract]] split: sum.splits)
next
  case (Ended r)
  with assms show ?thesis by (cases r) auto
qed (use assms in \<open>auto simp: await_def go_on_def on_env_def on_db_def collect_records split: prod.splits sum.splits\<close>)

lemma step_clauses:
  assumes "ingest_step emb ups now (ingest_task c) (p, (e, d)) = (p', (e', d'))"
    and "phase_ok c p" "tables_ok (db_tables d)" "distinct (map clause_id (clauses c))"
  shows "tables_ok (db_tables d') \<and> clause_view (db_tables d') = (if \<not> returned p \<and> returned p'
        then task_effect (c, Some now) (clause_view (db_tables d)) else clause_view (db_tables d))"
proof (cases p)
  case Upsert_Contract
  obtain r where "session (db_call (\<lambda>ts. ((), upsert_contract (contract_id c) (filename c) now ts))) d = (r, d')"
    "e' = e" "p' = (case r of Inl x \<Rightarrow> Ended (Inl x)
      | Inr _ \<Rightarrow> if clauses c = [] then Ended (Inr (contract_id c, 0))
          else Embed_Texts (contract_id c) (map clause_json (clauses c)) (map clause_text (clauses c)))"
    by (rule first_step[OF assms(1)[unfolded Upsert_Contract]])
  with Upsert_Contract assms(3) show ?thesis
    by (cases r) (auto dest!: session_contract simp: upsert_contract_ok task_effect_def)
next
  case (Embed_Texts cid cs texts)
  with assms show ?thesis
    by (auto simp: await_def go_on_def on_env_def split: prod.splits sum.splits)
next
  case (Upsert_Vectors cid cs records)
  with assms show ?thesis by (auto simp: await_def on_env_def split: prod.splits sum.splits)
next
  case (Insert_Clauses cid cs)
  obtain r d1 where s: "session (forE (map clause_json (clauses c)) (insert_clause (contract_id c) now)) d = (r, d1)"
    by (metis surj_pair)
  from Insert_Clauses s assms(1,2) session_clauses[OF s] show ?thesis
    using assms(3,4) by (cases r) (auto simp: await_def on_db_def fold_insert_row_ok fold_insert_row_view task_effect_def)
next
  case (Ended r)
  with assms show ?thesis by (cases r) auto
qed

section \<open>Any interleaving\<close>

lemma fold_one_last:
  assumes "\<And>x y. x \<in> set js \<Longrightarrow> y \<in> set js \<Longrightarrow> F x \<circ> F y = F y \<circ> F x" "i \<in> set js"
  shows "fold F js m = F i (fold F (remove1 i js) m)"
proof -
  have "fold F js = fold F (remove1 i js @ [i])"
    by (rule fold_multiset_equiv) (use assms in auto)
  then show ?thesis by simp
qed

definition effect_of :: "parsed_contract list \<Rightarrow> (nat \<Rightarrow> 'n ingest_phase) \<Rightarrow> (nat \<Rightarrow> int) \<Rightarrow> nat
    \<Rightarrow> (string \<times> string \<rightharpoonup> clause_row) \<Rightarrow> (string \<times> string \<rightharpoonup> clause_row)" where
  "effect_of cs ph at i = task_effect (cs ! i, if returned (ph i) then Some (at i) else None)"

lemma effect_commute:
  assumes "distinct (map contract_id cs)" "i < length cs" "j < length cs"
  shows "effect_of cs ph at i \<circ> effect_of cs ph at j = effect_of cs ph at j \<circ> effect_of cs ph at i"
proof (cases "i = j")
  case False
  then have "contract_id (cs ! i) \<noteq> contract_id (cs ! j)"
    using assms by (metis length_map nth_eq_iff_index_eq nth_map)
  then show ?thesis unfolding effect_of_def by (intro task_effect_commute) simp
qed simp

text \<open>One handler returns: its effect comes on top of those of the others.\<close>

lemma effects_return:
  assumes "distinct (map contract_id cs)" "mset js = mset [0..<length cs]" "i < length cs"
    and "\<not> returned (ph i)" "returned p'"
  shows "fold (effect_of cs (ph(i := p')) (at(i := now))) js m
    = task_effect (cs ! i, Some now) (fold (effect_of cs ph at) js m)"
proof -
  have js: "set js = {..<length cs}" "distinct js"
    using assms(2) by (metis atLeast_upt set_mset_mset, metis distinct_upt mset_eq_imp_distinct_iff)
  let ?F = "effect_of cs ph at" and ?G = "effect_of cs (ph(i := p')) (at(i := now))"
  have last: "fold (effect_of cs qh bt) js m = effect_of cs qh bt i (fold (effect_of cs qh bt) (remove1 i js) m)"
    for qh :: "nat \<Rightarrow> 'n ingest_phase" and bt
    by (rule fold_one_last) (use js assms(1,3) effect_commute in auto)
  have "fold ?G (remove1 i js) m = fold ?F (remove1 i js) m"
    by (rule fold_cong) (use js(2) in \<open>auto simp: effect_of_def\<close>)
  with last[of "ph(i := p')" "at(i := now)"] last[of ph at] assms(4,5) show ?thesis
    by (simp add: effect_of_def)
qed

lemma effects_same:
  assumes "returned p' = returned (ph i)"
  shows "effect_of cs (ph(i := p')) at = effect_of cs ph at"
  using assms by (auto simp: effect_of_def fun_eq_iff)

lemma overlaps_clauses:
  assumes "overlaps emb ups (map ingest_task cs) (ph0, w0) (ph, w)"
    and "distinct (map contract_id cs)" "\<forall>c \<in> set cs. distinct (map clause_id (clauses c))"
    and "tables_ok (db_tables (snd w0))" "ph0 = (\<lambda>i. Upsert_Contract)"
  shows "tables_ok (db_tables (snd w)) \<and> (\<forall>i < length cs. phase_ok (cs ! i) (ph i))
    \<and> (\<exists>at. \<forall>js. mset js = mset [0..<length cs] \<longrightarrow>
         clause_view (db_tables (snd w)) = fold (effect_of cs ph at) js (clause_view (db_tables (snd w0))))"
  using assms(1)
proof (induction rule: rtranclp_induct2)
  case refl
  have "effect_of cs ph0 at = (\<lambda>i m. m)" for at by (simp add: effect_of_def assms(5) fun_eq_iff)
  then have "fold (effect_of cs ph0 at) js m = m" for at js m by (induction js arbitrary: m) simp_all
  then show ?case using assms(4,5) by simp
next
  case (step ph1 w1 ph2 w2)
  from step.IH obtain at where ok: "tables_ok (db_tables (snd w1))" "\<forall>i < length cs. phase_ok (cs ! i) (ph1 i)"
    and view: "\<And>js. mset js = mset [0..<length cs] \<Longrightarrow>
      clause_view (db_tables (snd w1)) = fold (effect_of cs ph1 at) js (clause_view (db_tables (snd w0)))" by blast
  from step.hyps(2) show ?case
  proof cases
    case (overlap_step i now p')
    then have i: "i < length cs" by simp
    obtain e d e' d' where w: "w1 = (e, d)" "w2 = (e', d')" by (metis surj_pair)
    have "distinct (map clause_id (clauses (cs ! i)))" using assms(3) i by simp
    from step_clauses[OF _ _ _ this, of "emb i" "ups i" now "ph1 i" e d p' e' d']
      step_phase[of "emb i" "ups i" now "cs ! i" "ph1 i" e d p' e' d'] overlap_step ok i
    have s: "phase_ok (cs ! i) p'" "tables_ok (db_tables d')" "returned (ph1 i) \<longrightarrow> returned p'"
      "clause_view (db_tables d') = (if \<not> returned (ph1 i) \<and> returned p'
        then task_effect (cs ! i, Some now) (clause_view (db_tables d)) else clause_view (db_tables d))"
      by (auto simp: w)
    have "\<exists>at'. \<forall>js. mset js = mset [0..<length cs] \<longrightarrow>
        clause_view (db_tables d') = fold (effect_of cs ph2 at') js (clause_view (db_tables (snd w0)))"
    proof (cases "\<not> returned (ph1 i) \<and> returned p'")
      case True
      then show ?thesis
        using effects_return[OF assms(2) _ i, of _ ph1 p' at now] view s(4) overlap_step(1)
        by (intro exI[of _ "at(i := now)"]) (auto simp: w)
    next
      case False
      then have "returned p' = returned (ph1 i)" using s(3) by blast
      with False show ?thesis using effects_same[of p' ph1 i cs at] view s(4) overlap_step(1)
        by (intro exI[of _ at]) (auto simp: w)
    qed
    then have "\<exists>at'. \<forall>js. mset js = mset [0..<length cs] \<longrightarrow>
        clause_view (db_tables (snd w2)) = fold (effect_of cs ph2 at') js (clause_view (db_tables (snd w0)))"
      by (simp only: w snd_conv)
    moreover have "\<forall>j < length cs. phase_ok (cs ! j) (ph2 j)" using s(1) ok(2) overlap_step(1) by simp
    ultimately show ?thesis using s(2) by (simp only: w snd_conv simp_thms)
  next
    case (overlap_kill i)
    then have "returned (ph1 i) = returned (Ended (Inl CancelledError))" by (cases "ph1 i") auto
    then have "effect_of cs ph2 at = effect_of cs ph1 at"
      unfolding overlap_kill(1) by (intro effects_same) simp
    moreover have "\<forall>j < length cs. phase_ok (cs ! j) (ph2 j)" using ok(2) overlap_kill(1) by simp
    ultimately show ?thesis using view ok(1) overlap_kill(2) by (intro conjI exI[of _ at]) simp_all
  qed
qed


text \<open>
  C4: Ingestions may overlap: however the steps of any number of handlers are interleaved, and
  wherever some of them fail or are killed, in every state that is reached the clause table is the
  one from before with exactly the contracts whose handler has returned, each stored as a
  whole; and the order in which these effects are applied does not matter. (The contracts have
  different ids, and the clauses of a contract too.)
\<close>

theorem overlapping_ingestion:
  assumes "overlaps emb ups (map ingest_task cs) (\<lambda>i. Upsert_Contract, w0) (ph, w)"
    and "distinct (map contract_id cs)" and "\<And>c. c \<in> set cs \<Longrightarrow> distinct (map clause_id (clauses c))"
    and "tables_ok (db_tables (snd w0))"
  shows "tables_ok (db_tables (snd w)) \<and> (\<exists>at. \<forall>js. mset js = mset [0..<length cs] \<longrightarrow>
    clause_view (db_tables (snd w)) = fold (\<lambda>i. task_effect (cs ! i, if returned (ph i) then Some (at i) else None))
      js (clause_view (db_tables (snd w0))))"
proof -
  have "\<forall>c \<in> set cs. distinct (map clause_id (clauses c))" using assms(3) by blast
  from overlaps_clauses[OF assms(1,2) this assms(4) refl] show ?thesis
    unfolding effect_of_def[abs_def] by blast
qed

section \<open>Every row has its contract and its vector\<close>

text \<open>
  \<open>stored\<close> is the set of the ids that the vector store holds. The embedder returns one vector for
  each text, neither service takes an id away, and an upsert that returns has stored its records.
  A service that all handlers share behaves like this, as the index of one process does; the files of
  the local index under several processes do not, as \<open>Search_Index\<close> shows.
\<close>

definition keeps_ids ::
    "('e \<Rightarrow> string set) \<Rightarrow> (string list \<Rightarrow> ('e, 'n list list) eff) \<Rightarrow> ('n vec_record list \<Rightarrow> ('e, unit) eff) \<Rightarrow> bool" where
  "keeps_ids stored emb ups \<longleftrightarrow>
     (\<forall>ts e r e'. emb ts e = (r, e') \<longrightarrow> stored e \<subseteq> stored e' \<and> (\<forall>vs. r = Inr vs \<longrightarrow> length vs = length ts))
   \<and> (\<forall>rs e r e'. ups rs e = (r, e') \<longrightarrow> stored e \<subseteq> stored e' \<and> (r = Inr () \<longrightarrow> rec_id ` set rs \<subseteq> stored e'))"

definition contract_ids :: "tables \<Rightarrow> string set" where
  "contract_ids t = ct_contract_id ` set (contract_rows t)"

definition rows_backed :: "tables \<Rightarrow> string set \<Rightarrow> bool" where
  "rows_backed t ids \<longleftrightarrow> (\<forall>r \<in> set (clause_rows t). cr_contract_id r \<in> contract_ids t
     \<and> (\<forall>v. cr_vector_id r = Some v \<longrightarrow> v \<in> ids))"

text \<open>What a handler has done at each of its points.\<close>

fun phase_backed :: "parsed_contract \<Rightarrow> tables \<Rightarrow> string set \<Rightarrow> 'n ingest_phase \<Rightarrow> bool" where
  "phase_backed c t ids (Embed_Texts cid cs texts) = (contract_id c \<in> contract_ids t)"
| "phase_backed c t ids (Upsert_Vectors cid cs records) =
     (contract_id c \<in> contract_ids t \<and> rec_id ` set records = clause_id ` set (clauses c))"
| "phase_backed c t ids (Insert_Clauses cid cs) =
     (contract_id c \<in> contract_ids t \<and> clause_id ` set (clauses c) \<subseteq> ids)"
| "phase_backed c t ids _ = True"

lemma phase_backed_mono:
  "phase_backed c t ids p \<Longrightarrow> contract_ids t \<subseteq> contract_ids t' \<Longrightarrow> ids \<subseteq> ids' \<Longrightarrow> phase_backed c t' ids' p"
  by (cases p) auto

lemma rows_backed_mono:
  "rows_backed t ids \<Longrightarrow> clause_rows t' = clause_rows t \<Longrightarrow> contract_ids t \<subseteq> contract_ids t' \<Longrightarrow> ids \<subseteq> ids'
     \<Longrightarrow> rows_backed t' ids'"
  unfolding rows_backed_def by (simp only:) blast

lemma upsert_contract_ids: "contract_ids (upsert_contract cid fn now t) = insert cid (contract_ids t)"
proof -
  have "map ct_contract_id (map (\<lambda>r. if ct_contract_id r = cid then r\<lparr>ct_filename := fn, ct_ingested_at := now\<rparr> else r) rs)
      = map ct_contract_id rs" for rs
    by (induction rs) auto
  then have "ct_contract_id ` set (map (\<lambda>r. if ct_contract_id r = cid then r\<lparr>ct_filename := fn, ct_ingested_at := now\<rparr> else r) rs)
      = ct_contract_id ` set rs" for rs
    by (metis list.set_map)
  then show ?thesis by (auto simp: contract_ids_def upsert_contract_def simp del: set_map list.set_map)
qed

lemma contract_record_id_set:
  "length vs = length cs \<Longrightarrow> rec_id ` set (map (contract_record cid) (zip cs vs)) = clause_id ` set cs"
  using contract_record_ids[of vs cs cid] by (metis list.set_map)

lemma rows_backed_insert:
  "rows_backed t ids \<Longrightarrow> clause_id c \<in> ids \<Longrightarrow> cid \<in> contract_ids t \<Longrightarrow> rows_backed (insert_row cid now c t) ids"
  by (auto simp: rows_backed_def insert_row_def upsert_clause_def contract_ids_def)

lemma fold_insert_contract_ids [simp]: "contract_ids (fold (insert_row cid now) cs t) = contract_ids t"
  by (simp add: contract_ids_def)

lemma insert_contract_ids [simp]: "contract_ids (insert_row cid now c t) = contract_ids t"
  by (simp add: contract_ids_def)

lemma rows_backed_fold:
  "rows_backed t ids \<Longrightarrow> clause_id ` set cs \<subseteq> ids \<Longrightarrow> cid \<in> contract_ids t
     \<Longrightarrow> rows_backed (fold (insert_row cid now) cs t) ids"
  by (induction cs arbitrary: t) (simp_all add: rows_backed_insert)

lemma step_backed:
  assumes "ingest_step emb ups now (ingest_task c) (p, (e, d)) = (p', (e', d'))"
    and "phase_ok c p" "keeps_ids stored emb ups"
    and "rows_backed (db_tables d) (stored e)" "phase_backed c (db_tables d) (stored e) p"
  shows "stored e \<subseteq> stored e' \<and> contract_ids (db_tables d) \<subseteq> contract_ids (db_tables d')
    \<and> rows_backed (db_tables d') (stored e') \<and> phase_backed c (db_tables d') (stored e') p'"
proof (cases p)
  case Upsert_Contract
  obtain r where s: "session (db_call (\<lambda>ts. ((), upsert_contract (contract_id c) (filename c) now ts))) d = (r, d')"
    "e' = e" "p' = (case r of Inl x \<Rightarrow> Ended (Inl x)
      | Inr _ \<Rightarrow> if clauses c = [] then Ended (Inr (contract_id c, 0))
          else Embed_Texts (contract_id c) (map clause_json (clauses c)) (map clause_text (clauses c)))"
    by (rule first_step[OF assms(1)[unfolded Upsert_Contract]])
  then have "clause_rows (db_tables d') = clause_rows (db_tables d)"
    "contract_ids (db_tables d) \<subseteq> contract_ids (db_tables d')"
    "r = Inr () \<Longrightarrow> contract_id c \<in> contract_ids (db_tables d')"
    by (cases r; auto dest!: session_contract simp: upsert_contract_ids)+
  with s assms(4) rows_backed_mono[OF assms(4)] show ?thesis by (cases r) auto
next
  case (Embed_Texts cid cs texts)
  obtain r e1 where run: "emb texts e = (r, e1)" by (metis surj_pair)
  with assms(3) have "stored e \<subseteq> stored e1" "\<And>vs. r = Inr vs \<Longrightarrow> length vs = length texts"
    unfolding keeps_ids_def by blast+
  with Embed_Texts run assms show ?thesis
    using rows_backed_mono[OF assms(4), of "db_tables d" "stored e1"]
    by (cases r) (auto simp: await_def go_on_def on_env_def collect_records contract_record_id_set
        simp del: set_map list.set_map)
next
  case (Upsert_Vectors cid cs records)
  obtain r e1 where run: "ups records e = (r, e1)" by (metis surj_pair)
  with assms(3) have "stored e \<subseteq> stored e1" "r = Inr () \<Longrightarrow> rec_id ` set records \<subseteq> stored e1"
    unfolding keeps_ids_def by blast+
  with Upsert_Vectors run assms show ?thesis
    using rows_backed_mono[OF assms(4), of "db_tables d" "stored e1"]
    by (cases r) (auto simp: await_def on_env_def)
next
  case (Insert_Clauses cid cs)
  obtain r d1 where s: "session (forE (map clause_json (clauses c)) (insert_clause (contract_id c) now)) d = (r, d1)"
    by (metis surj_pair)
  with Insert_Clauses assms(1,2,4,5) session_clauses[OF s] show ?thesis
    by (cases r) (auto simp: await_def on_db_def rows_backed_fold)
next
  case (Ended r)
  with assms show ?thesis by simp
qed


lemma overlaps_backed:
  assumes "overlaps emb ups (map ingest_task cs) (ph0, w0) (ph, w)"
    and "\<forall>i. keeps_ids stored (emb i) (ups i)" "rows_backed (db_tables (snd w0)) (stored (fst w0))"
    and "ph0 = (\<lambda>i. Upsert_Contract)"
  shows "rows_backed (db_tables (snd w)) (stored (fst w)) \<and> (\<forall>i < length cs. phase_ok (cs ! i) (ph i)
    \<and> phase_backed (cs ! i) (db_tables (snd w)) (stored (fst w)) (ph i))"
  using assms(1)
proof (induction rule: rtranclp_induct2)
  case refl
  then show ?case using assms(3,4) by simp
next
  case (step ph1 w1 ph2 w2)
  from step.hyps(2) show ?case
  proof cases
    case (overlap_step i now p')
    then have i: "i < length cs" by simp
    obtain e d e' d' where w: "w1 = (e, d)" "w2 = (e', d')" by (metis surj_pair)
    have run: "ingest_step (emb i) (ups i) now (ingest_task (cs ! i)) (ph1 i, (e, d)) = (p', (e', d'))"
      using overlap_step i by (simp add: w)
    have ok: "phase_ok (cs ! i) (ph1 i)" "keeps_ids stored (emb i) (ups i)" using step.IH i assms(2) by blast+
    from step_backed[OF run this] step.IH i
    have s: "stored e \<subseteq> stored e'" "contract_ids (db_tables d) \<subseteq> contract_ids (db_tables d')"
      "rows_backed (db_tables d') (stored e')" "phase_backed (cs ! i) (db_tables d') (stored e') p'"
      by (auto simp: w)
    have "phase_backed (cs ! j) (db_tables d') (stored e') (ph1 j)" if "j < length cs" for j
      using phase_backed_mono[OF _ s(2,1)] step.IH that by (auto simp: w)
    with s(3,4) step_phase[OF run ok(1)] step.IH show ?thesis by (simp add: w overlap_step(1))
  next
    case (overlap_kill i)
    with step.IH show ?thesis by simp
  qed
qed

text \<open>
  C5: With the vectors in Pinecone, no clause row is ever without its contract row and its vector:
  the schema has no foreign keys, but in every state that the overlapping handlers of any
  number of workers can reach, also after failures and kills at any point, the contract of every
  clause row is in the contract table and its vector has been stored in the index that all
  workers share. It rests on the order of the steps, on an embedder that returns one vector for each
  text, and on a service that keeps what an upsert has acknowledged.
\<close>

theorem rows_always_backed:
  assumes "overlaps emb (\<lambda>i. pinecone_upsert pc name) (map ingest_task cs) (\<lambda>i. Upsert_Contract, (e0, d0)) (ph, (e, d))"
    and "\<And>i. keeps_ids stored (emb i) (pinecone_upsert pc name)"
    and "rows_backed (db_tables d0) (stored e0)"
  shows "rows_backed (db_tables d) (stored e)"
proof -
  have "\<forall>i. keeps_ids stored (emb i) (pinecone_upsert pc name)" using assms(2) by blast
  from overlaps_backed[OF assms(1) this _ refl] assms(3) show ?thesis by simp
qed

section \<open>Two overlapping handlers\<close>

abbreviation demo_pair :: "parsed_contract list" where
  "demo_pair \<equiv> [demo_contract, demo_second]"

lemma demo_pair_ids:
  "distinct (map contract_id demo_pair)" "c \<in> set demo_pair \<Longrightarrow> distinct (map clause_id (clauses c))"
  by (auto simp: demo_contract_def demo_second_def)

text \<open>
  The first handler returns while the second one has stored its vectors but not its rows; then
  the second one is killed.
\<close>

abbreviation demo_start :: "'e \<Rightarrow> (nat \<Rightarrow> int ingest_phase) \<times> ('e \<times> db)" where
  "demo_start e \<equiv> (\<lambda>i. Upsert_Contract, (e, empty_db []))"

abbreviation demo_overlaps ::
    "(nat \<Rightarrow> int vec_record list \<Rightarrow> ('e, unit) eff) \<Rightarrow> 'e \<Rightarrow> (nat \<Rightarrow> int ingest_phase) \<times> ('e \<times> db) \<Rightarrow> bool" where
  "demo_overlaps ups e c \<equiv> overlaps (\<lambda>i. unit_embed) ups (map ingest_task demo_pair) (demo_start e) c"

definition demo_overlap ::
    "(nat \<Rightarrow> int vec_record list \<Rightarrow> ('e, unit) eff) \<Rightarrow> 'e \<Rightarrow> (nat \<Rightarrow> int ingest_phase) \<times> ('e \<times> db)" where
  "demo_overlap ups e = scheduled (\<lambda>i. unit_embed) ups (map ingest_task demo_pair) [0, 1, 1, 0, 0, 1, 0] (demo_start e)"

abbreviation demo_killed ::
    "(nat \<Rightarrow> int vec_record list \<Rightarrow> ('e, unit) eff) \<Rightarrow> 'e \<Rightarrow> (nat \<Rightarrow> int ingest_phase)" where
  "demo_killed ups e \<equiv> (fst (demo_overlap ups e))(1 := Ended (Inl CancelledError))"

lemma demo_overlap_killed:
  assumes "\<not> ended (fst (demo_overlap ups e) 1)"
  shows "demo_overlaps ups e (demo_killed ups e, snd (demo_overlap ups e))"
proof -
  have "demo_overlaps ups e (fst (demo_overlap ups e), snd (demo_overlap ups e))"
    unfolding prod.collapse demo_overlap_def by (rule scheduled_overlaps) simp
  moreover have "overlap (\<lambda>i. unit_embed) ups (map ingest_task demo_pair)
      (fst (demo_overlap ups e), snd (demo_overlap ups e)) (demo_killed ups e, snd (demo_overlap ups e))"
    by (rule overlap_kill) (use assms in simp_all)
  ultimately show ?thesis by (rule rtranclp.rtrancl_into_rtrancl)
qed

text \<open>With the local index: the handlers 0 and 1 run in processes of their own, over files not yet written.\<close>

abbreviation demo_local :: "(nat \<Rightarrow> int ingest_phase) \<times> (int local_world \<times> db)" where
  "demo_local \<equiv> demo_overlap (process_upsert int_numpy 2) (Map.empty, no_disk)"

lemma demo_local_state: "returned (fst demo_local 0)" "\<not> ended (fst demo_local 1)"
  by code_simp+

theorem overlapping_ingestion_witness:
  "\<exists>ph w now. demo_overlaps (process_upsert int_numpy 2) (Map.empty, no_disk) (ph, w) \<and> ph 1 = Ended (Inl CancelledError)
     \<and> clause_view (db_tables (snd w)) = task_effect (demo_contract, Some now) Map.empty"
proof -
  let ?ph = "(fst demo_local)(1 := Ended (Inl CancelledError))"
  note killed = demo_overlap_killed[OF demo_local_state(2)]
  have "tables_ok (db_tables (snd ((Map.empty, no_disk) :: int local_world, empty_db [])))" by (simp add: empty_db_ok)
  from overlapping_ingestion[OF killed demo_pair_ids this] obtain at where
    at: "\<And>js. mset js = mset [0..<length demo_pair] \<Longrightarrow> clause_view (db_tables (snd (snd demo_local)))
      = fold (\<lambda>i. task_effect (demo_pair ! i, if returned (?ph i) then Some (at i) else None)) js
          (clause_view (db_tables (empty_db [])))"
    unfolding snd_conv by blast
  have "[0..<length demo_pair] = [0, 1]" by (simp add: eval_nat_numeral)
  with at[OF refl] have "clause_view (db_tables (snd (snd demo_local))) = task_effect (demo_contract, Some (at 0)) Map.empty"
    using demo_local_state(1) by (simp add: empty_db_ok)
  then show ?thesis using killed by (intro exI[of _ ?ph] exI[of _ "snd demo_local"] exI[of _ "at 0"]) simp
qed

text \<open>With Pinecone: a service whose state is the ids stored in each of its indexes.\<close>

definition demo_pinecone :: "((string \<times> string) list, int, int) pinecone" where
  "demo_pinecone = \<lparr>pc_list_indexes = (\<lambda>e. (Inr (map fst e), e)), pc_create_index = (\<lambda>name n e. (Inr (), e)),
     pc_upsert = (\<lambda>name rs e. (Inr (), map (\<lambda>r. (name, rec_id r)) rs @ e)), pc_query = (\<lambda>name q k flt e. (Inr None, e))\<rparr>"

abbreviation ids_in :: "string \<Rightarrow> (string \<times> string) list \<Rightarrow> string set" where
  "ids_in name e \<equiv> {i. (name, i) \<in> set e}"

lemma demo_pinecone_keeps: "keeps_ids (ids_in name) unit_embed (pinecone_upsert demo_pinecone name)"
  by (auto simp: keeps_ids_def unit_embed_def pinecone_upsert_def demo_pinecone_def)

abbreviation demo_remote :: "(nat \<Rightarrow> int ingest_phase) \<times> ((string \<times> string) list \<times> db)" where
  "demo_remote \<equiv> demo_overlap (\<lambda>i. pinecone_upsert demo_pinecone ''legallens-clauses'') []"

lemma demo_remote_state:
  "\<not> ended (fst demo_remote 1)" "fst (snd demo_remote) = [(''legallens-clauses'', ''j''), (''legallens-clauses'', ''i'')]"
  "map cr_clause_id (clause_rows (db_tables (snd (snd demo_remote)))) = [''i'']"
  by code_simp+

theorem rows_always_backed_witness:
  "rows_backed (db_tables (snd (snd demo_remote))) {''i'', ''j''} \<and> clause_rows (db_tables (snd (snd demo_remote))) \<noteq> []"
proof -
  let ?n = "''legallens-clauses''"
  obtain e d where ed: "snd demo_remote = (e, d)" by (metis surj_pair)
  have "rows_backed (db_tables d) (ids_in ?n e)"
  proof (rule rows_always_backed[where pc = demo_pinecone and name = ?n and emb = "\<lambda>i. unit_embed"
        and stored = "ids_in ?n" and cs = demo_pair])
    show "demo_overlaps (\<lambda>i. pinecone_upsert demo_pinecone ?n) []
        (demo_killed (\<lambda>i. pinecone_upsert demo_pinecone ?n) [], (e, d))"
      using demo_overlap_killed[OF demo_remote_state(1)] by (simp only: ed)
    show "rows_backed (db_tables (empty_db [])) (ids_in ?n [])" by (simp add: rows_backed_def empty_db_def)
  qed (rule demo_pinecone_keeps)
  moreover have "ids_in ?n e = {''i'', ''j''}" using demo_remote_state(2) by (auto simp: ed)
  moreover have "clause_rows (db_tables d) \<noteq> []" using demo_remote_state(3) by (auto simp: ed)
  ultimately show ?thesis by (simp add: ed)
qed

end
