(* ===== verification/Ingest_Cli.thy ===== *)
theory Ingest_Cli
  imports Ingest
begin

text \<open>
  The command line of the ingestion driver: \<open>_cli\<close> of \<open>scripts/ingest.py\<close> and the call of \<open>main\<close>
  with the parsed arguments. The parser of argparse is modelled for the two options of the
  script, with the value as the next argument or after an equals sign; abbreviated options,
  \<open>--help\<close>, \<open>--\<close> and positional arguments are outside of the model (\<open>unmodelled\<close>). argparse ends the
  process with \<open>SystemExit\<close> when a value is missing or is not an integer.

  The files are a parameter: \<open>read\<close> is the text of a file or the exception of opening it. \<open>main\<close>
  opens the file when it asks the parser for the first contract, after the workers are known.
\<close>

record cli_args =
  arg_cuad_json :: string
  arg_limit :: "int option"

text \<open>
  A value that looks like an option is not taken as one: a hyphen alone and negative numbers
  are values. Fractions and arguments with a blank have rules of their own.
\<close>

definition option_value :: "string \<Rightarrow> exc + string" where
  "option_value v =
     (if \<not> startswith v ''-'' \<or> v = ''-'' \<or> list_all is_digit (tl v) then Inr v
      else if v = ''--'' \<or> CHR '' '' \<in> set v \<or> CHR ''.'' \<in> set v then Inl unmodelled
      else Inl (SystemExit ''expected one argument''))"

definition limit_value :: "string \<Rightarrow> exc + int" where
  "limit_value v = (case py_int v of
      Inl _ \<Rightarrow> Inl (SystemExit ''argument --limit: invalid int value'') | Inr n \<Rightarrow> Inr n)"

fun cli_loop :: "string list \<Rightarrow> cli_args \<Rightarrow> exc + cli_args" where
  "cli_loop [] a = Inr a"
| "cli_loop [v] a =
     (if v = ''--cuad-json'' \<or> v = ''--limit'' then Inl (SystemExit ''expected one argument'')
      else if startswith v ''--cuad-json='' then Inr (a\<lparr>arg_cuad_json := drop 12 v\<rparr>)
      else if startswith v ''--limit='' then bindX (limit_value (drop 8 v)) (\<lambda>n. Inr (a\<lparr>arg_limit := Some n\<rparr>))
      else Inl unmodelled)"
| "cli_loop (o' # v # vs) a =
     (if o' = ''--cuad-json'' then bindX (option_value v) (\<lambda>p. cli_loop vs (a\<lparr>arg_cuad_json := p\<rparr>))
      else if o' = ''--limit'' then bindX (bindX (option_value v) limit_value)
        (\<lambda>n. cli_loop vs (a\<lparr>arg_limit := Some n\<rparr>))
      else if startswith o' ''--cuad-json='' then cli_loop (v # vs) (a\<lparr>arg_cuad_json := drop 12 o'\<rparr>)
      else if startswith o' ''--limit='' then bindX (limit_value (drop 8 o'))
        (\<lambda>n. cli_loop (v # vs) (a\<lparr>arg_limit := Some n\<rparr>))
      else Inl unmodelled)"

text \<open>\<open>root\<close> is the directory above the one of the script.\<close>

definition default_cuad_json :: "string \<Rightarrow> string" where
  "default_cuad_json root = root @ ''/data/cuad/CUAD_v1.json''"

definition cli :: "string \<Rightarrow> string list \<Rightarrow> exc + cli_args" where
  "cli root argv = cli_loop argv \<lparr>arg_cuad_json = default_cuad_json root, arg_limit = None\<rparr>"

definition ingest_script ::
    "(string \<Rightarrow> exc + string) \<Rightarrow> (json option \<Rightarrow> exc + int option) \<Rightarrow> 'w redis \<Rightarrow> (task \<Rightarrow> string)
       \<Rightarrow> string \<Rightarrow> string list \<Rightarrow> (hash_ring \<times> 'w, nat \<times> bool) eff" where
  "ingest_script read start_of api dump root argv =
     bindE (liftE (cli root argv))
       (\<lambda>a. ingest_main api dump
          (case read (arg_cuad_json a) of Inl e \<Rightarrow> ([], Some e) | Inr txt \<Rightarrow> parse_cuad start_of txt)
          (arg_limit a))"

section \<open>Laws\<close>

lemma str_nat_value: "option_value (str_nat n) = Inr (str_nat n)"
proof -
  have "is_digit (hd (str_nat n))" using str_nat_digits[of n] str_nat_nonempty[of n] by simp
  then have "\<not> startswith (str_nat n) ''-''"
    using str_nat_nonempty[of n] by (cases "str_nat n") (auto simp: is_digit_def code_def)
  then show ?thesis by (simp add: option_value_def)
qed

lemma negative_value: "option_value (CHR ''-'' # str_nat n) = Inr (CHR ''-'' # str_nat n)"
  using str_nat_digits[of n] by (simp add: option_value_def list_all_iff)

lemma py_int_negative: "py_int (CHR ''-'' # str_nat n) = Inr (- int n)"
proof -
  have d: "\<forall>c \<in> set (str_nat n). is_digit c" by (rule str_nat_digits)
  have "\<not> is_space c" if "is_digit c" for c
    using that by (auto simp: is_digit_def is_space_def code_def)
  moreover have "is_digit (last (str_nat n))" using d str_nat_nonempty[of n] by simp
  ultimately have "\<not> is_space (last (CHR ''-'' # str_nat n))" "\<not> is_space (hd (CHR ''-'' # str_nat n))"
    using str_nat_nonempty[of n] by (simp_all add: is_space_def code_def)
  then have "strip (CHR ''-'' # str_nat n) = CHR ''-'' # str_nat n"
    unfolding strip_def by (intro strip_by_id) simp_all
  with d show ?thesis
    using digit_groups_digits[OF str_nat_nonempty d] py_int_str_nat[of n]
    by (simp add: py_int_def filter_id_conv)
qed

lemma limit_numbers:
  "limit_value (str_nat n) = Inr (int n)" "limit_value (CHR ''-'' # str_nat n) = Inr (- int n)"
  by (simp_all add: limit_value_def py_int_str_nat py_int_negative)

text \<open>Both spellings of the options, in either order.\<close>

lemma cli_options:
  "cli root [] = Inr \<lparr>arg_cuad_json = default_cuad_json root, arg_limit = None\<rparr>"
  "cli root [''--limit'', str_nat n] = Inr \<lparr>arg_cuad_json = default_cuad_json root, arg_limit = Some (int n)\<rparr>"
  "cli root [''--limit='' @ str_nat n] = Inr \<lparr>arg_cuad_json = default_cuad_json root, arg_limit = Some (int n)\<rparr>"
  "cli root [''--limit'', CHR ''-'' # str_nat n] = Inr \<lparr>arg_cuad_json = default_cuad_json root, arg_limit = Some (- int n)\<rparr>"
  "option_value p = Inr p \<Longrightarrow>
     cli root [''--cuad-json'', p, ''--limit'', str_nat n] = Inr \<lparr>arg_cuad_json = p, arg_limit = Some (int n)\<rparr>"
  by (simp_all add: cli_def bindX_def str_nat_value negative_value limit_numbers)

text \<open>
  What a run with \<open>--limit n\<close> sends: the first \<open>n\<close> contracts of the file, but all of them for 0 and
  none for a negative number.
\<close>

lemma limited_int:
  "length (limited (Some (int n)) 0 cs) = (if n = 0 then length cs else min n (length cs))"
  "0 < n \<Longrightarrow> limited (Some (- int n)) 0 cs = []"
  "limited None 0 cs = cs"
  by (simp_all add: limited_def min.commute)

lemma ingest_script_limit:
  assumes "redis_queues api q" and "reads_keep api q"
    and "read (default_cuad_json root) = Inr txt"
    and "ingest_script read start_of api dump root [''--limit'', str_nat n] (r0, w) = (Inr (m, False), (r, w'))"
  shows "m = (if n = 0 then length (fst (parse_cuad start_of txt)) else min n (length (fst (parse_cuad start_of txt))))"
proof -
  have "ingest_main api dump (parse_cuad start_of txt) (Some (int n)) (r0, w) = (Inr (m, False), (r, w'))"
    using assms(4) by (simp add: ingest_script_def cli_options assms(3) bindE_def liftE_apply)
  from ingest_main_pushes(1)[OF assms(1,2) this] show ?thesis by (simp add: limited_int)
qed

end
