(* ===== verification/Ring_Tests.thy ===== *)
theory Ring_Tests
  imports Hash_Ring
begin

text \<open>
  The unit tests of the ring (\<open>tests/test_hash_ring.py\<close>) as functions of the model, and that they
  pass: the tests that assert what holds for every hash function. The others count how
  many of some thousand keys a worker gets under MD5.
\<close>

definition test_empty_ring_returns_none :: bool where
  "test_empty_ring_returns_none \<longleftrightarrow> get_worker (ring_init default_virtual_nodes) ''contract-1'' = Inr None"

definition test_deterministic_routing :: bool where
  "test_deterministic_routing \<longleftrightarrow>
     (let ring = add_worker (add_worker (add_worker (ring_init default_virtual_nodes) ''w1'') ''w2'') ''w3'';
          assignments = map (\<lambda>i. (''c-'' @ str_nat i, get_worker ring (''c-'' @ str_nat i))) [0..<100]
      in list_all (\<lambda>(k, v). get_worker ring k = v) assignments)"

definition test_remove_worker_minimally_reshuffles :: bool where
  "test_remove_worker_minimally_reshuffles \<longleftrightarrow>
     (let ring = fold (\<lambda>w r. add_worker r w) [''w1'', ''w2'', ''w3'', ''w4''] (ring_init 200);
          before = map (\<lambda>i. (''k-'' @ str_nat i, get_worker ring (''k-'' @ str_nat i))) [0..<2000];
          ring' = remove_worker ring ''w4''
      in list_all (\<lambda>(k, w). w \<noteq> Inr (Some ''w4'') \<longrightarrow> get_worker ring' k = w) before)"

lemma empty_ring_test: "test_empty_ring_returns_none"
  by (simp add: test_empty_ring_returns_none_def get_worker_def ring_init_def)

lemma deterministic_test: "test_deterministic_routing"
  by (simp add: test_deterministic_routing_def Let_def list_all_iff)

text \<open>The worker added last holds all its positions, so its removal moves only its own keys, collisions or not.\<close>

lemma owns_positions_added: "owns_positions (add_worker r w) w"
  by (simp add: owns_positions_def view_add)

lemma remove_last_added:
  assumes "ring_ok r" "get_worker (add_worker r w) key \<noteq> Inr (Some w)"
  shows "get_worker (remove_worker (add_worker r w) w) key = get_worker (add_worker r w) key"
  using owner_after_remove[OF owns_positions_added[of r w], of "ring_hash key"] assms
  by (simp add: get_worker_refines)

lemma remove_test: "test_remove_worker_minimally_reshuffles"
  using remove_last_added[of "add_worker (add_worker (add_worker (ring_init 200) ''w1'') ''w2'') ''w3''" "''w4''"]
  by (auto simp: test_remove_worker_minimally_reshuffles_def Let_def list_all_iff)

end
