(* ===== verification/Download.thy ===== *)
theory Download
  imports Sentinel_Client
begin

text \<open>
  Model of \<open>scripts/download_cuad.py\<close>. The file system is the target directory and the
  archive in it. The network is a parameter: \<open>Inl\<close> is an exception before the body (the
  connection, the status check, the length header), \<open>Inr\<close> the chunks that arrive and the
  exception that breaks the stream off, if one does. Progress output is not modelled.
\<close>

record 'b cuad_dir =
  dir_exists :: bool
  data_zip :: "'b list option"

fun write_chunks :: "'b list list \<Rightarrow> exc option \<Rightarrow> ('b cuad_dir, unit) eff" where
  "write_chunks [] end_exc d = (case end_exc of None \<Rightarrow> (Inr (), d) | Some e \<Rightarrow> (Inl e, d))"
| "write_chunks (c # cs) end_exc d =
     write_chunks cs end_exc (d\<lparr>data_zip := Some ((case data_zip d of None \<Rightarrow> [] | Some b \<Rightarrow> b) @ c)\<rparr>)"

definition download :: "exc + 'b list list \<times> exc option \<Rightarrow> ('b cuad_dir, unit) eff" where
  "download response d =
     (let d' = d\<lparr>dir_exists := True\<rparr>
      in if data_zip d' \<noteq> None then (Inr (), d')
         else case response of
             Inl e \<Rightarrow> (Inl e, d')
           | Inr (chunks, end_exc) \<Rightarrow> write_chunks chunks end_exc (d'\<lparr>data_zip := Some []\<rparr>))"

lemma write_chunks_result:
  "data_zip d = Some b \<Longrightarrow> write_chunks cs end_exc d =
     ((case end_exc of None \<Rightarrow> Inr () | Some e \<Rightarrow> Inl e), d\<lparr>data_zip := Some (b @ concat cs)\<rparr>)"
  by (induction cs arbitrary: d b) (simp_all split: option.splits)

text \<open>A download that returns has stored the whole body, and a second run does not touch it.\<close>

lemma download_complete:
  assumes "data_zip d = None"
  shows "download (Inr (cs, None)) d = (Inr (), \<lparr>dir_exists = True, data_zip = Some (concat cs)\<rparr>)
    \<and> download response (snd (download (Inr (cs, None)) d)) = (Inr (), snd (download (Inr (cs, None)) d))"
  using assms by (cases d) (simp add: download_def Let_def write_chunks_result)

text \<open>
  A stream that breaks off leaves the truncated archive in place, and the next run takes it for
  the complete one: it returns without an exception and without asking the network.
\<close>

lemma broken_download_accepted:
  assumes "data_zip d = None" and "download (Inr (cs, Some e)) d = (r, d1)"
  shows "r = Inl e \<and> data_zip d1 = Some (concat cs) \<and> download response d1 = (Inr (), d1)"
  using assms by (cases d) (auto simp: download_def Let_def write_chunks_result)

end
