(* ===== verification/Spec2Isabelle.thy ===== *)
theory Spec2Isabelle
  imports Pub_Sub Api Agent_Tools Cluster_Ingest Lease Search_Index Overlap Ingest_Cli Process_State Ring_Tests Download
begin

text \<open>
  LegalLens, a contract review service: a verification development in Isabelle/HOL.

  \<^bold>\<open>The program.\<close> \<open>scripts/ingest.py\<close> parses the CUAD file (\<open>ingestion/parser.py\<close>) and
  dispatches one task for each contract (\<open>orchestration/dispatcher.py\<close>) over a consistent hash
  ring of workers (\<open>workers/hash_ring.py\<close>), which the worker registry
  (\<open>coordination/worker_registry.py\<close>) rebuilds from heartbeat keys in Redis. A worker
  (\<open>workers/worker.py\<close>, \<open>workers/task_queue.py\<close>) pops its queue and runs the handler of
  \<open>scripts/ingest_worker.py\<close>: it embeds the clauses (\<open>ingestion/embedder.py\<close>), stores the
  vectors (\<open>ingestion/pinecone_writer.py\<close>) and writes the rows (\<open>db.py\<close>). The API
  (\<open>api/main.py\<close>) runs an agent (\<open>agents/loop.py\<close>) that calls tools
  (\<open>retrieval/tools.py\<close>, \<open>prompts/tools.py\<close>) on the index and the database and streams its
  events. \<open>orchestration/pub_sub.py\<close> carries events over Redis.

  \<^bold>\<open>Method.\<close> Exceptions are values of \<open>exc\<close>; code with effects is a function from a world to a
  result and a world (\<open>eff\<close>, in \<open>Py_Base\<close>), so that what was done before an exception stays
  done. Loops that need not end are \<open>partial_function (option)\<close>, where \<open>None\<close> is running
  forever. Redis, PostgreSQL, Cohere, Pinecone, numpy, sentence-transformers and pydantic are
  not part of the repository: they are arguments of the definitions, and what the code relies
  on is a named hypothesis (\<open>redis_queues\<close>, \<open>redis_keys\<close>, \<open>redis_pubsub\<close>, \<open>redis_ttl\<close>,
  \<open>keys_apart\<close> and \<open>leases_apart\<close>, that the commands on the keys of one kind leave the keys of the
  other kinds alone, \<open>quiet\<close>, that handlers and the rest of the world leave the queues alone, \<open>reads_keep\<close>,
  \<open>codec_ok\<close>, \<open>embeds\<close>, \<open>unfailing\<close>, \<open>keeps_ids\<close>), each of them shown to hold for a concrete instance.

  \<^bold>\<open>Theories.\<close>
  \<^item> \<open>Py_Base\<close>, \<open>Py_Str\<close>, \<open>Hashlib\<close>, \<open>Bisect\<close>, \<open>Py_Json\<close>, \<open>Json_Codec\<close>: the parts of Python the
    program uses. Effects and dictionaries (locale \<open>dict_like\<close>), string functions, MD5 and SHA-1
    on words, binary search with its specification, JSON values, \<open>json.dumps\<close> and
    \<open>json.loads\<close> with their round trip. The reader has fuel of the length of the text plus one,
    and the round trip shows that this is enough for every text the writer makes.
  \<^item> \<open>Routing\<close>, \<open>Hash_Ring\<close>: \<open>ConsistentHashRing\<close>. \<open>ring_view\<close> abstracts a ring to a map from
    positions to workers; \<open>get_worker\<close> refines the clockwise lookup \<open>ring_owner\<close>. The locale
    \<open>key_router\<close> is the contract that dispatchers rely on, interpreted on the ring. The lemmas
    show what joining, leaving and rebuilding move; those about leaving and rebuilding assume that the
    virtual nodes of the workers do not collide under MD5.
  \<^item> \<open>Sentinel_Client\<close>, \<open>Worker_Registry\<close>, \<open>Heartbeat\<close>: the client as a record of operations,
    the parser of the sentinel list, registration, the heartbeat loop, the scan, ring refresh,
    membership events and the monitor.
  \<^item> \<open>Dispatcher\<close>, \<open>Worker\<close>: tasks, \<open>dispatch\<close>, \<open>dispatch_many\<close>, the queue, the handler registry
    and the loop of \<open>Worker.run\<close> with its step relation \<open>worker_trace\<close>.
  \<^item> \<open>Cluster\<close>, \<open>Cluster_Ingest\<close>: drivers, workers and registries as processes on one server. The
    relation \<open>cl_step\<close> is one step of one process, \<open>cl_run\<close> any interleaving. Every task that was
    sent is queued, in hand, handled or lost with the worker that had popped it; a task in the
    queue of a worker that is gone stays there; and whatever the interleaving of the ingestion
    workers, the clause table changes by whole contracts.
  \<^item> \<open>Lease\<close>: a server with a clock on which heartbeat keys expire. Which workers are live is a
    function of their last heartbeats, and the monitor takes a silent worker off the ring at the
    first tick after \<open>HB_TTL_SECONDS\<close>.
  \<^item> \<open>Pub_Sub\<close>: publication and the subscription generator.
  \<^item> \<open>Parser\<close>: the CUAD parser. \<open>presents_doc\<close> relates a JSON text to an abstract document, and
    the parser returns the contracts of that document.
  \<^item> \<open>Config\<close>, \<open>Embedder\<close>, \<open>Vector_Store\<close>: the settings, both embedders, and the local index with
    its files and the Pinecone wrapper; the locale \<open>vector_store\<close> is the protocol, interpreted
    on the local index.
  \<^item> \<open>Index_Processes\<close>, \<open>Local_Stores\<close>: several processes, or one that dies, over the two files
    of the local index; each process with the index it has opened, and the ingestion and the
    search that it runs on it.
  \<^item> \<open>Process_State\<close>: the constructors, the cached settings, engine, embedder and index of a
    process, and the signal handlers of a worker.
  \<^item> \<open>Database\<close>: the tables, the SQL statements of the program as functions on them, and
    transactions whose statements, commits and rollbacks can fail.
  \<^item> \<open>Prompts\<close>, \<open>Retrieval\<close>, \<open>Agent_Loop\<close>, \<open>Agent_Tools\<close>, \<open>Api\<close>: the tools, the agent with its
    retries and its bound of 8 iterations (a structural recursion), their composition, and the
    event streams of the endpoints.
  \<^item> \<open>Ingest\<close>, \<open>Ingest_Service\<close>, \<open>Ingest_Index\<close>: the ingestion handler (refining \<open>ingested\<close>, an
    update of the clause table as a map), the driver, the worker process, and the handler on
    the local index.
  \<^item> \<open>Overlap\<close>: the handler as the sequence of its steps between two awaits (\<open>ingest_step\<close>, equal to
    the handler when it runs alone), and any number of handlers interleaved step by step with
    failures and kills: the clause table changes by whole contracts at the moments their
    handlers return, and with Pinecone, which all workers share, no row is ever without its
    contract and its vector.
  \<^item> \<open>Ingest_Cli\<close>: the command line of the driver.
  \<^item> \<open>Search_Index\<close>: ingestion and \<open>search_similar_clauses\<close> on the local index, in different
    processes: who finds what has been ingested, and what two ingestion workers do to each
    other's vectors.
  \<^item> \<open>Ring_Tests\<close>: unit tests of the ring as definitions, with the proofs that they pass.
  \<^item> \<open>Download\<close>: the download of the archive, complete or broken off.
  \<^item> This theory: what holds for the components together.

  \<^bold>\<open>What is abstracted.\<close> Characters are those of Latin-1, the characters HOL has; the two dashes
  U+2014 in message texts are hyphens. JSON numbers are integers (a fraction raises
  \<open>unmodelled\<close>), and Python's limits on recursion and on digits are absent. A Redis replica is up to
  date, and keys do not expire by themselves except in \<open>Lease\<close>. In \<open>Cluster\<close> a step is one
  successful operation of a dispatcher or registry, one pop, or one whole handler, and a task
  counts as handled when its handler has returned or its exception has been logged, as in
  \<open>Worker._handle\<close>; handlers of different workers do not overlap there; that this is no
  restriction for ingestion is shown in \<open>Overlap\<close>, where a step is one session or one call of a
  service. Clause ids are ordered by their characters, as the
  collation orders hexadecimal digits. A session takes effect at its commit, and a commit that
  raises has not happened. Waiting times, time stamps of events, logging and
  console output are left out. The two time stamps of one ingestion are the same.

  \<^bold>\<open>Not modelled.\<close> The discovery of master and replica (redis-py's), the connections of the
  pool (SQLAlchemy's), how pydantic looks a setting up, the lifespan hooks of the API, which
  only log, its request parsing (the framework's), the general rules of argparse
  beyond the options of the driver, the console output of the scripts, and the unit tests that count MD5 values over thousands of keys.
\<close>

section \<open>From the file to the answer of a tool\<close>

lemma insort_key_map: "insort_key f (g x) (map g ys) = map g (insort_key (\<lambda>x. f (g x)) x ys)"
  by (induction ys) auto

lemma sort_key_map: "sort_key f (map g xs) = map g (sort_key (\<lambda>x. f (g x)) xs)"
  by (induction xs) (simp_all add: insort_key_map)

definition fresh_hit :: "parsed_clause \<Rightarrow> clause_hit" where
  "fresh_hit c = \<lparr>ch_clause_id = clause_id c, ch_text = clause_text c, ch_page = None,
     ch_risk_level = None, ch_risk_rationale = None\<rparr>"

lemma clause_hit_of_new: "clause_hit_of (stored_row cid now c None) = fresh_hit c"
  by (simp add: stored_row_def new_clause_def clause_hit_of_def fresh_hit_def)

lemma stored_row_fields [simp]:
  "cr_clause_id (stored_row cid now c None) = clause_id c"
  "cr_contract_id (stored_row cid now c None) = cid"
  "cr_category (stored_row cid now c None) = clause_category c"
  by (simp_all add: stored_row_def new_clause_def)

lemma select_ingested:
  assumes "\<And>r. r \<in> set (clause_rows t) \<Longrightarrow> cr_contract_id r \<noteq> cid"
    and "clause_rows t' = clause_rows t @ map (\<lambda>c. stored_row cid now c None) cs"
  shows "map clause_hit_of (select_category cid cat t')
    = map fresh_hit (sort_key clause_id (filter (\<lambda>c. clause_category c = cat) cs))"
proof -
  have "filter (\<lambda>r. cr_contract_id r = cid \<and> cr_category r = cat) (clause_rows t) = []"
    using assms(1) by (auto simp: filter_empty_conv)
  then have "select_category cid cat t'
      = map (\<lambda>c. stored_row cid now c None) (sort_key clause_id (filter (\<lambda>c. clause_category c = cat) cs))"
    by (simp add: select_category_def assms(2) filter_map comp_def sort_key_map)
  then show ?thesis by (simp add: clause_hit_of_new comp_def)
qed

text \<open>
  C1: The whole way of a contract's clauses, from the CUAD file through the ingestion worker and
  the database to the tool of the agent: when a contract that the parser yields is ingested for
  the first time, \<open>extract_clauses\<close> returns for every category exactly the parsed clauses of
  that category, with the parsed ids and texts, ordered by id and not yet rated.
\<close>

theorem parsed_clauses_are_extracted:
  assumes "c \<in> set (fst (parse_cuad start_of cuad_json))" and "tables_ok (db_tables d)"
    and "\<And>r. r \<in> set (clause_rows (db_tables d)) \<Longrightarrow> cr_contract_id r \<noteq> contract_id c"
    and "handle_ingest_contract emb ups now (ingest_task c) (e, d) = (Inr res, (e1, d1))"
    and "db_tables d2 = db_tables d1"
    and "extract_clauses (contract_id c) cat (e2, d2) = (Inr out, (e3, d3))"
  shows "out = (let cs = filter (\<lambda>cl. clause_category cl = cat) (clauses c)
    in Clauses (map fresh_hit (sort_key clause_id cs)) (length cs))"
proof -
  have ids: "distinct (map clause_id (clauses c))"
    using parse_cuad_ok[OF assms(1)] by (simp add: contract_ok_def)
  obtain d0 where d0: "db_tables d0 = upsert_contract (contract_id c) (filename c) now (db_tables d)"
    and run: "clauses c = [] \<and> e1 = e \<and> d1 = d0
      \<or> clauses c \<noteq> [] \<and> (\<exists>vs e'. emb (map clause_text (clauses c)) e = (Inr vs, e')
           \<and> ups (map (contract_record (contract_id c)) (zip (clauses c) vs)) e' = (Inr (), e1)
           \<and> db_tables d1 = fold (insert_row (contract_id c) now) (clauses c) (db_tables d0))"
    by (rule handle_ingest_steps[OF assms(4)])
  have "clause_view (db_tables d0) (contract_id c, i) = None" for i
    using assms(3) by (auto simp: d0 clause_view_None)
  then have "clause_rows (fold (insert_row (contract_id c) now) (clauses c) (db_tables d0))
      = clause_rows (db_tables d) @ map (\<lambda>cl. stored_row (contract_id c) now cl None) (clauses c)"
    using assms(2) ids by (subst fold_insert_row_fresh) (simp_all add: d0 upsert_contract_ok)
  with run have "clause_rows (db_tables d2)
      = clause_rows (db_tables d) @ map (\<lambda>cl. stored_row (contract_id c) now cl None) (clauses c)"
    by (auto simp: assms(5) d0)
  from select_ingested[OF assms(3) this, of cat] extract_clauses_result(1)[OF assms(6)]
  show ?thesis by (simp add: Let_def) (metis length_map length_sort)
qed

lemma extract_no_fault:
  "db_faults d = [] \<Longrightarrow> \<exists>out. extract_clauses cid cat (e, d) = (Inr out, (e, d))"
  by (simp add: extract_clauses_def bindE_def on_db_def session_no_fault db_call_no_fault retE_apply Let_def)

lemma demo_clauses:
  obtains c where "clauses (contract_of (hd demo_doc)) = [c]" "clause_category c = ''term''" "clause_text c = ''one year''"
proof -
  have "strip '' one year '' = ''one year''" "strip ''  '' = []" "strip ''one year'' = ''one year''"
    "normalize_category ''Term'' = ''term''"
    by code_simp+
  then have "clauses (contract_of (hd demo_doc)) =
      [\<lparr>clause_id = clause_id_of (contract_id_of ''NDA.pdf'') ''term'' ''one year'',
        clause_contract = contract_id_of ''NDA.pdf'', clause_category = ''term'', clause_text = ''one year'',
        answer_start = Some 7\<rparr>]"
    by (simp add: demo_doc_def contract_of_def span_clause_def Let_def)
  then show thesis by (rule that) simp_all
qed

theorem parsed_clauses_are_extracted_witness:
  "\<exists>d hit. handle_ingest_contract demo_embed demo_upsert 7 (ingest_task (contract_of (hd demo_doc))) ([], empty_db [])
      = (Inr (contract_id (contract_of (hd demo_doc)), 1), d)
    \<and> fst (extract_clauses (contract_id (contract_of (hd demo_doc))) ''term'' d) = Inr (Clauses [hit] 1 :: int tool_output)
    \<and> ch_text hit = ''one year''"
proof -
  let ?c = "contract_of (hd demo_doc)"
  obtain c where c: "clauses ?c = [c]" "clause_category c = ''term''" "clause_text c = ''one year''"
    by (rule demo_clauses)
  obtain e1 d1 where run: "handle_ingest_contract demo_embed demo_upsert 7 (ingest_task ?c) ([], empty_db [])
      = (Inr (contract_id ?c, length (clauses ?c)), (e1, d1))" and quiet: "db_faults d1 = []"
    using demo_ingest_succeeds[of "empty_db []" 7 ?c "[]"] by (auto simp: empty_db_def)
  obtain out :: "int tool_output" where
    out: "extract_clauses (contract_id ?c) ''term'' (e1, d1) = (Inr out, (e1, d1))"
    by (rule exE[OF extract_no_fault[OF quiet]])
  have new: "cr_contract_id r \<noteq> contract_id ?c" if "r \<in> set (clause_rows (db_tables (empty_db [])))" for r
    using that by (simp add: empty_db_def)
  have "filter (\<lambda>cl. clause_category cl = ''term'') [c] = [c]" using c(2) by simp
  with parsed_clauses_are_extracted[OF demo_parsed empty_db_ok(1) new run refl out]
  have "out = Clauses (map fresh_hit (sort_key clause_id [c])) (length [c])"
    unfolding c(1) by (simp only: Let_def)
  then have "out = Clauses [fresh_hit c] 1" by simp
  then have "fst (extract_clauses (contract_id ?c) ''term'' (e1, d1)) = Inr (Clauses [fresh_hit c] 1 :: int tool_output)"
    unfolding out by simp
  moreover have "length (clauses ?c) = 1" unfolding c(1) by simp
  moreover have "ch_text (fresh_hit c) = ''one year''" using c(3) by (simp add: fresh_hit_def)
  ultimately show ?thesis using run by metis
qed

text \<open>
  The categories that the tool definition offers to the model are not those of the parser: the
  label of the example in the comment of the parser gives a tag that is none of them, and no
  label is stored as \<open>other\<close> instead.
\<close>

lemma document_name_unlisted:
  assumes "CHR 0x22 \<notin> set pre"
  shows "normalize_category (pre @ related_to @ ''Document Name'' @ CHR 0x22 # post) = ''document_name''"
    and "kind_value k \<noteq> ''document_name''"
proof -
  have "lower related_to = related_to" "slug ''Document Name'' = ''document_name''" by code_simp+
  with search_category_first[OF assms, of related_to "''Document Name''" post]
  show "normalize_category (pre @ related_to @ ''Document Name'' @ CHR 0x22 # post) = ''document_name''"
    by (simp add: normalize_category_def)
  show "kind_value k \<noteq> ''document_name''" by (cases k) simp_all
qed

section \<open>From the driver to the workers\<close>

text \<open>
  Every contract reaches exactly the worker that owns it: after a run of the driver, a worker
  that starts with an empty queue and stops when its queue is drained has handled exactly the
  ingestion tasks of the contracts its ring position owns, each once and in the order of the
  file, provided the task codec round-trips and its handlers do not touch its queue.
\<close>

lemma owner_handles_its_contracts:
  assumes "redis_queues api q" and "reads_keep api q" and "codec_ok dump validate"
    and "ingest_main api dump parsed limit (r0, w) = (Inr (n, False), (r, w1))"
    and "q w (worker_queue_key (worker_id wk)) = []" and "handlers_keep q wk"
    and "run_loop api validate stop wk w1 = Some (Inr (), w2)"
    and "q w2 (worker_queue_key (worker_id wk)) = []"
  shows "worker_trace api validate stop wk w1
    (filter (\<lambda>t. get_worker r (routing_key t) = Inr (Some (worker_id wk)))
      (map ingest_task (limited limit 0 (fst parsed)))) w2"
proof -
  let ?ts = "map ingest_task (limited limit 0 (fst parsed))"
  note pushes = ingest_main_pushes[OF assms(1,2,4)]
  have "tasks_of (get_worker r) (worker_id wk) ?ts
      = filter (\<lambda>t. get_worker r (routing_key t) = Inr (Some (worker_id wk))) ?ts"
    by (rule tasks_of_filter) (rule pushes(3))
  then have "q w1 (worker_queue_key (worker_id wk))
      = map dump (filter (\<lambda>t. get_worker r (routing_key t) = Inr (Some (worker_id wk))) ?ts)"
    by (simp only: pushes(2) push_list_pipe_of assms(5) append_Nil)
  then show ?thesis
    by (rule run_loop_drains[OF assms(1,6,3,7) _ assms(8)]) (use payload_ingest_ok in auto)
qed

lemma worker_run_k:
  "run_loop mem_redis validate_task stop_when_drained worker_a mem_run = Some (Inr (), mem_done)"
proof -
  have "validate_task (dump_task (ingest_task contract_k)) = Inr (ingest_task contract_k)"
    using codec_ok_json payload_ingest_ok unfolding codec_ok_def by blast
  then have "task_pop mem_redis validate_task ''a'' mem_run = (Inr (Some (ingest_task contract_k)), mem_done)"
    by (simp add: task_pop_Some mem_lists_run mem_done_def)
  moreover have "handle worker_a (ingest_task contract_k) mem_done = (Inr (), mem_done)"
    by (simp add: handle_def dict_get_def ingest_task_def tryE_def bindE_def retE_def)
  moreover have "stop_when_drained mem_done" "\<not> stop_when_drained mem_run"
    by (simp_all add: stop_when_drained_def mem_lists_run)
  ultimately show ?thesis
    by (simp add: run_loop.simps[of _ _ _ _ mem_run] run_loop.simps[of _ _ _ _ mem_done])
qed

lemma owner_handles_its_contracts_example:
  "worker_trace mem_redis validate_task stop_when_drained worker_a mem_run [ingest_task contract_k] mem_done"
proof -
  have main: "ingest_main mem_redis dump_task ([contract_k, contract_k], None) (Some 1) (ring_init 1, mem_ab)
      = (Inr (1, False), (ring_ab, mem_run))"
    unfolding mem_run_def by (rule ingest_main_mem)
  have keep: "handlers_keep mem_list worker_a"
    by (auto simp: handlers_add_def dict_get_def split: if_splits)
  have owner: "get_worker ring_ab (routing_key (ingest_task contract_k)) = Inr (Some ''a'')"
    by (simp add: ingest_task_def contract_k_def get_worker_ab)
  show ?thesis
    using owner_handles_its_contracts[OF mem_redis_queues mem_reads_keep codec_ok_json main _ keep worker_run_k]
      mem_lists_run owner
    by (simp add: limited_def)
qed

text \<open>
  C2: The ingestion pipeline, from the driver through the queue and the worker process to the
  database: when the worker has drained its queue after a run of the driver, its clause table
  has changed by the contracts it owns, in the order of the file, each of them stored as a
  whole or, if its task failed, not at all, and all of them are stored when the services and the
  database do not fail; the primary keys are still unique. The clauses of
  a contract must have distinct ids, as those of a parsed file have.
\<close>

theorem ingestion_pipeline:
  assumes "redis_queues api q" and "reads_keep api q" and "codec_ok dump validate"
    and "\<And>c. c \<in> set (fst parsed) \<Longrightarrow> distinct (map clause_id (clauses c))"
    and "ingest_main api dump parsed limit (r0, w) = (Inr (n, False), (r, w1))"
    and "q w (worker_queue_key wid) = []" and "tables_ok (db_tables d)"
    and "run_loop (lift_redis api) validate stop (ingest_worker wid emb ups clock) (w1, (e, d))
      = Some (Inr (), (w2, (e2, d2)))"
    and "q w2 (worker_queue_key wid) = []"
  shows "let cs = filter (\<lambda>c. get_worker r (contract_id c) = Inr (Some wid)) (limited limit 0 (fst parsed)) in
    tables_ok (db_tables d2) \<and> (\<exists>outcomes. length outcomes = length cs
      \<and> (unfailing emb ups \<longrightarrow> db_faults d = [] \<longrightarrow> None \<notin> set outcomes)
      \<and> clause_view (db_tables d2) = fold task_effect (zip cs outcomes) (clause_view (db_tables d)))"
proof -
  let ?cs = "filter (\<lambda>c. get_worker r (contract_id c) = Inr (Some wid)) (limited limit 0 (fst parsed))"
  let ?wk = "ingest_worker wid emb ups clock"
  note pushes = ingest_main_pushes[OF assms(1,2,5)]
  have "tasks_of (get_worker r) wid (map ingest_task (limited limit 0 (fst parsed))) = map ingest_task ?cs"
    by (subst tasks_of_filter, rule pushes(3)) (simp_all add: filter_map comp_def ingest_task_def)
  then have "q w1 (worker_queue_key wid) = map dump (map ingest_task ?cs)"
    by (simp only: pushes(2) push_list_pipe_of assms(6) append_Nil)
  then have trace: "worker_trace (lift_redis api) validate stop ?wk (w1, (e, d)) (map ingest_task ?cs) (w2, (e2, d2))"
    by (intro run_loop_drains[OF lift_redis_queues[OF assms(1)] ingest_worker_keeps assms(3,8)])
      (use assms(9) payload_ingest_ok in \<open>auto simp del: map_map json_ok.simps\<close>)
  have "set ?cs \<subseteq> set (fst parsed)"
    by (auto simp: limited_def split: option.splits if_splits dest: in_set_takeD)
  then have "distinct (map clause_id (clauses c))" if "c \<in> set ?cs" for c using that assms(4) by blast
  from trace_ingests[OF trace refl _ this] assms(7) show ?thesis unfolding Let_def by auto
qed

lemma demo_process_run:
  "\<exists>e' d'. run_loop (lift_redis mem_redis) validate_task (\<lambda>s. stop_when_drained (fst s)) demo_process
     (mem_run, ([], empty_db [])) = Some (Inr (), (mem_done, (e', d')))"
proof -
  obtain e' d' where "handle demo_process (ingest_task contract_k) (mem_done, ([], empty_db []))
      = (Inr (), (mem_done, (e', d')))"
    by (rule demo_handle)
  moreover have "stop_when_drained mem_done" "\<not> stop_when_drained mem_run"
    by (simp_all add: stop_when_drained_def mem_lists_run)
  ultimately show ?thesis
    by (simp add: run_loop.simps[of _ _ _ _ "(mem_run, _)"] run_loop.simps[of _ _ _ _ "(mem_done, _)"] demo_pop)
qed

theorem ingestion_pipeline_witness:
  "\<exists>e' d' now. run_loop (lift_redis mem_redis) validate_task (\<lambda>s. stop_when_drained (fst s)) demo_process
       (mem_run, ([], empty_db [])) = Some (Inr (), (mem_done, (e', d')))
     \<and> clause_view (db_tables d') = ingested now (contract_id contract_k) (clauses contract_k) Map.empty"
proof -
  obtain e' d' where run: "run_loop (lift_redis mem_redis) validate_task (\<lambda>s. stop_when_drained (fst s)) demo_process
     (mem_run, ([], empty_db [])) = Some (Inr (), (mem_done, (e', d')))"
    using demo_process_run by blast
  have main: "ingest_main mem_redis dump_task ([contract_k, contract_k], None) (Some 1) (ring_init 1, mem_ab)
      = (Inr (1, False), (ring_ab, mem_run))"
    unfolding mem_run_def by (rule ingest_main_mem)
  have no_faults: "db_faults (empty_db []) = []" by (simp add: empty_db_def)
  have ids: "distinct (map clause_id (clauses c))" if "c \<in> set (fst ([contract_k, contract_k], None :: exc option))" for c
    using that by (auto simp: contract_k_def)
  have owned: "filter (\<lambda>c. get_worker ring_ab (contract_id c) = Inr (Some ''a''))
      (limited (Some 1) 0 (fst ([contract_k, contract_k], None :: exc option))) = [contract_k]"
    by (simp add: limited_def contract_k_def get_worker_ab)
  from ingestion_pipeline[OF mem_redis_queues mem_reads_keep codec_ok_json ids main mem_lists_run(1)
      empty_db_ok(1) run mem_lists_run(3)]
  obtain os where "length os = 1" "None \<notin> set os"
    "clause_view (db_tables d') = fold task_effect (zip [contract_k] os) Map.empty"
    unfolding owned Let_def by (auto simp: empty_db_ok demo_unfailing no_faults)
  then obtain now where "clause_view (db_tables d') = ingested now (contract_id contract_k) (clauses contract_k) Map.empty"
    by (cases "hd os") (auto simp: length_Suc_conv task_effect_def)
  then show ?thesis using run by blast
qed

section \<open>From the registry to the routing\<close>

text \<open>
  C13: A worker that leaves takes only its own keys away: when it deregisters and the registry
  refreshes again, it is off the ring and every key of another worker is routed as before.
\<close>

theorem leaving_moves_only_own_keys:
  assumes "redis_keys api keys" and "collision_free (virtual_nodes r) (live_workers keys w)"
    and "0 < virtual_nodes r"
    and "refresh_ring api (r, w) = (Inr ws, (r1, w1))" and "deregister api wid w1 = (Inr (), w2)"
    and "refresh_ring api (r1, w2) = (Inr ws', (r2, w3))"
  shows "wid \<notin> set (workers r2)
    \<and> (get_worker r1 key \<noteq> Inr (Some wid) \<longrightarrow> get_worker r2 key = get_worker r1 key)"
proof -
  from assms(4) have 1: "list_workers api w = (Inr ws, w1)" and r1: "r1 = replace_workers r ws"
    by (auto simp: refresh_ring_cases split: prod.splits sum.splits)
  from assms(6) have 2: "list_workers api w2 = (Inr ws', w3)" and r2: "r2 = replace_workers r1 ws'"
    by (auto simp: refresh_ring_cases split: prod.splits sum.splits)
  have ws: "set ws = live_workers keys w" by (rule list_workers_result(1)[OF assms(1) 1])
  have ws': "set ws' = set ws - {wid}"
    using list_workers_result(1)[OF assms(1) 2] list_workers_result(3)[OF assms(1) 1]
      deregister_keys[OF assms(1,5)] ws by (auto simp: live_workers_def)
  have cf: "collision_free (virtual_nodes r) (set ws)" using assms(2) ws by simp
  have cf': "collision_free (virtual_nodes r1) (set ws')" using cf ws' r1 by (auto simp: collision_free_def)
  have "workers r2 = sort (remdups ws')"
    unfolding r2 by (rule workers_replace[OF cf']) (simp add: r1 assms(3))
  moreover have "get_worker r2 key = get_worker r1 key" if other: "get_worker r1 key \<noteq> Inr (Some wid)"
  proof (cases "wid \<in> set ws")
    case True
    have "owns_positions r1 wid"
      unfolding r1 by (rule owns_positions_replace) (use True cf in \<open>simp add: insert_absorb\<close>)
    then have "get_worker (remove_worker r1 wid) key = get_worker r1 key"
      using owner_after_remove[of r1 wid "ring_hash key"] other r1 by (simp add: get_worker_refines)
    then show ?thesis
      using replace_without[OF cf _ ws' True, of r1 key] r1 r2 by simp
  next
    case False
    then show ?thesis using same_routing[OF cf, of r1 ws' key] ws' r1 r2 by simp
  qed
  ultimately show ?thesis using ws' by simp
qed

theorem leaving_moves_only_own_keys_witness:
  "\<exists>r. fst (snd (refresh_ring mem_redis (ring_ab, snd (deregister mem_redis ''b'' mem_ab)))) = r
     \<and> ''b'' \<notin> set (workers r) \<and> get_worker r ''k'' = Inr (Some ''a'')"
proof -
  let ?w2 = "snd (deregister mem_redis ''b'' mem_ab)"
  have leave: "deregister mem_redis ''b'' mem_ab = (Inr (), ?w2)" by code_simp
  have ab: "refresh_ring mem_redis (ring_init 1, mem_ab) = (Inr [''a'', ''b''], (ring_ab, mem_ab))"
    using refresh_mem_ab[of "ring_init 1"] by (simp add: replace_ab)
  have "list_workers mem_redis ?w2 = (Inr [''a''], ?w2)" by code_simp
  then have again: "refresh_ring mem_redis (ring_ab, ?w2) = (Inr [''a''], (replace_workers ring_ab [''a''], ?w2))"
    by (simp add: refresh_ring_cases)
  have "live_workers (\<lambda>m. set (mem_keys m)) mem_ab = {''a'', ''b''}"
    by (auto simp: live_workers_def mem_ab_def hb_key_def HB_KEY_PREFIX_def)
  moreover have "collision_free 1 {''a'', ''b''}"
    using collision_free_abc by (simp add: collision_free_def)
  ultimately have "collision_free (virtual_nodes (ring_init 1)) (live_workers (\<lambda>m. set (mem_keys m)) mem_ab)"
    "0 < virtual_nodes (ring_init 1)" by simp_all
  from leaving_moves_only_own_keys[OF mem_redis_keys this ab leave again, of "''k''"]
  show ?thesis by (simp add: again get_worker_ab)
qed

end
